(* ===== verification/CPrelude.thy ===== *)
theory CPrelude
  imports Main "HOL-Library.Word"
begin

text \<open>
  The part of C and of its standard library that the programs of this repository share:
  fixed-size buffers and bounds-checked stores (an out-of-bounds store is \<open>None\<close>, the
  undefined behaviour of C), NUL-terminated strings with \<^verbatim>\<open>strncpy\<close> and
  \<^verbatim>\<open>strncat\<close>, the search loop \<^verbatim>\<open>for (i = 0; i < n; i++) if (p(a[i])) return i;\<close>, and
  the interface of transition systems with an invariant.
\<close>

named_theorems c_defs "definitions of the C runtime layer, unfolded when a program is run"
named_theorems inv_simps "definitions of component invariants"

type_synonym byte = "8 word"

text \<open>The range of C's \<^verbatim>\<open>int\<close>.\<close>

definition INT_MAX :: int where "INT_MAX = 2147483647"
definition INT_MIN :: int where "INT_MIN = -2147483648"

definition in_int :: "int \<Rightarrow> bool" where
  "in_int n \<longleftrightarrow> INT_MIN \<le> n \<and> n \<le> INT_MAX"

text \<open>The conversion to \<^verbatim>\<open>int\<close> of a wider integer, modulo \<open>2\<^sup>3\<^sup>2\<close>.\<close>

definition c_int :: "int \<Rightarrow> int" where
  "c_int n = (n + 2147483648) mod 4294967296 - 2147483648"

lemma c_int_id: "in_int n \<Longrightarrow> c_int n = n"
  by (simp add: c_int_def in_int_def INT_MIN_def INT_MAX_def)

section \<open>NUL-terminated strings\<close>

instantiation char :: zero
begin
definition zero_char :: char where "zero_char = CHR 0x00"
instance ..
end

text \<open>The string a buffer holds: everything before the first NUL.\<close>

definition cstr :: "'a::zero list \<Rightarrow> 'a list" where
  "cstr b = takeWhile (\<lambda>c. c \<noteq> 0) b"

abbreviation strlen :: "'a::zero list \<Rightarrow> nat" where
  "strlen b \<equiv> length (cstr b)"

definition terminated :: "'a::zero list \<Rightarrow> bool" where
  "terminated b \<longleftrightarrow> 0 \<in> set b"

lemma cstr_Nil [simp]: "cstr [] = []"
  by (simp add: cstr_def)

lemma cstr_Cons: "cstr (c # cs) = (if c = 0 then [] else c # cstr cs)"
  by (simp add: cstr_def)

lemma cstr_no_zero [simp]: "0 \<notin> set (cstr b)"
  unfolding cstr_def by (metis (mono_tags, lifting) set_takeWhileD)

lemma cstr_id: "0 \<notin> set s \<Longrightarrow> cstr s = s"
  unfolding cstr_def by (simp add: takeWhile_eq_all_conv)
    (metis (mono_tags, lifting))

lemma cstr_cstr [simp]: "cstr (cstr b) = cstr b"
  by (simp add: cstr_id)

lemma cstr_append_zero: "0 \<notin> set s \<Longrightarrow> cstr (s @ 0 # r) = s"
  by (induction s) (auto simp: cstr_Cons)

lemma cstr_zero_Cons [simp]: "cstr (0 # r) = []"
  by (simp add: cstr_Cons)

lemma strlen_le: "strlen b \<le> length b"
  by (simp add: cstr_def length_takeWhile_le)

lemma strlen_less: "terminated b \<Longrightarrow> strlen b < length b"
  unfolding terminated_def
proof (induction b)
  case (Cons c b)
  then show ?case by (auto simp: cstr_Cons)
qed simp

lemma cstr_take: "0 \<notin> set s \<Longrightarrow> cstr (take n s) = take n s"
  by (rule cstr_id) (meson in_set_takeD)

text \<open>
  \<^verbatim>\<open>strncpy(dst, src, n)\<close>: the first \<open>n\<close> bytes of \<^verbatim>\<open>dst\<close> become the string of \<^verbatim>\<open>src\<close>,
  cut at \<open>n\<close> or padded with NULs up to \<open>n\<close>. Every call in the repository has \<open>n\<close> below
  the size of the destination.
\<close>

definition c_strncpy :: "'a::zero list \<Rightarrow> 'a list \<Rightarrow> nat \<Rightarrow> 'a list" where
  "c_strncpy dst src n = take n (cstr src @ replicate n 0) @ drop n dst"

text \<open>
  The idiom \<^verbatim>\<open>strncpy(dst, src, N - 1); dst[N - 1] = '\0';\<close> on a destination of \<open>N\<close> bytes.
\<close>

definition copy_field :: "nat \<Rightarrow> 'a::zero list \<Rightarrow> 'a list \<Rightarrow> 'a list" where
  "copy_field N dst src = (c_strncpy dst src (N - 1))[N - 1 := 0]"

lemma length_strncpy [simp]: "n \<le> length dst \<Longrightarrow> length (c_strncpy dst src n) = length dst"
  by (simp add: c_strncpy_def)

lemma length_copy_field [simp]:
  "length dst = N \<Longrightarrow> length (copy_field N dst src) = N"
  by (simp add: copy_field_def)

lemma cstr_pad: "0 \<notin> set s \<Longrightarrow> 0 < k \<Longrightarrow> cstr (s @ replicate k 0 @ r) = s"
  by (cases k) (auto simp: cstr_append_zero)

lemma strncpy_zero_last:
  assumes "length dst = Suc n" and "dst ! n = 0"
  shows "cstr (c_strncpy dst src n) = take n (cstr src)"
proof -
  have d: "drop n dst = [0]"
    using assms by (metis Cons_nth_drop_Suc drop_all lessI order_refl)
  have nz: "0 \<notin> set (take n (cstr src))"
    by (meson cstr_no_zero in_set_takeD)
  show ?thesis
  proof (cases "n \<le> strlen src")
    case True
    then show ?thesis using d nz by (simp add: c_strncpy_def cstr_append_zero)
  next
    case False
    then have "take n (cstr src @ replicate n 0) = cstr src @ replicate (n - strlen src) 0"
      by (simp add: take_replicate)
    then show ?thesis using d False by (simp add: c_strncpy_def cstr_pad)
  qed
qed

lemma cstr_copy_field:
  assumes "length dst = N" and "0 < N"
  shows "cstr (copy_field N dst src) = take (N - 1) (cstr src)"
proof -
  let ?d = "dst[N - 1 := 0]"
  have "drop (N - 1) dst = [dst ! (N - 1)]"
    using assms by (metis Cons_nth_drop_Suc One_nat_def Suc_pred diff_less drop_all le_refl lessI)
  moreover have "length (take (N - 1) (cstr src @ replicate (N - 1) 0)) = N - 1"
    by simp
  ultimately have "copy_field N dst src = take (N - 1) (cstr src @ replicate (N - 1) 0) @ [0]"
    by (simp only: copy_field_def c_strncpy_def list_update_append) simp
  moreover have "drop (N - 1) ?d = [0]"
    using assms by (metis Cons_nth_drop_Suc One_nat_def Suc_pred diff_less drop_all le_refl
        length_list_update lessI nth_list_update_eq)
  ultimately have "copy_field N dst src = c_strncpy ?d src (N - 1)"
    by (simp add: c_strncpy_def)
  moreover have "length ?d = Suc (N - 1)" "?d ! (N - 1) = 0"
    using assms by auto
  ultimately show ?thesis
    by (simp add: strncpy_zero_last)
qed

lemma copy_field_terminated:
  assumes "length dst = N" and "0 < N"
  shows "terminated (copy_field N dst src)"
proof -
  have "copy_field N dst src ! (N - 1) = 0" "N - 1 < length (copy_field N dst src)"
    using assms by (auto simp: copy_field_def)
  then show ?thesis unfolding terminated_def by (metis nth_mem)
qed

text \<open>
  \<^verbatim>\<open>strncat(dst, src, n)\<close>: appends at most \<open>n\<close> characters of \<^verbatim>\<open>src\<close> and a NUL to the string in
  \<^verbatim>\<open>dst\<close>; writing past the end of \<^verbatim>\<open>dst\<close> is undefined behaviour.
\<close>

definition c_strncat :: "'a::zero list \<Rightarrow> 'a list \<Rightarrow> nat \<Rightarrow> 'a list option" where
  "c_strncat dst src n =
     (let s = cstr dst @ take n (cstr src) @ [0]
      in if length s \<le> length dst then Some (s @ drop (length s) dst) else None)"

lemma cstr_strncat:
  "c_strncat dst src n = Some d \<Longrightarrow> cstr d = cstr dst @ take n (cstr src)"
proof -
  assume a: "c_strncat dst src n = Some d"
  have "0 \<notin> set (cstr dst @ take n (cstr src))"
    by (metis Un_iff cstr_no_zero in_set_takeD set_append)
  then have "cstr ((cstr dst @ take n (cstr src)) @ 0 # drop (Suc (strlen dst + length (take n (cstr src)))) dst)
     = cstr dst @ take n (cstr src)"
    by (rule cstr_append_zero)
  then show ?thesis
    using a by (auto simp: c_strncat_def Let_def split: if_splits)
qed

lemma length_strncat: "c_strncat dst src n = Some d \<Longrightarrow> length d = length dst"
  by (auto simp: c_strncat_def Let_def split: if_splits)

section \<open>Buffers\<close>

text \<open>Reading \<open>n\<close> bytes at an offset and storing bytes at an offset.\<close>

definition peek :: "nat \<Rightarrow> nat \<Rightarrow> 'a list \<Rightarrow> 'a list" where
  "peek off n buf = take n (drop off buf)"

definition poke :: "nat \<Rightarrow> 'a list \<Rightarrow> 'a list \<Rightarrow> 'a list" where
  "poke off xs buf = take off buf @ xs @ drop (off + length xs) buf"

text \<open>The store with its bounds check: out of bounds is undefined behaviour.\<close>

definition store :: "nat \<Rightarrow> 'a list \<Rightarrow> 'a list \<Rightarrow> 'a list option" where
  "store off xs buf = (if off + length xs \<le> length buf then Some (poke off xs buf) else None)"

lemma length_poke [simp]: "off + length xs \<le> length buf \<Longrightarrow> length (poke off xs buf) = length buf"
  by (simp add: poke_def)

lemma length_peek: "off + n \<le> length buf \<Longrightarrow> length (peek off n buf) = n"
  by (simp add: peek_def)

lemma nth_poke_in:
  "off + length xs \<le> length buf \<Longrightarrow> off \<le> i \<Longrightarrow> i < off + length xs \<Longrightarrow> poke off xs buf ! i = xs ! (i - off)"
  by (simp add: poke_def nth_append less_diff_conv2)

lemma nth_poke_out:
  assumes "off + length xs \<le> length buf" and "i < off \<or> off + length xs \<le> i" and "i < length buf"
  shows "poke off xs buf ! i = buf ! i"
  using assms by (auto simp: poke_def nth_append)

lemma nth_poke:
  assumes "off + length xs \<le> length buf" and "i < length buf"
  shows "poke off xs buf ! i = (if off \<le> i \<and> i < off + length xs then xs ! (i - off) else buf ! i)"
  using nth_poke_in [OF assms(1), of i] nth_poke_out [OF assms(1), of i] assms(2) by auto

lemma peek_poke_same:
  "off + length xs \<le> length buf \<Longrightarrow> n = length xs \<Longrightarrow> peek off n (poke off xs buf) = xs"
  by (simp add: peek_def poke_def)

lemma nth_peek: "off + n \<le> length buf \<Longrightarrow> i < n \<Longrightarrow> peek off n buf ! i = buf ! (off + i)"
  by (simp add: peek_def)

lemma peek_poke_disjoint:
  assumes "off + length xs \<le> length buf" and "i + n \<le> off \<or> off + length xs \<le> i" and "i + n \<le> length buf"
  shows "peek i n (poke off xs buf) = peek i n buf"
proof (rule nth_equalityI)
  show "length (peek i n (poke off xs buf)) = length (peek i n buf)"
    using assms by (simp add: peek_def)
next
  fix j assume "j < length (peek i n (poke off xs buf))"
  then have j: "j < n" using assms by (simp add: peek_def)
  have "poke off xs buf ! (i + j) = buf ! (i + j)"
    by (rule nth_poke_out) (use assms j in auto)
  then show "peek i n (poke off xs buf) ! j = peek i n buf ! j"
    using j assms by (simp add: nth_peek)
qed

lemmas peek_poke = peek_poke_same peek_poke_disjoint

section \<open>The search loop\<close>

text \<open>
  \<^verbatim>\<open>for (int i = 0; i < n; i++) if (p(a[i])) return i; return -1;\<close> with \<open>None\<close> for \<^verbatim>\<open>-1\<close>.
\<close>

fun first_index :: "('a \<Rightarrow> bool) \<Rightarrow> 'a list \<Rightarrow> nat option" where
  "first_index p [] = None"
| "first_index p (x # xs) = (if p x then Some 0 else map_option Suc (first_index p xs))"

lemma first_index_Some_iff:
  "first_index p xs = Some i \<longleftrightarrow> i < length xs \<and> p (xs ! i) \<and> (\<forall>j<i. \<not> p (xs ! j))"
proof (induction xs arbitrary: i)
  case (Cons x xs)
  show ?case
  proof (cases i)
    case 0
    then show ?thesis by auto
  next
    case (Suc k)
    then show ?thesis using Cons.IH [of k] by (auto simp: All_less_Suc2)
  qed
qed simp

lemma first_index_None_iff: "first_index p xs = None \<longleftrightarrow> (\<forall>x\<in>set xs. \<not> p x)"
  by (induction xs) auto

lemma first_index_SomeD:
  assumes "first_index p xs = Some i"
  shows "i < length xs" "p (xs ! i)" "\<And>j. j < i \<Longrightarrow> \<not> p (xs ! j)"
  using assms by (auto simp: first_index_Some_iff)

lemma first_index_unique:
  assumes "i < length xs" "p (xs ! i)" "\<And>j. j < length xs \<Longrightarrow> p (xs ! j) \<Longrightarrow> j = i"
  shows "first_index p xs = Some i"
proof -
  have "\<not> p (xs ! j)" if "j < i" for j
    using assms(1) assms(3) [of j] that by auto
  then show ?thesis using assms(1,2) by (simp add: first_index_Some_iff)
qed

lemma first_index_cong: "(\<And>x. x \<in> set xs \<Longrightarrow> p x = q x) \<Longrightarrow> first_index p xs = first_index q xs"
  by (induction xs) auto

text \<open>The index as C returns it: \<^verbatim>\<open>-1\<close> when nothing is found.\<close>

definition c_index :: "nat option \<Rightarrow> int" where
  "c_index r = (case r of None \<Rightarrow> -1 | Some i \<Rightarrow> int i)"

lemma c_index_neg_iff [simp]: "c_index r = -1 \<longleftrightarrow> r = None"
  by (auto simp: c_index_def split: option.splits)

lemma c_index_ge_iff [simp]: "0 \<le> c_index r \<longleftrightarrow> r \<noteq> None"
  by (auto simp: c_index_def split: option.splits)

lemma c_index_lt_iff [simp]: "c_index r < 0 \<longleftrightarrow> r = None"
  by (auto simp: c_index_def split: option.splits)

lemma c_index_Some [simp]: "c_index (Some i) = int i"
  by (simp add: c_index_def)

lemma c_index_None [simp]: "c_index None = -1"
  by (simp add: c_index_def)

section \<open>Association lists\<close>

lemma map_of_update_nth:
  assumes "distinct (map fst xs)" "i < length xs"
  shows "map_of (xs[i := (fst (xs ! i), v)]) = (map_of xs)(fst (xs ! i) \<mapsto> v)"
  using assms
proof (induction xs arbitrary: i)
  case (Cons x xs)
  show ?case
  proof (cases i)
    case 0
    then show ?thesis by (cases x) (auto simp: fun_eq_iff)
  next
    case (Suc j)
    then have "fst x \<noteq> fst (xs ! j)"
      using Cons.prems Suc nth_mem [of j xs] by (metis distinct.simps(2) image_eqI length_Cons
          less_Suc_eq_0_disj list.map(2) list.set_map nat.inject nat.simps(3))
    then show ?thesis
      using Suc Cons by (cases x) (auto simp: fun_eq_iff)
  qed
qed simp

lemma map_of_snoc: "k \<notin> fst ` set xs \<Longrightarrow> map_of (xs @ [(k, v)]) = (map_of xs)(k \<mapsto> v)"
  by (auto simp: map_add_def fun_eq_iff dom_map_of_conv_image_fst [symmetric] domIff split: option.splits)

text \<open>An array searched by a key field is a map; an update of the first match is a map update.\<close>

lemma map_of_first_index:
  "map_of (map (\<lambda>x. (k x, v x)) xs) a = map_option (\<lambda>i. v (xs ! i)) (first_index (\<lambda>x. k x = a) xs)"
  by (induction xs) (auto simp: option.map_comp comp_def)

lemma map_of_update_first:
  assumes "first_index (\<lambda>x. k x = a) xs = Some i" and "k y = a"
  shows "map_of (map (\<lambda>x. (k x, v x)) (xs[i := y])) = (map_of (map (\<lambda>x. (k x, v x)) xs))(a \<mapsto> v y)"
  using assms
proof (induction xs arbitrary: i)
  case (Cons x xs)
  then show ?case by (cases "k x = a") (auto simp: fun_eq_iff)
qed simp

text \<open>An update in place, as a list split at the updated position.\<close>

lemma list_update_split:
  assumes "i < length xs"
  obtains a b where "xs = a @ xs ! i # b" "\<And>y. xs[i := y] = a @ y # b"
  using assms id_take_nth_drop [OF assms] upd_conv_take_nth_drop [OF assms] by metis

lemma in_set_updateD: "x \<in> set (xs[i := y]) \<Longrightarrow> x = y \<or> x \<in> set xs"
  using set_update_subset_insert [of xs i y] by auto

lemma set_update_other: "x \<in> set xs \<Longrightarrow> xs ! i \<noteq> x \<Longrightarrow> x \<in> set (xs[i := y])"
  by (metis in_set_conv_nth length_list_update nth_list_update_neq)

text \<open>Two positions of a ring of \<open>c\<close> slots, less than \<open>c\<close> apart, are different slots.\<close>

lemma ring_distinct:
  assumes "i < n" "n < (c::nat)"
  shows "(f + i) mod c \<noteq> (f + n) mod c"
proof
  assume "(f + i) mod c = (f + n) mod c"
  then have "(n - i) mod c = 0"
    using assms by (metis add_less_cancel_left add_diff_cancel_left less_imp_le mod_eq_dvd_iff_nat mod_0_imp_dvd
        dvd_imp_mod_0)
  then show False using assms by simp
qed

section \<open>Transition systems\<close>

text \<open>
  The interface of every state machine of the development: an initial predicate, a step relation, and
  an invariant that holds initially and is kept by each step. Reachability is the reflexive transitive
  closure.
\<close>

locale transition_system =
  fixes init :: "'s \<Rightarrow> bool" and step :: "'s \<Rightarrow> 's \<Rightarrow> bool" and inv :: "'s \<Rightarrow> bool"
  assumes init_inv: "init s \<Longrightarrow> inv s"
    and step_inv: "inv s \<Longrightarrow> step s t \<Longrightarrow> inv t"
begin

definition reach :: "'s \<Rightarrow> bool" where
  "reach t \<longleftrightarrow> (\<exists>s. init s \<and> step\<^sup>*\<^sup>* s t)"

lemma reach_init: "init s \<Longrightarrow> reach s"
  by (auto simp: reach_def)

lemma reach_step: "reach s \<Longrightarrow> step s t \<Longrightarrow> reach t"
  unfolding reach_def by (meson rtranclp.rtrancl_into_rtrancl)

lemma steps_inv: "step\<^sup>*\<^sup>* s t \<Longrightarrow> inv s \<Longrightarrow> inv t"
  by (induction rule: rtranclp_induct) (auto intro: step_inv)

lemma reach_inv: "reach t \<Longrightarrow> inv t"
  unfolding reach_def using steps_inv init_inv by blast

end

end
