(* ===== verification/Packet.thy ===== *)
theory Packet
  imports CPrelude
begin

unbundle bit_operations_syntax

text \<open>
  The raw frames of \<^verbatim>\<open>final_hw_1\<close>: 16-bit fields in network byte order on a little-endian host, the
  Internet checksum \<^verbatim>\<open>checksum()\<close>, and the Ethernet, IPv4 and UDP headers the client and the server
  write into a 1500-byte buffer. The checksum lemmas relate the loop, which folds the carry after
  every addition, to the sum of the 16-bit words modulo 65535.
\<close>

section \<open>Byte order\<close>

text \<open>The value of a \<^verbatim>\<open>uint16_t\<close> whose two bytes in memory are \<open>lo\<close> and then \<open>hi\<close>.\<close>

definition load16 :: "byte \<Rightarrow> byte \<Rightarrow> 16 word" where
  "load16 lo hi = ucast lo + 256 * ucast hi"

text \<open>The two bytes in memory of a \<^verbatim>\<open>uint16_t\<close>.\<close>

definition bytes16 :: "16 word \<Rightarrow> byte list" where
  "bytes16 w = [ucast w, ucast (drop_bit 8 w)]"

definition ntohs :: "16 word \<Rightarrow> 16 word" where
  "ntohs w = load16 (ucast (drop_bit 8 w)) (ucast w)"

definition htons :: "16 word \<Rightarrow> 16 word" where
  "htons w = load16 (ucast (drop_bit 8 w)) (ucast w)"

lemma unat_byte: "unat (b :: byte) < 256"
  using unsigned_less [of b, where 'a = nat] by simp

lemma unat_load16: "unat (load16 lo hi) = unat lo + 256 * unat hi"
proof -
  have "unat lo < 256" "unat hi < 256" by (rule unat_byte)+
  then show ?thesis
    by (simp add: load16_def unat_word_ariths unsigned_ucast_eq take_bit_eq_mod)
qed

lemma load16_low [simp]: "ucast (load16 lo hi) = lo"
  using unat_byte [of lo] by (simp add: word_unat_eq_iff unsigned_ucast_eq take_bit_eq_mod unat_load16)

lemma load16_high [simp]: "ucast (drop_bit 8 (load16 lo hi)) = hi"
  using unat_byte [of lo] unat_byte [of hi]
  by (simp add: word_unat_eq_iff unsigned_ucast_eq take_bit_eq_mod unat_load16 unat_drop_bit_eq
      drop_bit_eq_div [where 'a = nat])

lemma load16_bytes [simp]: "load16 (ucast w) (ucast (drop_bit 8 w)) = w"
proof -
  have "unat w < 65536" using unsigned_less [of w, where 'a = nat] by simp
  then have "unat w div 256 < 256" by simp
  then show ?thesis
    by (simp add: word_unat_eq_iff unsigned_ucast_eq take_bit_eq_mod unat_load16 unat_drop_bit_eq
        drop_bit_eq_div [where 'a = nat])
qed

lemma ntohs_load16 [simp]: "ntohs (load16 a b) = load16 b a"
  by (simp add: ntohs_def)

lemma ntohs_htons [simp]: "ntohs (htons w) = w"
  by (simp add: htons_def ntohs_def)

lemma htons_ntohs [simp]: "htons (ntohs w) = w"
  by (simp add: htons_def ntohs_def)

lemma htons_zero [simp]: "htons 0 = 0"
  by (simp add: htons_def load16_def)

lemma bytes16_htons: "bytes16 (htons w) = [ucast (drop_bit 8 w), ucast w]"
  by (simp add: bytes16_def htons_def)

lemma length_bytes16 [simp]: "length (bytes16 w) = 2"
  by (simp add: bytes16_def)

section \<open>The checksum\<close>

text \<open>
  One addition of the loop: \<^verbatim>\<open>acc += ntohs(word); if (acc > 0xffff) acc -= 0xffff;\<close>
\<close>

definition add_fold :: "32 word \<Rightarrow> 16 word \<Rightarrow> 32 word" where
  "add_fold acc w = (let acc' = acc + ucast (ntohs w)
     in if acc' > 0xffff then acc' - 0xffff else acc')"

text \<open>The loop \<^verbatim>\<open>for (size_t i = 0; i + 1 < length; i += 2)\<close>.\<close>

function checksum_loop :: "byte list \<Rightarrow> nat \<Rightarrow> nat \<Rightarrow> 32 word \<Rightarrow> 32 word" where
  "checksum_loop data len i acc =
     (if i + 1 < len
      then checksum_loop data len (i + 2) (add_fold acc (load16 (data ! i) (data ! (i + 1))))
      else acc)"
  by pat_completeness auto
termination
  by (relation "measure (\<lambda>(data, len, i, acc). len - i)") auto

declare checksum_loop.simps [simp del]

text \<open>
  \<^verbatim>\<open>unsigned short checksum(void *vdata, size_t length)\<close>. An odd last byte is the first byte in
  memory of a word that is otherwise zero.
\<close>

definition checksum :: "byte list \<Rightarrow> nat \<Rightarrow> 16 word" where
  "checksum data len =
     (let acc = checksum_loop data len 0 0xffff;
          acc = (if odd len then add_fold acc (load16 (data ! (len - 1)) 0) else acc)
      in htons (ucast (NOT acc)))"

text \<open>The reference: the sum of the big-endian 16-bit words, an odd byte padded with zero.\<close>

fun words_sum :: "byte list \<Rightarrow> nat" where
  "words_sum (a # b # ds) = 256 * unat a + unat b + words_sum ds"
| "words_sum [a] = 256 * unat a"
| "words_sum [] = 0"

text \<open>The representative of \<open>n\<close> modulo 65535 in the range 1 to 65535.\<close>

definition canon :: "nat \<Rightarrow> nat" where
  "canon n = (if n mod 65535 = 0 then 65535 else n mod 65535)"

lemma canon_range: "1 \<le> canon n \<and> canon n \<le> 65535"
  by (auto simp: canon_def)

lemma canon_fold:
  assumes "w \<le> 65535"
  shows "(if canon n + w > 65535 then canon n + w - 65535 else canon n + w) = canon (n + w)"
proof -
  obtain q r where n: "n = 65535 * q + r" "r < 65535"
    by (metis mod_less_divisor mult_div_mod_eq zero_less_numeral)
  have m: "n mod 65535 = r" using n by simp
  have "(n + w) mod 65535 = (r + w) mod 65535"
    using n by (simp add: add.assoc)
  moreover have "(r + w) mod 65535 = (if r + w < 65535 then r + w else if r + w < 131070 then r + w - 65535 else 0)"
    using n(2) assms by (auto simp: mod_if)
  ultimately show ?thesis
    using n(2) assms m by (auto simp: canon_def)
qed

lemma unat_add_fold:
  assumes "unat acc = canon n"
  shows "unat (add_fold acc (load16 a b)) = canon (n + (256 * unat a + unat b))"
proof -
  let ?w = "unat (load16 b a)"
  have w: "?w = 256 * unat a + unat b" by (simp add: unat_load16)
  have wle: "?w \<le> 65535"
    using unsigned_less [of "load16 b a", where 'a = nat] by simp
  have u: "unat (ucast (load16 b a) :: 32 word) = ?w"
    using wle by (simp add: unsigned_ucast_eq take_bit_eq_mod)
  have c: "canon n \<le> 65535" using canon_range by simp
  have s: "unat (acc + ucast (load16 b a)) = canon n + ?w"
    using assms u wle c by (simp add: unat_word_ariths)
  have gt: "acc + ucast (load16 b a) > 0xffff \<longleftrightarrow> canon n + ?w > 65535"
    using s by (simp add: word_less_nat_alt)
  have d: "unat (acc + ucast (load16 b a) - 0xffff) = canon n + ?w - 65535" if "canon n + ?w > 65535"
    using s that by (subst unat_sub) (simp_all add: word_le_nat_alt)
  have "unat (add_fold acc (load16 a b)) = (if canon n + ?w > 65535 then canon n + ?w - 65535 else canon n + ?w)"
    using gt d s by (auto simp: add_fold_def Let_def)
  then show ?thesis
    using canon_fold [OF wle, of n] w by simp
qed

lemma words_sum_append: "even (length xs) \<Longrightarrow> words_sum (xs @ ys) = words_sum xs + words_sum ys"
  by (induction xs rule: words_sum.induct) auto

lemma checksum_loop_sum:
  assumes "even i" "len \<le> length data" "unat acc = canon n"
  shows "unat (checksum_loop data len i acc) = canon (n + words_sum (drop i (take (len - len mod 2) data)))"
  using assms
proof (induction data len i acc arbitrary: n rule: checksum_loop.induct)
  case (1 data len i acc)
  let ?E = "len - len mod 2"
  show ?case
  proof (cases "i + 1 < len")
    case True
    then have E: "i + 1 < ?E"
      using "1.prems"(1) by presburger
    have split: "drop i (take ?E data) = data ! i # data ! (i + 1) # drop (i + 2) (take ?E data)"
      using E "1.prems"(2) by (simp add: Cons_nth_drop_Suc [symmetric])
    from "1.IH" [OF True, of "n + (256 * unat (data ! i) + unat (data ! (i + 1)))"] "1.prems" True
    show ?thesis
      by (simp add: checksum_loop.simps [of data len i acc] split unat_add_fold algebra_simps)
  next
    case False
    then have "?E \<le> i" using "1.prems"(1) by presburger
    then show ?thesis
      using False "1.prems" by (simp add: checksum_loop.simps [of data len i acc])
  qed
qed

lemma unat_not_low16:
  assumes "unat acc \<le> 65535"
  shows "unat (ucast (NOT acc :: 32 word) :: 16 word) = 65535 - unat acc"
proof -
  have "NOT acc = 4294967295 - acc"
    by (simp add: not_eq_complement)
  moreover have "unat (4294967295 - acc) = 4294967295 - unat acc"
    using assms by (subst unat_sub) (simp_all add: word_le_nat_alt)
  moreover have "(4294967295 - unat acc) mod 65536 = 65535 - unat acc"
  proof -
    have "4294967295 - unat acc = (65535 - unat acc) + 65536 * 65535"
      using assms by simp
    then show ?thesis using assms by (simp only: mod_mult_self2) simp
  qed
  ultimately show ?thesis
    by (simp add: unsigned_ucast_eq take_bit_eq_mod)
qed

lemma checksum_value:
  assumes "len \<le> length data"
  shows "unat (ntohs (checksum data len)) = 65535 - canon (words_sum (take len data))"
proof -
  let ?E = "len - len mod 2" and ?acc = "checksum_loop data len 0 0xffff"
  have base: "unat (0xffff :: 32 word) = canon 0" by (simp add: canon_def)
  have E: "unat ?acc = canon (words_sum (take ?E data))"
    using checksum_loop_sum [OF _ assms base, of 0] by simp
  define acc where "acc = (if odd len then add_fold ?acc (load16 (data ! (len - 1)) 0) else ?acc)"
  have "unat acc = canon (words_sum (take len data))"
  proof (cases "odd len")
    case True
    then have e: "?E = len - 1" "even (len - 1)" "len - 1 < length data"
      using assms by (auto simp: odd_iff_mod_2_eq_one)
    have "take len data = take (len - 1) data @ [data ! (len - 1)]"
      using True e(3) by (metis One_nat_def Suc_pred odd_pos take_Suc_conv_app_nth)
    then have "words_sum (take len data) = words_sum (take (len - 1) data) + 256 * unat (data ! (len - 1))"
      using e by (simp add: words_sum_append)
    then show ?thesis
      using True E e(1) unat_add_fold [OF E, of "data ! (len - 1)" 0] by (simp add: acc_def)
  next
    case False
    then show ?thesis using E by (simp add: acc_def)
  qed
  moreover have "checksum data len = htons (ucast (NOT acc))"
    by (simp add: checksum_def acc_def Let_def)
  ultimately show ?thesis
    using canon_range by (simp add: unat_not_low16)
qed

lemma words_sum_poke16:
  assumes "even off" "off + 2 \<le> length h" "h ! off = 0" "h ! (off + 1) = 0"
  shows "words_sum (poke off [a, b] h) = words_sum h + (256 * unat a + unat b)"
proof -
  have h: "h = take off h @ [0, 0] @ drop (off + 2) h"
    using assms by (metis Cons_nth_drop_Suc One_nat_def Suc_le_lessD add_2_eq_Suc' add_Suc_right
        append_Cons append_Nil append_take_drop_id le_SucI less_Suc_eq_le less_add_Suc1 add.right_neutral
        Suc_1 dual_order.strict_trans2 lessI)
  have "even (length (take off h))" using assms by simp
  then have app: "words_sum (take off h @ ys) = words_sum (take off h) + words_sum ys" for ys
    by (rule words_sum_append)
  have "words_sum h = words_sum (take off h) + words_sum (drop (off + 2) h)"
    by (subst (1) h) (simp only: app append.simps words_sum.simps, simp)
  moreover have "words_sum (poke off [a, b] h)
      = words_sum (take off h) + (256 * unat a + unat b + words_sum (drop (off + 2) h))"
    by (simp only: poke_def app append.simps words_sum.simps) simp
  ultimately show ?thesis by simp
qed

text \<open>
  Storing the checksum into the (zero) check field makes the checksum of the whole header zero,
  which is what a receiver tests.
\<close>

lemma checksum_self_verifies:
  assumes "even off" "off + 2 \<le> length h" "h ! off = 0" "h ! (off + 1) = 0"
  shows "checksum (poke off (bytes16 (checksum h (length h))) h) (length h) = 0"
proof -
  let ?c = "ntohs (checksum h (length h))"
  have b: "bytes16 (checksum h (length h)) = [ucast (drop_bit 8 ?c), ucast ?c]"
    by (metis bytes16_htons checksum_def ntohs_htons)
  have v: "256 * unat (ucast (drop_bit 8 ?c) :: byte) + unat (ucast ?c :: byte) = unat ?c"
    by (metis add.commute load16_bytes unat_load16)
  let ?S = "words_sum h" and ?h = "poke off (bytes16 (checksum h (length h))) h"
  have c: "unat ?c = 65535 - canon ?S"
    using checksum_value [of "length h" h] by simp
  have "words_sum ?h = ?S + (65535 - canon ?S)"
    using words_sum_poke16 [OF assms] b v c by simp
  moreover have "(?S + (65535 - canon ?S)) mod 65535 = 0"
  proof (cases "?S mod 65535 = 0")
    case False
    define q r where qr: "q = ?S div 65535" "r = ?S mod 65535"
    have "canon ?S = r" "?S = 65535 * q + r" "r < 65535"
      using False by (simp_all add: canon_def qr)
    then have "?S + (65535 - canon ?S) = 65535 * (q + 1)" by simp
    then show ?thesis by (metis mod_mult_self1_is_0)
  qed (simp add: canon_def)
  ultimately have "canon (words_sum ?h) = 65535" by (simp add: canon_def)
  moreover have "length ?h = length h" using assms(2) by simp
  ultimately have "unat (ntohs (checksum ?h (length h))) = 0"
    using checksum_value [of "length h" ?h] by simp
  then have "ntohs (checksum ?h (length h)) = 0" by (simp add: unat_eq_0)
  then show ?thesis by (metis htons_ntohs htons_zero)
qed

section \<open>Headers\<close>

abbreviation ETH_HLEN :: nat where "ETH_HLEN \<equiv> 14"
abbreviation BUF_SIZE :: nat where "BUF_SIZE \<equiv> 1500"
abbreviation CLIENT_PORT :: "16 word" where "CLIENT_PORT \<equiv> 54321"
abbreviation SERVER_PORT :: "16 word" where "SERVER_PORT \<equiv> 12345"
abbreviation IPPROTO_UDP :: byte where "IPPROTO_UDP \<equiv> 17"
abbreviation ETH_P_IP :: "16 word" where "ETH_P_IP \<equiv> 0x0800"

text \<open>
  The Ethernet header: destination, source, and the type
  \<^verbatim>\<open>eth[12] = ETH_P_IP >> 8; eth[13] = ETH_P_IP & 0xFF;\<close>
\<close>

definition put_eth :: "byte list \<Rightarrow> byte list \<Rightarrow> byte list \<Rightarrow> byte list" where
  "put_eth dst src buf =
     poke 12 [ucast (drop_bit 8 ETH_P_IP), ucast (ETH_P_IP AND 0xFF)] (poke 6 src (poke 0 dst buf))"

text \<open>
  The IPv4 header up to the addresses: \<^verbatim>\<open>memset(ip, 0, 20)\<close>, version 4 and header length 5 (one byte,
  0x45, on a little-endian host), total length, identification, fragment offset, time to live and
  protocol.
\<close>

definition put_ip_fixed :: "16 word \<Rightarrow> 16 word \<Rightarrow> byte \<Rightarrow> byte list \<Rightarrow> byte list" where
  "put_ip_fixed tot_len ident ttl buf =
     (let buf = poke 14 (replicate 20 0) buf;
          buf = poke 14 [0x45] buf;
          buf = poke 16 (bytes16 (htons tot_len)) buf;
          buf = poke 18 (bytes16 (htons ident)) buf;
          buf = poke 20 [0, 0] buf;
          buf = poke 22 [ttl] buf
      in poke 23 [IPPROTO_UDP] buf)"

text \<open>\<^verbatim>\<open>ip->check = checksum(ip, ip->ihl*4)\<close>, over the header as it is in the buffer.\<close>

definition put_ip_check :: "byte list \<Rightarrow> byte list" where
  "put_ip_check buf =
     poke 24 (bytes16 (checksum (drop ETH_HLEN buf) (unat (buf ! 14 AND 0x0F) * 4))) buf"

text \<open>The last two fields of the UDP header: length and a zero checksum.\<close>

definition put_udp_len :: "16 word \<Rightarrow> byte list \<Rightarrow> byte list" where
  "put_udp_len len buf = poke 40 [0, 0] (poke 38 (bytes16 (htons len)) buf)"

text \<open>A 16-bit field of the buffer read through \<^verbatim>\<open>ntohs\<close>.\<close>

definition field16 :: "byte list \<Rightarrow> nat \<Rightarrow> 16 word" where
  "field16 buf i = ntohs (load16 (buf ! i) (buf ! (i + 1)))"

lemma length_put [simp]:
  assumes "42 \<le> length buf"
  shows "length dst = 6 \<Longrightarrow> length src = 6 \<Longrightarrow> length (put_eth dst src buf) = length buf"
    and "length (put_ip_fixed t i l buf) = length buf"
    and "length (put_ip_check buf) = length buf"
    and "length (put_udp_len u buf) = length buf"
  using assms by (simp_all add: put_eth_def put_ip_fixed_def put_ip_check_def put_udp_len_def)

text \<open>What each writer leaves in the buffer, inside and outside its range.\<close>

lemma nth_put_out:
  assumes "42 \<le> length buf" "i < length buf"
  shows "length dst = 6 \<Longrightarrow> length src = 6 \<Longrightarrow> 14 \<le> i \<Longrightarrow> put_eth dst src buf ! i = buf ! i"
    and "i < 14 \<or> 34 \<le> i \<Longrightarrow> put_ip_fixed t d l buf ! i = buf ! i"
    and "i < 24 \<or> 26 \<le> i \<Longrightarrow> put_ip_check buf ! i = buf ! i"
    and "i < 38 \<or> 42 \<le> i \<Longrightarrow> put_udp_len u buf ! i = buf ! i"
  using assms
  by (auto simp: put_eth_def put_ip_fixed_def put_ip_check_def put_udp_len_def Let_def nth_poke_out)

lemma put_eth_addr:
  assumes "42 \<le> length buf" "length dst = 6" "length src = 6" "i < 6"
  shows "put_eth dst src buf ! i = dst ! i" "put_eth dst src buf ! (6 + i) = src ! i"
  using assms by (simp_all add: put_eth_def nth_poke_out nth_poke_in)

lemma put_ip_fixed_nth:
  assumes "42 \<le> length buf"
  shows "put_ip_fixed t d l buf ! 14 = 0x45" "put_ip_fixed t d l buf ! 23 = IPPROTO_UDP"
    "put_ip_fixed t d l buf ! 16 = ucast (drop_bit 8 t)" "put_ip_fixed t d l buf ! 17 = ucast t"
  using assms by (simp_all add: put_ip_fixed_def Let_def nth_poke_out nth_poke_in bytes16_htons)

lemma put_ip_fixed_addr:
  assumes "42 \<le> length buf" "26 \<le> i" "i < 34"
  shows "put_ip_fixed t d l buf ! i = 0"
  using assms by (simp add: put_ip_fixed_def Let_def nth_poke_out nth_poke_in)

lemma put_ip_fixed_check:
  assumes "42 \<le> length buf"
  shows "put_ip_fixed t d l buf ! 24 = 0" "put_ip_fixed t d l buf ! 25 = 0"
  using assms by (simp_all add: put_ip_fixed_def Let_def nth_poke_out nth_poke_in)

lemma field16_bytes:
  "buf ! i = ucast (drop_bit 8 w) \<Longrightarrow> buf ! (i + 1) = ucast w \<Longrightarrow> field16 buf i = w"
  by (simp add: field16_def)

lemma field16_poke16:
  assumes "i + 2 \<le> length buf"
  shows "field16 (poke i (bytes16 (htons w)) buf) i = w"
  using assms by (intro field16_bytes) (simp_all add: nth_poke_in bytes16_htons)

lemma field16_cong: "b ! i = c ! i \<Longrightarrow> b ! (i + 1) = c ! (i + 1) \<Longrightarrow> field16 b i = field16 c i"
  by (simp add: field16_def)

section \<open>Properties\<close>

lemma checksum_take:
  assumes "len \<le> length data"
  shows "checksum (take len data) len = checksum data len"
proof -
  have "unat (ntohs (checksum (take len data) len)) = unat (ntohs (checksum data len))"
    using assms by (simp add: checksum_value)
  then show ?thesis by (metis htons_ntohs word_unat_eq_iff)
qed

lemma peek_poke_inner:
  assumes "a \<le> off" "off + length xs \<le> a + n" "a + n \<le> length b"
  shows "take n (drop a (poke off xs b)) = poke (off - a) xs (take n (drop a b))"
  using assms by (intro nth_equalityI) (auto simp: nth_poke add.commute)

text \<open>
  Claim C4. \<^verbatim>\<open>checksum()\<close> of the echo programs, a loop in 32-bit arithmetic that folds the carry after
  each addition, computes the Internet checksum: in host order it is the ones' complement of the sum of
  the 16-bit big-endian words, reduced modulo 65535 to the range 1 to 65535, an odd last byte being
  padded with zero.
\<close>

theorem checksum_reference:
  assumes "len \<le> length data"
  shows "unat (ntohs (checksum data len)) = 65535 - canon (words_sum (take len data))"
  using assms by (rule checksum_value)

theorem checksum_reference_witness:
  "unat (ntohs (checksum [0x45, 0, 0xFF] 3)) = 48126"
  using checksum_reference [of 3 "[0x45, 0, 0xFF]"] by (simp add: canon_def)

text \<open>
  The IP header that the client and the server finish with
  \<^verbatim>\<open>ip->check = checksum(ip, ip->ihl*4)\<close> passes the receiver's test: with a header of 20 bytes whose
  check field was zeroed before, the checksum over the header with the stored field is zero.
\<close>

theorem put_ip_check_verifies:
  assumes "34 \<le> length b" "b ! 14 = 0x45" "b ! 24 = 0" "b ! 25 = 0"
  shows "checksum (drop ETH_HLEN (put_ip_check b)) 20 = 0"
proof -
  let ?h = "take 20 (drop 14 b)"
  have l: "length ?h = 20" using assms(1) by simp
  have c: "checksum (drop 14 b) 20 = checksum ?h (length ?h)"
    using checksum_take [of 20 "drop 14 b"] assms(1) l by simp
  have p: "put_ip_check b = poke 24 (bytes16 (checksum ?h (length ?h))) b"
    using assms(2) c by (simp add: put_ip_check_def)
  have "take 20 (drop 14 (put_ip_check b)) = poke 10 (bytes16 (checksum ?h (length ?h))) ?h"
    unfolding p using assms(1) by (subst peek_poke_inner) simp_all
  then have "checksum (take 20 (drop 14 (put_ip_check b))) 20 = 0"
    using checksum_self_verifies [of 10 ?h] assms l by (simp add: nth_append)
  then show ?thesis
    using checksum_take [of 20 "drop 14 (put_ip_check b)"] assms(1) by (simp add: p)
qed

theorem put_ip_check_verifies_witness:
  "checksum (drop ETH_HLEN (put_ip_check (put_ip_fixed 33 54321 64 (replicate 42 0)))) 20 = 0"
  by (rule put_ip_check_verifies) (simp_all add: put_ip_fixed_nth put_ip_fixed_check)

end
