(* ===== verification/CText.thy ===== *)
theory CText
  imports CPrelude
begin

text \<open>
  Text conversions of the C library that the programs use on \<open>char\<close> strings: \<^verbatim>\<open>isspace\<close>,
  the \<^verbatim>\<open>%s\<close> and \<^verbatim>\<open>%d\<close> conversions of \<^verbatim>\<open>scanf\<close>, \<^verbatim>\<open>%d\<close> of \<^verbatim>\<open>printf\<close>, \<^verbatim>\<open>fgets\<close>, and \<^verbatim>\<open>strtok\<close> with a
  one-character delimiter set. The main fact is the round trip of \<^verbatim>\<open>%d\<close>: what \<^verbatim>\<open>printf\<close> writes,
  \<^verbatim>\<open>scanf\<close> reads back.
\<close>

section \<open>Decimal digits\<close>

definition digit_val :: "char \<Rightarrow> nat option" where
  "digit_val c = (let k = of_char c :: nat in if 48 \<le> k \<and> k \<le> 57 then Some (k - 48) else None)"

definition digit_char :: "nat \<Rightarrow> char" where
  "digit_char d = char_of (48 + d)"

lemma digit_val_char [simp]: "d < 10 \<Longrightarrow> digit_val (digit_char d) = Some d"
  by (simp add: digit_val_def digit_char_def)

lemma digit_val_less: "digit_val c = Some d \<Longrightarrow> d < 10"
  by (auto simp: digit_val_def Let_def split: if_splits)

fun show_nat :: "nat \<Rightarrow> string" where
  "show_nat n = (if n < 10 then [digit_char n] else show_nat (n div 10) @ [digit_char (n mod 10)])"

declare show_nat.simps [simp del]

text \<open>\<^verbatim>\<open>printf("%d", n)\<close>.\<close>

definition show_int :: "int \<Rightarrow> string" where
  "show_int n = (if n < 0 then CHR ''-'' # show_nat (nat (- n)) else show_nat (nat n))"

text \<open>The digits at the front of a string, read in base ten from an accumulator.\<close>

fun read_digits :: "nat \<Rightarrow> string \<Rightarrow> nat \<times> string" where
  "read_digits acc [] = (acc, [])"
| "read_digits acc (c # cs) =
     (case digit_val c of None \<Rightarrow> (acc, c # cs) | Some d \<Rightarrow> read_digits (10 * acc + d) cs)"

definition starts_digit :: "string \<Rightarrow> bool" where
  "starts_digit s \<longleftrightarrow> (case s of [] \<Rightarrow> False | c # _ \<Rightarrow> digit_val c \<noteq> None)"

lemma read_digits_stop: "\<not> starts_digit s \<Longrightarrow> read_digits acc s = (acc, s)"
  by (cases s) (auto simp: starts_digit_def)

lemma read_digits_show:
  "\<exists>k. \<forall>acc rest. read_digits acc (show_nat n @ rest) = read_digits (acc * 10 ^ k + n) rest"
proof (induction n rule: show_nat.induct)
  case (1 n)
  show ?case
  proof (cases "n < 10")
    case True
    then have "\<forall>acc rest. read_digits acc (show_nat n @ rest) = read_digits (acc * 10 ^ 1 + n) rest"
      by (simp add: show_nat.simps [of n] mult.commute)
    then show ?thesis by blast
  next
    case False
    with "1.IH" obtain k where k: "\<And>acc rest. read_digits acc (show_nat (n div 10) @ rest)
        = read_digits (acc * 10 ^ k + n div 10) rest"
      by auto
    have "read_digits acc (show_nat n @ rest) = read_digits (acc * 10 ^ Suc k + n) rest" for acc rest
    proof -
      have "10 * (acc * 10 ^ k + n div 10) + n mod 10 = acc * 10 ^ Suc k + n"
        by (simp add: algebra_simps)
      moreover have "read_digits acc (show_nat n @ rest)
          = read_digits (10 * (acc * 10 ^ k + n div 10) + n mod 10) rest"
        using False k [of acc "digit_char (n mod 10) # rest"]
        by (simp add: show_nat.simps [of n] del: mult_div_mod_eq)
      ultimately show ?thesis by (simp only:)
    qed
    then show ?thesis by blast
  qed
qed

lemma read_digits_show_nat:
  assumes "\<not> starts_digit rest"
  shows "read_digits 0 (show_nat n @ rest) = (n, rest)"
  using read_digits_show [of n] assms by (auto simp: read_digits_stop)

lemma show_nat_Cons: "\<exists>c cs. show_nat n = c # cs \<and> digit_val c \<noteq> None"
proof (induction n rule: show_nat.induct)
  case (1 n)
  then show ?case by (cases "n < 10") (auto simp: show_nat.simps [of n])
qed

lemma show_nat_digits: "\<forall>c\<in>set (show_nat n). digit_val c \<noteq> None"
proof (induction n rule: show_nat.induct)
  case (1 n)
  then show ?case by (cases "n < 10") (auto simp: show_nat.simps [of n])
qed

lemma length_show_nat: "n < 10 ^ k \<Longrightarrow> 0 < k \<Longrightarrow> length (show_nat n) \<le> k"
proof (induction n arbitrary: k rule: show_nat.induct)
  case (1 n)
  show ?case
  proof (cases "n < 10")
    case True
    then show ?thesis using 1 by (simp add: show_nat.simps [of n])
  next
    case False
    obtain j where k: "k = Suc j" using "1.prems" by (cases k) auto
    moreover have "0 < j" using False "1.prems" k by (cases j) auto
    ultimately have j: "k = Suc j" "0 < j" by auto
    have "length (show_nat (n div 10)) \<le> j"
      using "1.IH" [OF False, of j] "1.prems" j by (simp add: less_mult_imp_div_less mult.commute)
    then show ?thesis using False j by (simp add: show_nat.simps [of n])
  qed
qed

section \<open>Conversions of \<open>scanf\<close>\<close>

text \<open>\<^verbatim>\<open>isspace\<close> in the C locale: space, \<^verbatim>\<open>\t\<close>, \<^verbatim>\<open>\n\<close>, \<^verbatim>\<open>\v\<close>, \<^verbatim>\<open>\f\<close>, \<^verbatim>\<open>\r\<close>.\<close>

definition is_space :: "char \<Rightarrow> bool" where
  "is_space c = (let k = of_char c :: nat in k = 32 \<or> 9 \<le> k \<and> k \<le> 13)"

text \<open>
  \<^verbatim>\<open>%s\<close>: skip white space, then read the longest non-empty run of other characters; \<open>None\<close> is a
  matching failure. The result is the token and the input that is left.
\<close>

definition scan_s :: "string \<Rightarrow> (string \<times> string) option" where
  "scan_s s = (let t = dropWhile is_space s; w = takeWhile (\<lambda>c. \<not> is_space c) t
     in if w = [] then None else Some (w, drop (length w) t))"

text \<open>\<^verbatim>\<open>%d\<close>: skip white space, an optional sign, at least one digit.\<close>

definition scan_d :: "string \<Rightarrow> (int \<times> string) option" where
  "scan_d s = (let t = dropWhile is_space s;
       neg = (t \<noteq> [] \<and> hd t = CHR ''-'');
       u = (if t \<noteq> [] \<and> (hd t = CHR ''-'' \<or> hd t = CHR ''+'') then tl t else t)
     in if starts_digit u
        then (case read_digits 0 u of (n, r) \<Rightarrow> Some (if neg then - int n else int n, r))
        else None)"

lemma scan_d_skip: "is_space c \<Longrightarrow> scan_d (c # s) = scan_d s"
  by (simp add: scan_d_def)

lemma digit_not_space: "digit_val c \<noteq> None \<Longrightarrow> \<not> is_space c"
  by (auto simp: digit_val_def is_space_def Let_def split: if_splits)

lemma digit_not_sign: "digit_val c \<noteq> None \<Longrightarrow> c \<noteq> CHR ''-'' \<and> c \<noteq> CHR ''+''"
  by (auto simp: digit_val_def Let_def split: if_splits)

theorem scan_d_show_int:
  assumes "\<not> starts_digit rest"
  shows "scan_d (show_int n @ rest) = Some (n, rest)"
proof (cases "n < 0")
  case True
  obtain c cs where c: "show_nat (nat (- n)) = c # cs" "digit_val c \<noteq> None"
    using show_nat_Cons by blast
  have sp: "\<not> is_space (CHR ''-'')" by (simp add: is_space_def)
  have "read_digits 0 (c # cs @ rest) = (nat (- n), rest)"
    using read_digits_show_nat [OF assms, of "nat (- n)"] c by simp
  then show ?thesis
    using True c sp by (simp add: scan_d_def show_int_def starts_digit_def)
next
  case False
  obtain c cs where c: "show_nat (nat n) = c # cs" "digit_val c \<noteq> None"
    using show_nat_Cons by blast
  have "read_digits 0 (c # cs @ rest) = (nat n, rest)"
    using read_digits_show_nat [OF assms, of "nat n"] c by simp
  then show ?thesis
    using False c digit_not_space [OF c(2)] digit_not_sign [OF c(2)]
    by (simp add: scan_d_def show_int_def starts_digit_def)
qed

lemma show_int_no_space: "\<forall>c\<in>set (show_int n). \<not> is_space c"
  using show_nat_digits digit_not_space
  by (auto simp: show_int_def is_space_def Let_def)

lemma show_nat_nonzero: "0 \<notin> set (show_nat n)"
  using show_nat_digits [of n] by (auto simp: digit_val_def zero_char_def Let_def split: if_splits)

lemma show_int_nonzero: "0 \<notin> set (show_int n)"
  using show_nat_nonzero by (auto simp: show_int_def zero_char_def)

section \<open>\<open>fgets\<close>\<close>

text \<open>
  The characters \<^verbatim>\<open>fgets(buf, n, f)\<close> stores before the NUL: at most \<open>n - 1\<close>, up to and with the first
  newline. \<open>None\<close> is its null pointer at the end of the input.
\<close>

fun fgets_chars :: "nat \<Rightarrow> string \<Rightarrow> string \<times> string" where
  "fgets_chars 0 s = ([], s)"
| "fgets_chars (Suc k) [] = ([], [])"
| "fgets_chars (Suc k) (c # cs) =
     (if c = CHR 0x0A then ([c], cs) else case fgets_chars k cs of (l, r) \<Rightarrow> (c # l, r))"

definition c_fgets :: "nat \<Rightarrow> string \<Rightarrow> (string \<times> string) option" where
  "c_fgets n s = (if s = [] then None else Some (fgets_chars (n - 1) s))"

lemma fgets_chars_append: "fgets_chars k s = (l, r) \<Longrightarrow> l @ r = s \<and> length l \<le> k"
  by (induction k s arbitrary: l rule: fgets_chars.induct) (fastforce split: if_splits prod.splits)+

lemma c_fgets_shorter:
  assumes "c_fgets n s = Some (l, r)" "2 \<le> n"
  shows "length r < length s" "l @ r = s" "length l < n"
proof -
  obtain k c cs where k: "n - 1 = Suc k" and s: "s = c # cs"
    using assms by (cases s; cases "n - 1") (auto simp: c_fgets_def)
  have f: "fgets_chars (Suc k) (c # cs) = (l, r)" using assms(1) k s by (simp add: c_fgets_def)
  then have "l \<noteq> []" by (auto split: if_splits prod.splits)
  then show "length r < length s" "l @ r = s" "length l < n"
    using fgets_chars_append [OF f] s k assms(2) by (auto simp: Suc_le_eq neq_Nil_conv)
qed

lemma fgets_chars_line:
  "length l < k \<Longrightarrow> CHR 0x0A \<notin> set l \<Longrightarrow> fgets_chars k (l @ CHR 0x0A # r) = (l @ [CHR 0x0A], r)"
proof (induction l arbitrary: k)
  case Nil
  then show ?case by (cases k) auto
next
  case (Cons c l)
  then show ?case by (cases k) auto
qed

text \<open>
  The line in the buffer after \<^verbatim>\<open>fgets(input, sizeof(input), stdin)\<close> and
  \<^verbatim>\<open>input[strcspn(input, "\n")] = 0\<close>.
\<close>

definition chomp :: "string \<Rightarrow> string" where
  "chomp l = takeWhile (\<lambda>c. c \<noteq> CHR 0x0A) (cstr l)"

text \<open>A typed text, line by line.\<close>

definition unlines :: "string list \<Rightarrow> string" where
  "unlines ls = concat (map (\<lambda>l. l @ [CHR 0x0A]) ls)"

lemma chomp_line: "CHR 0x0A \<notin> set l \<Longrightarrow> 0 \<notin> set l \<Longrightarrow> chomp (l @ [CHR 0x0A]) = l"
  by (auto simp: chomp_def cstr_def zero_char_def takeWhile_append)

lemma c_fgets_unlines:
  assumes "length l < n - 1" "CHR 0x0A \<notin> set l"
  shows "c_fgets n (unlines (l # ls)) = Some (l @ [CHR 0x0A], unlines ls)"
  using fgets_chars_line [OF assms] by (simp add: c_fgets_def unlines_def)

section \<open>\<open>strtok\<close>\<close>

text \<open>
  The tokens that \<^verbatim>\<open>strtok(s, d)\<close> followed by \<^verbatim>\<open>strtok(NULL, d)\<close> yields for a single delimiter
  character: the maximal non-empty runs without the delimiter.
\<close>

function strtok_all :: "char \<Rightarrow> string \<Rightarrow> string list" where
  "strtok_all d s =
     (let t = dropWhile (\<lambda>c. c = d) s
      in if t = [] then []
         else takeWhile (\<lambda>c. c \<noteq> d) t # strtok_all d (dropWhile (\<lambda>c. c \<noteq> d) t))"
  by pat_completeness auto
termination
proof (relation "measure (\<lambda>(d, s). length s)", goal_cases)
  case (2 d s t)
  then have "t = hd t # tl t" and "hd t \<noteq> d"
    using hd_dropWhile [of "\<lambda>c. c = d" s] by auto
  then have "dropWhile (\<lambda>c. c \<noteq> d) t = dropWhile (\<lambda>c. c \<noteq> d) (tl t)"
    by (metis (mono_tags, lifting) dropWhile.simps(2))
  then have "length (dropWhile (\<lambda>c. c \<noteq> d) t) \<le> length (tl t)"
    using length_dropWhile_le [of "\<lambda>c. c \<noteq> d" "tl t"] by simp
  also have "\<dots> < length t" using 2 by (cases t) auto
  also have "length t \<le> length s" using 2 by (simp add: length_dropWhile_le)
  finally show ?case by simp
qed simp

declare strtok_all.simps [simp del]

lemma strtok_all_Nil: "dropWhile (\<lambda>c. c = d) s = [] \<Longrightarrow> strtok_all d s = []"
  by (subst strtok_all.simps) (simp only: Let_def simp_thms if_True)

lemma strtok_all_Cons:
  assumes "dropWhile (\<lambda>c. c = d) s = t" and "t \<noteq> []"
  shows "strtok_all d s = takeWhile (\<lambda>c. c \<noteq> d) t # strtok_all d (dropWhile (\<lambda>c. c \<noteq> d) t)"
  using assms by (subst strtok_all.simps) (simp only: Let_def if_False)

lemma strtok_all_sound:
  "w \<in> set (strtok_all d s) \<Longrightarrow> w \<noteq> [] \<and> d \<notin> set w \<and> set w \<subseteq> set s"
proof (induction d s rule: strtok_all.induct)
  case (1 d s)
  let ?t = "dropWhile (\<lambda>c. c = d) s"
  show ?case
  proof (cases "?t = []")
    case True
    with "1.prems" show ?thesis by (simp only: strtok_all_Nil) simp
  next
    case False
    have ts: "set ?t \<subseteq> set s" by (auto dest: set_dropWhileD)
    have h: "hd ?t \<noteq> d" using hd_dropWhile [of "\<lambda>c. c = d" s] False by simp
    from "1.prems" False consider "w = takeWhile (\<lambda>c. c \<noteq> d) ?t"
      | "w \<in> set (strtok_all d (dropWhile (\<lambda>c. c \<noteq> d) ?t))"
      by (simp only: strtok_all_Cons [OF refl False]) auto
    then show ?thesis
    proof cases
      case 1
      then show ?thesis
        using h False ts by (cases ?t) (auto dest: set_takeWhileD)
    next
      case 2
      with "1.IH" [OF refl False] show ?thesis
        using ts by (auto dest: set_dropWhileD)
    qed
  qed
qed

lemma strtok_all_concat: "concat (strtok_all d s) = filter (\<lambda>c. c \<noteq> d) s"
proof (induction d s rule: strtok_all.induct)
  case (1 d s)
  let ?t = "dropWhile (\<lambda>c. c = d) s"
  have f: "filter (\<lambda>c. c \<noteq> d) s = filter (\<lambda>c. c \<noteq> d) ?t"
    by (induction s) auto
  show ?case
  proof (cases "?t = []")
    case True
    then show ?thesis using f by (simp only: strtok_all_Nil) simp
  next
    case False
    have "filter (\<lambda>c. c \<noteq> d) ?t = filter (\<lambda>c. c \<noteq> d) (takeWhile (\<lambda>c. c \<noteq> d) ?t)
        @ filter (\<lambda>c. c \<noteq> d) (dropWhile (\<lambda>c. c \<noteq> d) ?t)"
      by (metis filter_append takeWhile_dropWhile_id)
    also have "filter (\<lambda>c. c \<noteq> d) (takeWhile (\<lambda>c. c \<noteq> d) ?t) = takeWhile (\<lambda>c. c \<noteq> d) ?t"
      by (auto simp: filter_id_conv dest: set_takeWhileD)
    finally show ?thesis
      using "1.IH" [OF refl False] f by (simp only: strtok_all_Cons [OF refl False]) simp
  qed
qed

end
