(* ===== verification/EchoServer.thy ===== *)
theory EchoServer
  imports Packet CText
begin

unbundle bit_operations_syntax

text \<open>
  The echo server and client of \<^verbatim>\<open>final_hw_1\<close>: the table of clients with its lookup and insertion, the
  server's handling of one received frame (parsing, the counter of the client, the reply built in
  place in the receive buffer), the frame the client sends and the client's filter for the frames it
  receives. The buffer is explicit, so that the header fields the server reads after it has
  overwritten them are read as they are at that moment.
\<close>

section \<open>The table of clients\<close>

record client_rec =
  cl_ip :: "byte list"
  cl_port :: "16 word"
  cl_counter :: int

record echo_state =
  clients :: "client_rec list"
  client_count :: nat
  server_mac :: "byte list"
  buffer :: "byte list"
  sll_addr :: "byte list"

definition find_client :: "echo_state \<Rightarrow> byte list \<Rightarrow> 16 word \<Rightarrow> int" where
  "find_client st ip port =
     c_index (first_index (\<lambda>c. cl_ip c = ip \<and> cl_port c = port) (take (client_count st) (clients st)))"

definition add_client :: "echo_state \<Rightarrow> byte list \<Rightarrow> 16 word \<Rightarrow> echo_state" where
  "add_client st ip port =
     (if client_count st \<ge> 100 then st
      else st\<lparr>clients := (clients st)[client_count st := \<lparr>cl_ip = ip, cl_port = port, cl_counter = 0\<rparr>],
              client_count := client_count st + 1\<rparr>)"

text \<open>The entry the server works on: lines 144 to 149.\<close>

definition client_slot :: "echo_state \<Rightarrow> byte list \<Rightarrow> 16 word \<Rightarrow> echo_state \<times> nat" where
  "client_slot st ip port =
     (let client_idx = find_client st ip port
      in if client_idx = -1
         then (let st' = add_client st ip port in (st', client_count st' - 1))
         else (st, nat client_idx))"

definition set_counter :: "echo_state \<Rightarrow> nat \<Rightarrow> int \<Rightarrow> echo_state" where
  "set_counter st i n = st\<lparr>clients := (clients st)[i := (clients st ! i)\<lparr>cl_counter := n\<rparr>]\<rparr>"

section \<open>The server loop body\<close>

datatype echo_event =
    New_client "byte list" "16 word"
  | Disconnected "byte list" "16 word"
  | Sendto "byte list" "byte list"
  | Replied "byte list" int

definition bytes_of :: "string \<Rightarrow> byte list" where
  "bytes_of s = map of_char s"

text \<open>
  \<^verbatim>\<open>snprintf(reply, sizeof(reply), "%s %d", data, counter)\<close>: at most 1499 characters are kept.
\<close>

definition reply_text :: "byte list \<Rightarrow> int \<Rightarrow> byte list" where
  "reply_text data counter = take (BUF_SIZE - 1) (cstr data @ [32] @ bytes_of (show_int counter))"

text \<open>
  The reply is written over the received frame: \<^verbatim>\<open>client_mac\<close> points at \<^verbatim>\<open>buffer + 6\<close>, and \<^verbatim>\<open>ip\<close>, \<^verbatim>\<open>udp\<close> at
  the received headers. So \<^verbatim>\<open>reply_ip->saddr = ip->daddr\<close>, \<^verbatim>\<open>reply_ip->daddr = ip->saddr\<close> and
  \<^verbatim>\<open>reply_udp->dest = udp->source\<close> read the buffer as \<^verbatim>\<open>memset\<close> and the earlier stores left it.
\<close>

definition reply_ip :: "nat \<Rightarrow> byte list \<Rightarrow> byte list" where
  "reply_ip reply_len buf =
     (let buf = put_ip_fixed (of_nat (20 + 8 + reply_len)) 12345 64 buf;
          buf = poke 26 (peek 30 4 buf) buf;
          buf = poke 30 (peek 26 4 buf) buf
      in put_ip_check buf)"

definition reply_udp :: "nat \<Rightarrow> nat \<Rightarrow> byte list \<Rightarrow> byte list" where
  "reply_udp ip_len reply_len buf =
     (let buf = poke 34 (bytes16 (htons SERVER_PORT)) buf;
          buf = poke 36 (peek (14 + ip_len) 2 buf) buf
      in put_udp_len (of_nat (8 + reply_len)) buf)"

text \<open>The whole frame; \<open>None\<close> when \<^verbatim>\<open>strcpy(reply_data, reply)\<close> runs past the end of the buffer.\<close>

definition build_reply :: "byte list \<Rightarrow> nat \<Rightarrow> byte list \<Rightarrow> byte list \<Rightarrow> byte list option" where
  "build_reply smac ip_len reply buf =
     (let buf = put_eth (peek 6 6 buf) smac buf;
          buf = reply_ip (length reply) buf;
          buf = reply_udp ip_len (length reply) buf
      in store 42 (reply @ [0]) buf)"

text \<open>
  Lines 121 to 142 after \<^verbatim>\<open>recvfrom\<close> stored \<open>bytes\<close> bytes: the filters, the client's address and port,
  the header length, and the buffer with the NUL stored behind the data. \<open>Some None\<close> is \<^verbatim>\<open>continue\<close>;
  \<open>None\<close> is the store of that NUL outside the buffer.
\<close>

definition server_parse ::
  "byte list \<Rightarrow> nat \<Rightarrow> (byte list \<times> 16 word \<times> nat \<times> byte list) option option" where
  "server_parse buf bytes =
     (if bytes < ETH_HLEN + 20 then Some None
      else if buf ! 23 \<noteq> IPPROTO_UDP then Some None
      else
        (let ip_len = unat (buf ! 14 AND 0x0F) * 4
         in if field16 buf (14 + ip_len + 2) \<noteq> SERVER_PORT \<or> field16 buf (14 + ip_len) \<noteq> CLIENT_PORT
            then Some None
            else
              (let client_ip = peek 26 4 buf;
                   client_port = field16 buf (14 + ip_len);
                   data_len = int bytes - 14 - int ip_len - 8
               in if data_len \<le> 0 \<or> data_len \<ge> int BUF_SIZE then Some None
                  else (case store (14 + ip_len + 8 + nat data_len) [0] buf of
                          None \<Rightarrow> None
                        | Some buf \<Rightarrow> Some (Some (client_ip, client_port, ip_len, buf))))))"

text \<open>
  Lines 144 to 199, with \<open>buffer st\<close> as the parse left it and \<open>sent\<close> the result of \<^verbatim>\<open>sendto\<close>: the client's
  entry, \<^verbatim>\<open>CLOSE\<close>, or the counter and the reply. \<^verbatim>\<open>memcpy(addr.sll_addr, client_mac, 6)\<close> copies
  \<^verbatim>\<open>buffer + 6\<close> as the reply left it. \<open>None\<close> is undefined behaviour: a store outside \<^verbatim>\<open>buffer\<close> or the
  overflow of the counter.
\<close>

definition server_handle ::
  "echo_state \<Rightarrow> byte list \<Rightarrow> 16 word \<Rightarrow> nat \<Rightarrow> int \<Rightarrow> (echo_state \<times> echo_event list) option" where
  "server_handle st client_ip client_port ip_len sent =
     (let data = cstr (drop (14 + ip_len + 8) (buffer st));
          new_ev = (if find_client st client_ip client_port \<noteq> -1 \<or> client_count st \<ge> 100 then []
                    else [New_client client_ip client_port]);
          (st, idx) = client_slot st client_ip client_port
      in if data = bytes_of ''CLOSE''
         then Some (set_counter st idx 0, new_ev @ [Disconnected client_ip client_port])
         else if cl_counter (clients st ! idx) \<ge> INT_MAX then None
         else
           (let counter = cl_counter (clients st ! idx) + 1;
                st = set_counter st idx counter;
                reply = reply_text data counter
            in case build_reply (server_mac st) ip_len reply (buffer st) of
                 None \<Rightarrow> None
               | Some buf \<Rightarrow>
                 (let sll = peek 6 6 buf;
                      packet_len = ETH_HLEN + unat (field16 buf 16)
                  in Some (st\<lparr>buffer := buf, sll_addr := sll\<rparr>,
                           new_ev @ [Sendto sll (take packet_len buf)]
                             @ (if sent > 0 then [Replied reply counter] else [])))))"

text \<open>
  One iteration of \<^verbatim>\<open>while (1)\<close>: \<open>recvd\<close> is what \<^verbatim>\<open>recvfrom\<close> stored, \<open>None\<close> for its \<^verbatim>\<open>-1\<close>.
\<close>

definition server_step ::
  "echo_state \<Rightarrow> byte list option \<Rightarrow> int \<Rightarrow> (echo_state \<times> echo_event list) option" where
  "server_step st recvd sent =
     (case recvd of
        None \<Rightarrow> Some (st, [])
      | Some frame \<Rightarrow>
        (let buf = poke 0 frame (buffer st)
         in case server_parse buf (length frame) of
              None \<Rightarrow> None
            | Some None \<Rightarrow> Some (st\<lparr>buffer := buf\<rparr>, [])
            | Some (Some (client_ip, client_port, ip_len, buf)) \<Rightarrow>
              server_handle (st\<lparr>buffer := buf\<rparr>) client_ip client_port ip_len sent))"

section \<open>The client\<close>

text \<open>
  Lines 94 to 126 of the client: the frame with its payload, \<open>saddr\<close> and \<open>daddr\<close> being the four bytes
  that \<^verbatim>\<open>inet_addr\<close> gives for the two addresses. \<open>None\<close> when \<^verbatim>\<open>memcpy(data, input, msg_len)\<close> or
  \<^verbatim>\<open>data[msg_len] = 0\<close> leaves the buffer.
\<close>

definition client_ip :: "byte list \<Rightarrow> byte list \<Rightarrow> nat \<Rightarrow> byte list \<Rightarrow> byte list" where
  "client_ip saddr daddr msg_len buf =
     (let buf = put_ip_fixed (of_nat (20 + 8 + msg_len)) 54321 64 buf;
          buf = poke 26 saddr buf;
          buf = poke 30 daddr buf
      in put_ip_check buf)"

definition client_udp :: "nat \<Rightarrow> byte list \<Rightarrow> byte list" where
  "client_udp msg_len buf =
     (let buf = poke 34 (bytes16 (htons CLIENT_PORT)) buf;
          buf = poke 36 (bytes16 (htons SERVER_PORT)) buf
      in put_udp_len (of_nat (8 + msg_len)) buf)"

definition client_frame ::
  "byte list \<Rightarrow> byte list \<Rightarrow> byte list \<Rightarrow> byte list \<Rightarrow> byte list \<Rightarrow> byte list \<Rightarrow> (byte list \<times> byte list) option" where
  "client_frame smac cmac saddr daddr input buf =
     (let msg_len = length input;
          buf = put_eth smac cmac buf;
          buf = client_ip saddr daddr msg_len buf;
          buf = client_udp msg_len buf
      in case store 42 input buf of None \<Rightarrow> None
         | Some buf \<Rightarrow>
           (case store (42 + msg_len) [0] buf of None \<Rightarrow> None
            | Some buf \<Rightarrow> Some (take (ETH_HLEN + unat (field16 buf 16)) buf, buf)))"

text \<open>
  Lines 141 to 160: what the client prints for a received frame (\<open>None\<close> for a frame it skips), and the
  buffer afterwards. The whole result is \<open>None\<close> for a store outside the buffer.
\<close>

definition client_receive :: "byte list \<Rightarrow> byte list option \<Rightarrow> (byte list option \<times> byte list) option" where
  "client_receive buf recvd =
     (case recvd of None \<Rightarrow> Some (None, buf)
      | Some frame \<Rightarrow>
        (let bytes = length frame; buf = poke 0 frame buf
         in if bytes < ETH_HLEN + 20 then Some (None, buf)
            else if buf ! 23 \<noteq> IPPROTO_UDP then Some (None, buf)
            else
              (let ip_len = unat (buf ! 14 AND 0x0F) * 4
               in if field16 buf (14 + ip_len) \<noteq> SERVER_PORT
                     \<or> field16 buf (14 + ip_len + 2) \<noteq> CLIENT_PORT then Some (None, buf)
                  else
                    (let data_len = int bytes - 14 - int ip_len - 8
                     in if data_len > 0
                        then (case store (14 + ip_len + 8 + nat data_len) [0] buf of None \<Rightarrow> None
                              | Some buf \<Rightarrow> Some (Some (cstr (drop (14 + ip_len + 8) buf)), buf))
                        else Some (None, buf)))))"

section \<open>Properties of the table\<close>

definition key :: "client_rec \<Rightarrow> byte list \<times> 16 word" where
  "key c = (cl_ip c, cl_port c)"

definition table :: "echo_state \<Rightarrow> client_rec list" where
  "table st = take (client_count st) (clients st)"

text \<open>
  The invariant of the server: the array has its 100 slots, at most 100 are in use, no two entries
  in use have the same address and port, counters are not negative, and the buffers have their sizes.
\<close>

definition echo_inv :: "echo_state \<Rightarrow> bool" where
  "echo_inv st \<longleftrightarrow> length (clients st) = 100 \<and> client_count st \<le> 100
     \<and> distinct (map key (table st)) \<and> (\<forall>c\<in>set (table st). 0 \<le> cl_counter c)
     \<and> length (buffer st) = BUF_SIZE \<and> length (server_mac st) = 6"

lemma find_client_None:
  "find_client st ip port = -1 \<longleftrightarrow> (ip, port) \<notin> key ` set (table st)"
  by (auto simp: find_client_def table_def first_index_None_iff key_def)

lemma find_client_Some:
  assumes "find_client st ip port \<noteq> -1" "client_count st \<le> length (clients st)"
  shows "nat (find_client st ip port) < client_count st"
    and "key (clients st ! nat (find_client st ip port)) = (ip, port)"
proof -
  let ?p = "\<lambda>c. cl_ip c = ip \<and> cl_port c = port"
  obtain i where i: "first_index ?p (take (client_count st) (clients st)) = Some i"
    using assms(1) by (auto simp: find_client_def)
  have f: "find_client st ip port = int i" using i by (simp add: find_client_def)
  from first_index_SomeD [OF i] assms(2)
  show "nat (find_client st ip port) < client_count st"
    "key (clients st ! nat (find_client st ip port)) = (ip, port)"
    by (simp_all add: f key_def)
qed

lemma table_add_client:
  assumes "length (clients st) = 100" "client_count st < 100"
  shows "table (add_client st ip port) = table st @ [\<lparr>cl_ip = ip, cl_port = port, cl_counter = 0\<rparr>]"
  using assms by (simp add: table_def add_client_def take_Suc_conv_app_nth)

lemma table_set_counter:
  assumes "i < client_count st" "client_count st \<le> length (clients st)"
  shows "table (set_counter st i n) = (table st)[i := (table st ! i)\<lparr>cl_counter := n\<rparr>]"
  using assms by (simp add: table_def set_counter_def take_update_swap)

lemma set_counter_simps [simp]:
  "client_count (set_counter st i n) = client_count st"
  "length (clients (set_counter st i n)) = length (clients st)"
  "buffer (set_counter st i n) = buffer st"
  "server_mac (set_counter st i n) = server_mac st"
  by (simp_all add: set_counter_def)

text \<open>The slot the server uses, when the client is known or the table has room.\<close>

lemma client_slot_known:
  assumes "echo_inv st" "(ip, port) \<in> key ` set (table st)"
  shows "client_slot st ip port = (st, nat (find_client st ip port))"
  using assms by (simp add: client_slot_def find_client_None Let_def)

lemma client_slot_new:
  assumes "echo_inv st" "(ip, port) \<notin> key ` set (table st)"
  shows "client_slot st ip port = (add_client st ip port, client_count (add_client st ip port) - 1)"
  using assms by (simp add: client_slot_def find_client_None Let_def)

lemma client_slot_inv:
  assumes inv: "echo_inv st" and slot: "client_slot st ip port = (st', i)"
  shows "echo_inv st'" "i < client_count st'" "buffer st' = buffer st" "server_mac st' = server_mac st"
    "client_count st < 100 \<or> (ip, port) \<in> key ` set (table st) \<Longrightarrow> key (clients st' ! i) = (ip, port)"
proof -
  note E = inv [unfolded echo_inv_def]
  have "echo_inv st' \<and> i < client_count st' \<and> buffer st' = buffer st \<and> server_mac st' = server_mac st \<and>
    (client_count st < 100 \<or> (ip, port) \<in> key ` set (table st) \<longrightarrow> key (clients st' ! i) = (ip, port))"
  proof (cases "(ip, port) \<in> key ` set (table st)")
    case True
    then have "st' = st" "i = nat (find_client st ip port)"
      using client_slot_known [OF inv True] slot by auto
    moreover have "find_client st ip port \<noteq> -1" using True by (simp add: find_client_None)
    ultimately show ?thesis using inv E find_client_Some [of st ip port] by simp
  next
    case False
    then have s: "st' = add_client st ip port" "i = client_count st' - 1"
      using client_slot_new [OF inv False] slot by auto
    show ?thesis
    proof (cases "client_count st < 100")
      case room: True
      have t: "table st' = table st @ [\<lparr>cl_ip = ip, cl_port = port, cl_counter = 0\<rparr>]"
        using s(1) table_add_client E room by simp
      have "key (clients st' ! i) = (ip, port)"
        using s room E by (simp add: add_client_def key_def)
      moreover have "(ip, port) \<notin> set (map key (table st))"
        using False by simp
      ultimately show ?thesis
        using E s room t by (auto simp: echo_inv_def add_client_def key_def)
    next
      case False
      then show ?thesis using inv E s \<open>(ip, port) \<notin> key ` set (table st)\<close> by (simp add: add_client_def)
    qed
  qed
  then show "echo_inv st'" "i < client_count st'" "buffer st' = buffer st" "server_mac st' = server_mac st"
    "client_count st < 100 \<or> (ip, port) \<in> key ` set (table st) \<Longrightarrow> key (clients st' ! i) = (ip, port)"
    by auto
qed

lemma set_counter_inv:
  assumes "echo_inv st" "i < client_count st" "0 \<le> n"
  shows "echo_inv (set_counter st i n)"
proof -
  have t: "table (set_counter st i n) = (table st)[i := (table st ! i)\<lparr>cl_counter := n\<rparr>]"
    using assms by (intro table_set_counter) (auto simp: echo_inv_def)
  have "map key (table (set_counter st i n)) = map key (table st)"
    by (simp add: t map_update key_def) (metis key_def list_update_id map_update)
  moreover have "\<forall>c\<in>set (table (set_counter st i n)). 0 \<le> cl_counter c"
    using assms by (auto simp: t echo_inv_def dest!: set_update_subset_insert [THEN subsetD])
  ultimately show ?thesis using assms(1) by (simp add: echo_inv_def)
qed

section \<open>The reply frame\<close>

lemma nth_eq_peek:
  assumes "length xs = n" "i + n \<le> length b" "\<And>j. j < n \<Longrightarrow> b ! (i + j) = xs ! j"
  shows "peek i n b = xs"
  by (rule nth_equalityI) (use assms in \<open>auto simp: length_peek nth_peek\<close>)

lemma reply_ip_nth:
  assumes "42 \<le> length buf"
  shows "length (reply_ip n buf) = length buf"
    "reply_ip n buf ! 14 = 0x45" "reply_ip n buf ! 23 = IPPROTO_UDP"
    "field16 (reply_ip n buf) 16 = of_nat (28 + n)"
    "i < length buf \<Longrightarrow> i < 14 \<or> 34 \<le> i \<Longrightarrow> reply_ip n buf ! i = buf ! i"
    "26 \<le> i \<Longrightarrow> i < 34 \<Longrightarrow> reply_ip n buf ! i = 0"
proof -
  define b4 where "b4 = put_ip_fixed (of_nat (20 + 8 + n)) 12345 64 buf"
  define b5 where "b5 = poke 26 (peek 30 4 b4) b4"
  define b6 where "b6 = poke 30 (peek 26 4 b5) b5"
  have b: "reply_ip n buf = put_ip_check b6"
    by (simp add: reply_ip_def Let_def b6_def b5_def b4_def)
  have l4: "length b4 = length buf" using assms by (simp add: b4_def)
  have l5: "length b5 = length buf" using l4 assms by (simp add: b5_def length_peek)
  have l6: "length b6 = length buf" using l5 assms by (simp add: b6_def length_peek)
  have b6_b4: "b6 ! i = b4 ! i" if "i < 26 \<or> 34 \<le> i" "i < length buf" for i
    using l5 l4 assms that by (auto simp: b6_def b5_def nth_poke_out length_peek)
  show "length (reply_ip n buf) = length buf" using l6 assms by (simp add: b)
  have eq: "reply_ip n buf ! i = b4 ! i" if "i < 24 \<or> 34 \<le> i" "i < length buf" for i
    using that assms l6 by (auto simp: b nth_put_out b6_b4)
  show "reply_ip n buf ! 14 = 0x45" "reply_ip n buf ! 23 = IPPROTO_UDP"
    using assms by (simp_all add: eq b4_def put_ip_fixed_nth)
  show "field16 (reply_ip n buf) 16 = of_nat (28 + n)"
    using assms by (intro field16_bytes) (simp_all add: eq b4_def put_ip_fixed_nth)
  show "reply_ip n buf ! i = buf ! i" if "i < length buf" "i < 14 \<or> 34 \<le> i"
    using that assms by (auto simp: eq b4_def nth_put_out)
  have z4: "b4 ! i = 0" if "26 \<le> i" "i < 34" for i
    using that assms by (simp add: b4_def put_ip_fixed_addr)
  have z5: "b5 ! i = 0" if "26 \<le> i" "i < 34" for i
    using that l4 assms by (cases "i < 30") (simp_all add: b5_def nth_poke_in nth_poke_out length_peek nth_peek z4)
  show "reply_ip n buf ! i = 0" if "26 \<le> i" "i < 34"
    using that l5 l6 assms
    by (cases "i < 30") (simp_all add: b nth_put_out b6_def nth_poke_in nth_poke_out length_peek nth_peek z5)
qed

lemma reply_udp_nth:
  assumes "42 \<le> length buf"
  shows "length (reply_udp 20 n buf) = length buf"
    "i < 34 \<or> 42 \<le> i \<Longrightarrow> i < length buf \<Longrightarrow> reply_udp 20 n buf ! i = buf ! i"
    "field16 (reply_udp 20 n buf) 34 = SERVER_PORT" "field16 (reply_udp 20 n buf) 36 = SERVER_PORT"
proof -
  define b8 where "b8 = poke 34 (bytes16 (htons SERVER_PORT)) buf"
  define b9 where "b9 = poke 36 (peek 34 2 b8) b8"
  have b: "reply_udp 20 n buf = put_udp_len (of_nat (8 + n)) b9"
    by (simp add: reply_udp_def Let_def b8_def b9_def)
  have l8: "length b8 = length buf" using assms by (simp add: b8_def)
  have l9: "length b9 = length buf" using l8 assms by (simp add: b9_def length_peek)
  show "length (reply_udp 20 n buf) = length buf" using l9 assms by (simp add: b)
  show "reply_udp 20 n buf ! i = buf ! i" if "i < 34 \<or> 42 \<le> i" "i < length buf"
    using that assms l8 l9 by (auto simp: b nth_put_out b9_def b8_def nth_poke_out length_peek)
  have f: "field16 b8 34 = SERVER_PORT" using assms by (simp add: b8_def field16_poke16)
  show "field16 (reply_udp 20 n buf) 34 = SERVER_PORT"
    using f assms l8 l9 by (simp add: field16_def b nth_put_out b9_def nth_poke_out length_peek)
  show "field16 (reply_udp 20 n buf) 36 = SERVER_PORT"
    using f assms l8 l9
    by (simp add: field16_def b nth_put_out b9_def nth_poke_in length_peek nth_peek)
qed

lemma length_reply_udp:
  "42 \<le> length buf \<Longrightarrow> 14 + l + 2 \<le> length buf \<Longrightarrow> length (reply_udp l n buf) = length buf"
  by (simp add: reply_udp_def Let_def length_peek)

text \<open>
  The header fields of a reply to a frame whose IP header has no options. The two addresses are zero
  and both ports are the server's, because the fields of the request were overwritten before they
  were copied.
\<close>

lemma build_reply_fields:
  assumes r: "build_reply smac 20 r buf = Some b" "length buf = BUF_SIZE" "length smac = 6"
  shows "length b = BUF_SIZE" "length r \<le> 1457"
    "b ! 14 = 0x45" "b ! 23 = IPPROTO_UDP" "field16 b 34 = SERVER_PORT" "field16 b 36 = SERVER_PORT"
    "field16 b 16 = of_nat (28 + length r)" "peek 6 6 b = smac" "peek 0 6 b = peek 6 6 buf"
    "peek 26 8 b = replicate 8 0" "peek 42 (length r) b = r"
proof -
  define b1 where "b1 = put_eth (peek 6 6 buf) smac buf"
  define b2 where "b2 = reply_ip (length r) b1"
  define b3 where "b3 = reply_udp 20 (length r) b2"
  have l1: "length b1 = BUF_SIZE" using r by (simp add: b1_def length_peek)
  have l2: "length b2 = BUF_SIZE" using l1 by (simp add: b2_def reply_ip_nth)
  have l3: "length b3 = BUF_SIZE" using l2 by (simp add: b3_def reply_udp_nth)
  have b: "b = poke 42 (r @ [0]) b3" and lr: "length r \<le> 1457"
    using r(1) l3 by (auto simp: build_reply_def store_def Let_def b1_def b2_def b3_def split: if_splits)
  have lb: "length b = BUF_SIZE" using b lr l3 by simp
  then show "length b = BUF_SIZE" "length r \<le> 1457" using lr by simp_all
  have b3: "b ! i = b3 ! i" if "i < 42" for i using b lr l3 that by (simp add: nth_poke_out)
  have b2: "b ! i = b2 ! i" if "i < 34" for i using that l2 by (simp add: b3 b3_def reply_udp_nth)
  have b1: "b ! i = b1 ! i" if "i < 14" for i using that l1 by (simp add: b2 b2_def reply_ip_nth)
  show "b ! 14 = 0x45" "b ! 23 = IPPROTO_UDP" using l1 by (simp_all add: b2 b2_def reply_ip_nth)
  have "field16 b 34 = field16 b3 34" "field16 b 36 = field16 b3 36"
    by (simp_all add: field16_def b3)
  moreover have "field16 b 16 = field16 b2 16"
    by (simp add: field16_def b2)
  ultimately show "field16 b 34 = SERVER_PORT" "field16 b 36 = SERVER_PORT" "field16 b 16 = of_nat (28 + length r)"
    using l1 l2 by (simp_all add: b3_def b2_def reply_udp_nth reply_ip_nth)
  show "peek 6 6 b = smac"
    using r(2,3) lb by (intro nth_eq_peek) (simp_all add: b1 b1_def put_eth_addr length_peek)
  show "peek 0 6 b = peek 6 6 buf"
    using r(2,3) lb by (intro nth_eq_peek) (simp_all add: b1 b1_def put_eth_addr length_peek)
  show "peek 26 8 b = replicate 8 0"
    using lb l1 by (intro nth_eq_peek) (simp_all add: b2 b2_def reply_ip_nth)
  show "peek 42 (length r) b = r"
    using l3 lb b lr by (intro nth_eq_peek) (simp_all add: nth_poke_in nth_append)
qed

lemma build_reply_length:
  assumes "build_reply smac l r buf = Some b" "length buf = BUF_SIZE" "length smac = 6" "l \<le> 60"
  shows "length b = BUF_SIZE"
  using assms
  by (auto simp: build_reply_def store_def Let_def reply_ip_nth length_reply_udp length_peek split: if_splits)

section \<open>The table as a map of counters\<close>

definition counters :: "echo_state \<Rightarrow> (byte list \<times> 16 word) \<rightharpoonup> int" where
  "counters st = map_of (map (\<lambda>c. (key c, cl_counter c)) (table st))"

text \<open>A client the server can serve under its own entry: it is known, or the table has room.\<close>

definition has_slot :: "echo_state \<Rightarrow> byte list \<times> 16 word \<Rightarrow> bool" where
  "has_slot st k \<longleftrightarrow> client_count st < 100 \<or> k \<in> key ` set (table st)"

definition count_of :: "('k \<rightharpoonup> int) \<Rightarrow> 'k \<Rightarrow> int" where
  "count_of m k = (case m k of None \<Rightarrow> 0 | Some n \<Rightarrow> n)"

text \<open>
  The interface the server's loop relies on: \<open>slot\<close> finds or creates the entry of a key, \<open>getc\<close> and
  \<open>setc\<close> read and write the counter of an entry, and \<open>abs\<close> is the map of counters they implement.
\<close>

locale counter_table =
  fixes slot :: "'s \<Rightarrow> 'k \<Rightarrow> 's \<times> nat" and getc :: "'s \<Rightarrow> nat \<Rightarrow> int"
    and setc :: "'s \<Rightarrow> nat \<Rightarrow> int \<Rightarrow> 's" and abs :: "'s \<Rightarrow> 'k \<rightharpoonup> int"
    and inv :: "'s \<Rightarrow> bool" and room :: "'s \<Rightarrow> 'k \<Rightarrow> bool"
  assumes slot_get: "inv s \<Longrightarrow> room s k \<Longrightarrow> slot s k = (s', i) \<Longrightarrow> getc s' i = count_of (abs s) k"
    and slot_set: "inv s \<Longrightarrow> room s k \<Longrightarrow> slot s k = (s', i) \<Longrightarrow> 0 \<le> n \<Longrightarrow>
      inv (setc s' i n) \<and> abs (setc s' i n) = (abs s)(k \<mapsto> n)"
    and count_nonneg: "inv s \<Longrightarrow> 0 \<le> count_of (abs s) k"
begin

lemma bump:
  assumes "inv s" "room s k" "slot s k = (s', i)"
  shows "inv (setc s' i (getc s' i + 1))"
    and "abs (setc s' i (getc s' i + 1)) = (abs s)(k \<mapsto> count_of (abs s) k + 1)"
  using slot_set [OF assms, of "count_of (abs s) k + 1"] slot_get [OF assms] count_nonneg [OF assms(1), of k]
  by auto

lemma reset:
  assumes "inv s" "room s k" "slot s k = (s', i)"
  shows "inv (setc s' i 0)" and "abs (setc s' i 0) = (abs s)(k \<mapsto> 0)"
  using slot_set [OF assms, of 0] by auto

end

lemma counters_set_counter:
  assumes "echo_inv st" "i < client_count st"
  shows "counters (set_counter st i n) = (counters st)(key (clients st ! i) \<mapsto> n)"
proof -
  let ?f = "\<lambda>c. (key c, cl_counter c)"
  let ?xs = "map ?f (table st)"
  have len: "i < length (table st)" and nth: "table st ! i = clients st ! i"
    using assms by (auto simp: table_def echo_inv_def)
  have "map ?f (table (set_counter st i n)) = ?xs[i := (key (table st ! i), n)]"
    using assms by (subst table_set_counter) (auto simp: echo_inv_def map_update key_def)
  moreover have "fst (?xs ! i) = key (table st ! i)" using len by simp
  moreover have "distinct (map fst ?xs)"
    using assms(1) by (simp add: echo_inv_def comp_def)
  ultimately show ?thesis
    using map_of_update_nth [of ?xs i n] len nth by (simp add: counters_def)
qed

lemma counters_known:
  assumes "echo_inv st" "i < client_count st"
  shows "counters st (key (clients st ! i)) = Some (cl_counter (clients st ! i))"
proof -
  have len: "i < length (table st)" and nth: "table st ! i = clients st ! i"
    using assms by (auto simp: table_def echo_inv_def)
  have "(key (clients st ! i), cl_counter (clients st ! i)) \<in> set (map (\<lambda>c. (key c, cl_counter c)) (table st))"
    using len nth nth_mem [OF len] by force
  then show ?thesis
    using assms(1) by (simp add: counters_def echo_inv_def comp_def)
qed

lemma counters_add_client:
  assumes "echo_inv st" "client_count st < 100" "(ip, port) \<notin> key ` set (table st)"
  shows "counters (add_client st ip port) = (counters st)((ip, port) \<mapsto> 0)"
proof -
  have "table (add_client st ip port) = table st @ [\<lparr>cl_ip = ip, cl_port = port, cl_counter = 0\<rparr>]"
    using assms by (intro table_add_client) (auto simp: echo_inv_def)
  moreover have "(ip, port) \<notin> fst ` set (map (\<lambda>c. (key c, cl_counter c)) (table st))"
    using assms(3) by (auto simp: image_iff)
  ultimately show ?thesis
    by (simp add: counters_def map_of_snoc [simplified] key_def)
qed

lemma counters_slot:
  assumes "echo_inv st" "has_slot st (ip, port)" "client_slot st ip port = (st', i)"
  shows "counters st' = (counters st)((ip, port) \<mapsto> count_of (counters st) (ip, port))"
proof (cases "(ip, port) \<in> key ` set (table st)")
  case True
  then have s: "st' = st" using client_slot_known [OF assms(1) True] assms(3) by simp
  moreover have "i < client_count st'" "key (clients st' ! i) = (ip, port)"
    using client_slot_inv [OF assms(1,3)] True by auto
  ultimately have "counters st (ip, port) = Some (cl_counter (clients st ! i))"
    using counters_known [OF assms(1), of i] by simp
  then show ?thesis using s by (simp add: count_of_def fun_eq_iff)
next
  case False
  then have "st' = add_client st ip port" using client_slot_new [OF assms(1) False] assms(3) by simp
  moreover have "counters st (ip, port) = None"
    using False by (auto simp: counters_def map_of_eq_None_iff image_iff)
  ultimately show ?thesis
    using counters_add_client [OF assms(1) _ False] assms(2) False by (simp add: has_slot_def count_of_def)
qed

interpretation et: counter_table "\<lambda>st (ip, port). client_slot st ip port"
  "\<lambda>st i. cl_counter (clients st ! i)" set_counter counters echo_inv has_slot
proof (unfold_locales, goal_cases)
  case (1 s k s' i)
  obtain ip port where k: "k = (ip, port)" by fastforce
  note c = client_slot_inv [of s ip port s' i] counters_slot [of s ip port s' i]
  have "echo_inv s'" "i < client_count s'" "key (clients s' ! i) = k"
    using 1 c by (auto simp: k has_slot_def)
  then have "counters s' k = Some (cl_counter (clients s' ! i))"
    using counters_known by metis
  moreover have "counters s' k = Some (count_of (counters s) k)"
    using 1 c by (simp add: k)
  ultimately show ?case by simp
next
  case (2 s k s' i n)
  obtain ip port where k: "k = (ip, port)" by fastforce
  note c = client_slot_inv [of s ip port s' i] counters_slot [of s ip port s' i]
  have "echo_inv s'" "i < client_count s'" "key (clients s' ! i) = k"
    using 2 c by (auto simp: k has_slot_def)
  moreover have "counters s' = (counters s)(k \<mapsto> count_of (counters s) k)"
    using 2 c by (simp add: k)
  ultimately show ?case
    using set_counter_inv 2(4) counters_set_counter by simp
next
  case (3 s k)
  have "0 \<le> n" if "counters s k = Some n" for n
    using map_of_SomeD [OF that [unfolded counters_def]] 3 by (auto simp: echo_inv_def)
  then show ?case by (auto simp: count_of_def split: option.splits)
qed

section \<open>The invariant of the loop\<close>

lemma ip_len_le: "unat (b AND 0x0F :: byte) * 4 \<le> 60"
proof -
  have "unat (b AND 0x0F) \<le> unat (0x0F :: byte)"
    by (rule word_and_le1 [THEN word_le_nat_alt [THEN iffD1]])
  then show ?thesis by simp
qed

lemma server_parse_Some:
  assumes "server_parse buf n = Some (Some (ip, port, l, b))" "length buf = BUF_SIZE"
  shows "l \<le> 60" "length b = BUF_SIZE" "ip = peek 26 4 buf" "port = CLIENT_PORT"
    "b = poke n [0] buf" "n < BUF_SIZE" "14 + l + 8 < n"
proof -
  define L where "L = unat (buf ! 14 AND 0x0F) * 4"
  have L: "L \<le> 60" unfolding L_def by (rule ip_len_le)
  note p = assms(1) [unfolded server_parse_def, folded L_def]
  have n: "22 + L + nat (int n - int L - 22) = n" if "\<not> int n - int L \<le> 22"
    using that by linarith
  show "l \<le> 60" "length b = BUF_SIZE" "ip = peek 26 4 buf" "port = CLIENT_PORT"
    "b = poke n [0] buf" "n < BUF_SIZE" "14 + l + 8 < n"
    using p assms(2) L n by (auto simp: store_def Let_def split: if_splits)
qed

lemma server_handle_inv:
  assumes inv: "echo_inv st" and l: "l \<le> 60" and h: "server_handle st ip port l sent = Some (st', ev)"
  shows "echo_inv st'"
proof -
  obtain s i where si: "client_slot st ip port = (s, i)" by fastforce
  note c = client_slot_inv [OF inv si]
  have nn: "0 \<le> cl_counter (clients s ! i)"
    using c(1,2) by (force simp: echo_inv_def table_def in_set_conv_nth)
  have upd: "echo_inv (set_counter s i n)" if "0 \<le> n" for n
    using set_counter_inv [OF c(1,2) that] .
  show ?thesis
  proof (cases "cstr (drop (14 + l + 8) (buffer st)) = bytes_of ''CLOSE''")
    case True
    then show ?thesis using h upd [of 0] by (auto simp: server_handle_def si)
  next
    case False
    let ?c = "cl_counter (clients s ! i) + 1"
    let ?r = "reply_text (cstr (drop (14 + l + 8) (buffer st))) ?c"
    from h False obtain b where b: "build_reply (server_mac s) l ?r (buffer s) = Some b"
      and st': "st' = (set_counter s i ?c)\<lparr>buffer := b, sll_addr := peek 6 6 b\<rparr>"
      by (auto simp: server_handle_def si Let_def split: if_splits option.splits)
    have "length b = BUF_SIZE"
      using build_reply_length [OF b] c(1) l by (simp add: echo_inv_def)
    then show ?thesis
      using upd [of ?c] nn st' by (simp add: echo_inv_def table_def)
  qed
qed

text \<open>
  The loop of the echo server keeps its invariant: whatever frame of at most 1500 bytes
  arrives (or none), and whatever \<^verbatim>\<open>sendto\<close> returns, an iteration that does not run into undefined
  behaviour leaves a table of at most 100 entries with pairwise different clients, non-negative
  counters, and buffers of the declared sizes.
\<close>

theorem server_step_inv:
  assumes "echo_inv st" "\<forall>f. recvd = Some f \<longrightarrow> length f \<le> BUF_SIZE"
    and "server_step st recvd sent = Some (st', ev)"
  shows "echo_inv st'"
proof (cases recvd)
  case None
  then show ?thesis using assms by (simp add: server_step_def)
next
  case (Some f)
  let ?buf = "poke 0 f (buffer st)"
  have lb: "length ?buf = BUF_SIZE" using assms Some by (simp add: echo_inv_def)
  have inv_b: "echo_inv (st\<lparr>buffer := b\<rparr>)" if "length b = BUF_SIZE" for b
    using assms(1) that by (simp add: echo_inv_def table_def)
  show ?thesis
  proof (cases "server_parse ?buf (length f)")
    case (Some r)
    show ?thesis
    proof (cases r)
      case None
      then show ?thesis
        using assms(3) \<open>recvd = Some f\<close> Some inv_b [OF lb] by (simp add: server_step_def)
    next
      case (Some q)
      obtain ip port l b where q: "q = (ip, port, l, b)" by (cases q)
      have p: "server_parse ?buf (length f) = Some (Some (ip, port, l, b))"
        using \<open>server_parse ?buf (length f) = Some r\<close> Some q by simp
      note f = server_parse_Some [OF p lb]
      have "server_handle (st\<lparr>buffer := b\<rparr>) ip port l sent = Some (st', ev)"
        using assms(3) \<open>recvd = Some f\<close> p by (simp add: server_step_def)
      then show ?thesis by (rule server_handle_inv [OF inv_b [OF f(2)] f(1)])
    qed
  qed (use assms \<open>recvd = Some f\<close> in \<open>simp add: server_step_def\<close>)
qed

section \<open>The client's frame at the server\<close>

lemma client_ip_nth:
  assumes "42 \<le> length buf" "length sa = 4" "length da = 4"
  shows "length (client_ip sa da n buf) = length buf"
    "client_ip sa da n buf ! 14 = 0x45" "client_ip sa da n buf ! 23 = IPPROTO_UDP"
    "field16 (client_ip sa da n buf) 16 = of_nat (28 + n)"
    "j < 4 \<Longrightarrow> client_ip sa da n buf ! (26 + j) = sa ! j"
  using assms
  by (auto simp: client_ip_def Let_def nth_put_out nth_poke_out nth_poke_in put_ip_fixed_nth
      intro!: field16_bytes)

lemma client_udp_nth:
  assumes "42 \<le> length buf"
  shows "length (client_udp n buf) = length buf"
    "i < 34 \<Longrightarrow> client_udp n buf ! i = buf ! i"
    "field16 (client_udp n buf) 34 = CLIENT_PORT" "field16 (client_udp n buf) 36 = SERVER_PORT"
  using assms
  by (auto simp: client_udp_def Let_def nth_put_out nth_poke_out nth_poke_in bytes16_htons
      intro!: field16_bytes)

lemma client_frame_fields:
  assumes "client_frame smac cmac sa da msg buf = Some (f, b)" "length buf = BUF_SIZE"
    "length smac = 6" "length cmac = 6" "length sa = 4" "length da = 4"
  shows "length msg \<le> 1457" "length f = 42 + length msg" "f ! 14 = 0x45" "f ! 23 = IPPROTO_UDP"
    "field16 f 34 = CLIENT_PORT" "field16 f 36 = SERVER_PORT" "peek 26 4 f = sa" "drop 42 f = msg"
proof -
  define b1 where "b1 = put_eth smac cmac buf"
  define b2 where "b2 = client_ip sa da (length msg) b1"
  define b3 where "b3 = client_udp (length msg) b2"
  have l1: "length b1 = BUF_SIZE" using assms by (simp add: b1_def)
  have l2: "length b2 = BUF_SIZE" using l1 assms by (simp add: b2_def client_ip_nth)
  have l3: "length b3 = BUF_SIZE" using l2 by (simp add: b3_def client_udp_nth)
  let ?f = "\<lambda>b. take (14 + unat (field16 b 16)) b"
  have m: "length msg \<le> 1457" and b: "b = poke (42 + length msg) [0] (poke 42 msg b3)" and f: "f = ?f b"
    using assms(1) l3
    by (auto simp: client_frame_def store_def Let_def b1_def b2_def b3_def split: if_splits option.splits)
  then show "length msg \<le> 1457" by simp
  have lb: "length b = BUF_SIZE" using b m l3 by simp
  have b3: "b ! i = b3 ! i" if "i < 42" for i using b m l3 that by (simp add: nth_poke_out)
  have b2: "b ! i = b2 ! i" if "i < 34" for i using that l2 by (simp add: b3 b3_def client_udp_nth)
  have "field16 b 16 = of_nat (28 + length msg)"
    using l1 assms by (simp add: field16_cong [of b 16 b2] b2 b2_def client_ip_nth)
  then have u: "unat (field16 b 16) = 28 + length msg" using m by (simp only: unat_of_nat) simp
  then show lf: "length f = 42 + length msg" using f lb m by simp
  have fb: "f ! i = b ! i" if "i < 42" for i using f u that by simp
  show "f ! 14 = 0x45" "f ! 23 = IPPROTO_UDP"
    using l1 assms by (simp_all add: fb b2 b2_def client_ip_nth)
  have "field16 f 34 = field16 b3 34" "field16 f 36 = field16 b3 36"
    by (simp_all add: field16_def fb b3)
  then show "field16 f 34 = CLIENT_PORT" "field16 f 36 = SERVER_PORT"
    using l2 by (simp_all add: b3_def client_udp_nth)
  show "peek 26 4 f = sa"
    using l1 lf assms by (intro nth_eq_peek) (simp_all add: fb b2 b2_def client_ip_nth)
  show "drop 42 f = msg"
    using f u b m l3 by (simp add: poke_def)
qed

text \<open>The server's parse of such a frame: the client's address, no options, and the message.\<close>

lemma server_parse_client_frame:
  assumes cf: "client_frame smac cmac sa da msg cbuf = Some (f, b)" "length cbuf = BUF_SIZE"
    "length smac = 6" "length cmac = 6" "length sa = 4" "length da = 4"
    and msg: "msg \<noteq> []" "0 \<notin> set msg" and buf: "length buf = BUF_SIZE"
  obtains b' where "server_parse (poke 0 f buf) (length f) = Some (Some (sa, CLIENT_PORT, 20, b'))"
    "cstr (drop 42 b') = msg" "length b' = BUF_SIZE"
proof -
  note F = client_frame_fields [OF cf]
  let ?p = "poke 0 f buf"
  have nth: "?p ! i = f ! i" if "i < 42" for i
    using that F(1,2) buf by (simp add: nth_poke_in)
  have h: "?p ! 23 = IPPROTO_UDP" "unat (?p ! 14 AND 0x0F) * 4 = 20"
    by (simp_all add: nth F)
  have p: "field16 ?p 36 = SERVER_PORT" "field16 ?p 34 = CLIENT_PORT"
    using F(5,6) by (simp_all add: field16_def nth)
  have a: "peek 26 4 ?p = sa"
    using F by (simp add: poke_def peek_def)
  have d: "0 < length msg" using msg(1) by simp
  let ?b = "poke (42 + length msg) [0] ?p"
  have "server_parse ?p (length f) = Some (Some (sa, CLIENT_PORT, 20, ?b))"
    using F(1,2) h p a d buf by (simp add: server_parse_def store_def Let_def)
  moreover have "drop 42 ?b = msg @ 0 # drop (43 + length msg) ?p"
    using F(1,2,8) buf by (simp add: poke_def)
  then have "cstr (drop 42 ?b) = msg" using msg(2) by (simp add: cstr_append_zero)
  moreover have "length ?b = BUF_SIZE" using F(1,2) buf by simp
  ultimately show thesis using that by blast
qed

section \<open>What the server does with a client's message\<close>

lemma server_step_client_frame:
  assumes "client_frame smac cmac sa da msg cbuf = Some (f, b)" "length cbuf = BUF_SIZE"
    "length smac = 6" "length cmac = 6" "length sa = 4" "length da = 4"
    and "msg \<noteq> []" "0 \<notin> set msg" "echo_inv st"
  obtains b' where "server_step st (Some f) sent = server_handle (st\<lparr>buffer := b'\<rparr>) sa CLIENT_PORT 20 sent"
    "cstr (drop 42 b') = msg" "length b' = BUF_SIZE" "echo_inv (st\<lparr>buffer := b'\<rparr>)"
proof -
  have "length (buffer st) = BUF_SIZE" using assms(9) by (simp add: echo_inv_def)
  from server_parse_client_frame [OF assms(1-8) this] obtain b' where
    b': "server_parse (poke 0 f (buffer st)) (length f) = Some (Some (sa, CLIENT_PORT, 20, b'))"
    "cstr (drop 42 b') = msg" "length b' = BUF_SIZE" .
  moreover have "echo_inv (st\<lparr>buffer := b'\<rparr>)"
    using assms(9) b'(3) by (simp add: echo_inv_def table_def)
  ultimately show thesis using that by (simp add: server_step_def)
qed

lemma counters_buffer [simp]:
  "counters (st\<lparr>buffer := b\<rparr>) = counters st" "counters (st\<lparr>buffer := b, sll_addr := a\<rparr>) = counters st"
  "has_slot (st\<lparr>buffer := b\<rparr>) k = has_slot st k"
  by (simp_all add: counters_def table_def has_slot_def)

lemma length_reply_text:
  assumes "0 \<le> n" "n \<le> INT_MAX"
  shows "length (reply_text m n) \<le> strlen m + 11"
proof -
  have "length (show_nat (nat n)) \<le> 10"
    using assms by (intro length_show_nat) (auto simp: INT_MAX_def)
  then show ?thesis using assms by (simp add: reply_text_def bytes_of_def show_int_def)
qed

lemma build_reply_defined:
  assumes "length buf = BUF_SIZE" "length smac = 6" "length r \<le> 1457"
  shows "\<exists>b. build_reply smac 20 r buf = Some b"
  using assms
  by (simp add: build_reply_def store_def Let_def reply_ip_nth reply_udp_nth length_peek)

lemma server_handle_reply:
  assumes inv: "echo_inv st" and slot: "has_slot st (sa, port)"
    and data: "cstr (drop 42 (buffer st)) = msg" "msg \<noteq> bytes_of ''CLOSE''" "length msg \<le> 1446"
    and count: "count_of (counters st) (sa, port) < INT_MAX"
  shows "\<exists>st' b ev. server_handle st sa port 20 sent = Some (st', ev)
    \<and> build_reply (server_mac st) 20 (reply_text msg (count_of (counters st) (sa, port) + 1)) (buffer st) = Some b
    \<and> counters st' = (counters st)((sa, port) \<mapsto> count_of (counters st) (sa, port) + 1)
    \<and> sll_addr st' = peek 6 6 b \<and> Sendto (peek 6 6 b) (take (14 + unat (field16 b 16)) b) \<in> set ev
    \<and> (\<forall>d fr. Sendto d fr \<in> set ev \<longrightarrow> fr = take (14 + unat (field16 b 16)) b)"
proof -
  obtain s i where si: "client_slot st sa port = (s, i)" by fastforce
  then have si': "(\<lambda>st (ip, port). client_slot st ip port) st (sa, port) = (s, i)" by simp
  let ?n = "count_of (counters st) (sa, port)"
  have g: "cl_counter (clients s ! i) = ?n" by (rule et.slot_get [OF inv slot si'])
  have nn: "0 \<le> ?n" by (rule et.count_nonneg [OF inv])
  note c = client_slot_inv [OF inv si]
  let ?r = "reply_text msg (?n + 1)"
  have "strlen msg = length msg" using data(1) by (metis cstr_cstr)
  then have lr: "length ?r \<le> 1457"
    using length_reply_text [of "?n + 1" msg] nn count data(3) by simp
  obtain b where b: "build_reply (server_mac st) 20 ?r (buffer st) = Some b"
    using build_reply_defined [OF _ _ lr, of "buffer st" "server_mac st"] inv by (auto simp: echo_inv_def)
  let ?st' = "(set_counter s i (?n + 1))\<lparr>buffer := b, sll_addr := peek 6 6 b\<rparr>"
  have "\<exists>ev. server_handle st sa port 20 sent = Some (?st', ev)
     \<and> Sendto (peek 6 6 b) (take (14 + unat (field16 b 16)) b) \<in> set ev
     \<and> (\<forall>d fr. Sendto d fr \<in> set ev \<longrightarrow> fr = take (14 + unat (field16 b 16)) b)"
    using data(1,2) count b g c by (auto simp: server_handle_def si Let_def)
  moreover have "counters ?st' = (counters st)((sa, port) \<mapsto> ?n + 1)"
    using et.bump(2) [OF inv slot si'] g by simp
  moreover have "sll_addr ?st' = peek 6 6 b" by simp
  ultimately show ?thesis using b by blast
qed

lemma server_counts_frame:
  assumes "client_frame smac cmac sa da msg cbuf = Some (f, b)" "length cbuf = BUF_SIZE"
    "length smac = 6" "length cmac = 6" "length sa = 4" "length da = 4"
    and "msg \<noteq> []" "0 \<notin> set msg" "msg \<noteq> bytes_of ''CLOSE''" "length msg \<le> 1446"
    and "echo_inv st" "has_slot st (sa, CLIENT_PORT)" "count_of (counters st) (sa, CLIENT_PORT) < INT_MAX"
  shows "\<exists>st' ev d fr. server_step st (Some f) sent = Some (st', ev) \<and> Sendto d fr \<in> set ev
    \<and> counters st' = (counters st)((sa, CLIENT_PORT) \<mapsto> count_of (counters st) (sa, CLIENT_PORT) + 1)
    \<and> drop 42 fr = msg @ [32] @ bytes_of (show_int (count_of (counters st) (sa, CLIENT_PORT) + 1))"
proof -
  let ?n = "count_of (counters st) (sa, CLIENT_PORT)"
  from server_step_client_frame [OF assms(1-8,11), of sent] obtain b' where b':
    "server_step st (Some f) sent = server_handle (st\<lparr>buffer := b'\<rparr>) sa CLIENT_PORT 20 sent"
    "cstr (drop 42 b') = msg" "length b' = BUF_SIZE" "echo_inv (st\<lparr>buffer := b'\<rparr>)" .
  let ?st = "st\<lparr>buffer := b'\<rparr>"
  have pre: "has_slot ?st (sa, CLIENT_PORT)" "cstr (drop 42 (buffer ?st)) = msg"
    "count_of (counters ?st) (sa, CLIENT_PORT) < INT_MAX" using assms(12,13) b' by simp_all
  from server_handle_reply [OF b'(4) pre(1,2) assms(9,10) pre(3), of sent] obtain st' rb ev where r:
    "server_handle ?st sa CLIENT_PORT 20 sent = Some (st', ev)"
    "build_reply (server_mac st) 20 (reply_text msg (?n + 1)) b' = Some rb"
    "counters st' = (counters st)((sa, CLIENT_PORT) \<mapsto> ?n + 1)"
    "Sendto (peek 6 6 rb) (take (14 + unat (field16 rb 16)) rb) \<in> set ev"
    by auto
  let ?r = "reply_text msg (?n + 1)"
  note F = build_reply_fields [OF r(2) b'(3)]
  have smac: "length (server_mac st) = 6" using assms(11) by (simp add: echo_inv_def)
  have lr: "length ?r \<le> 1457" by (rule F(2) [OF smac])
  have "unat (field16 rb 16) = 28 + length ?r"
    using lr unfolding F(7) [OF smac] by (simp only: unat_of_nat) simp
  then have "drop 42 (take (14 + unat (field16 rb 16)) rb) = ?r"
    using F(11) [OF smac] by (simp add: drop_take peek_def)
  moreover have "?r = msg @ [32] @ bytes_of (show_int (?n + 1))"
  proof -
    have "strlen msg = length msg" "cstr msg = msg" using assms(8) by (simp_all add: cstr_id)
    moreover have "0 \<le> ?n" by (rule et.count_nonneg [OF assms(11)])
    then have "length (show_nat (nat (?n + 1))) \<le> 10"
      using assms(13) by (intro length_show_nat) (auto simp: INT_MAX_def)
    ultimately show ?thesis
      using assms(10) \<open>0 \<le> ?n\<close> by (simp add: reply_text_def bytes_of_def show_int_def)
  qed
  ultimately show ?thesis using r b'(1) by auto
qed


text \<open>
  Claim C3. A message reaches the server and is counted: for every frame the client builds from a
  non-empty message of at most 1446 bytes other than \<^verbatim>\<open>CLOSE\<close>, the server returns from the iteration,
  the counter of this client's address and port (0 for a new one) goes up by one and no other counter
  changes, and the payload of the frame it sends is the message, a space and the new counter.
\<close>

theorem echo_counts_and_replies:
  assumes "client_frame smac cmac sa da msg cbuf = Some (f, b)" "length cbuf = BUF_SIZE"
    "length smac = 6" "length cmac = 6" "length sa = 4" "length da = 4"
    and "msg \<noteq> []" "0 \<notin> set msg" "msg \<noteq> bytes_of ''CLOSE''" "length msg \<le> 1446"
    and "echo_inv st" "has_slot st (sa, CLIENT_PORT)" "count_of (counters st) (sa, CLIENT_PORT) < INT_MAX"
  shows "\<exists>st' ev d fr. server_step st (Some f) sent = Some (st', ev) \<and> Sendto d fr \<in> set ev
    \<and> counters st' = (counters st)((sa, CLIENT_PORT) \<mapsto> count_of (counters st) (sa, CLIENT_PORT) + 1)
    \<and> drop 42 fr = msg @ [32] @ bytes_of (show_int (count_of (counters st) (sa, CLIENT_PORT) + 1))"
  by (rule server_counts_frame [OF assms])
lemma reply_skipped_facts:
  assumes "client_frame smac cmac sa da msg cbuf = Some (f, b)" "length cbuf = BUF_SIZE"
    "length smac = 6" "length cmac = 6" "length sa = 4" "length da = 4"
    and "msg \<noteq> []" "0 \<notin> set msg" "msg \<noteq> bytes_of ''CLOSE''" "length msg \<le> 1446"
    and "echo_inv st" "has_slot st (sa, CLIENT_PORT)" "count_of (counters st) (sa, CLIENT_PORT) < INT_MAX"
    and "server_step st (Some f) sent = Some (st', ev)" "Sendto d fr \<in> set ev" "length cbuf' = BUF_SIZE"
  shows "peek 26 8 fr = replicate 8 0" "sll_addr st' = server_mac st" "field16 fr 36 = SERVER_PORT"
    "client_receive cbuf' (Some fr) = Some (None, poke 0 fr cbuf')"
proof -
  let ?n = "count_of (counters st) (sa, CLIENT_PORT)"
  from server_step_client_frame [OF assms(1-8,11), of sent] obtain b' where b':
    "server_step st (Some f) sent = server_handle (st\<lparr>buffer := b'\<rparr>) sa CLIENT_PORT 20 sent"
    "cstr (drop 42 b') = msg" "length b' = BUF_SIZE" "echo_inv (st\<lparr>buffer := b'\<rparr>)" .
  let ?st = "st\<lparr>buffer := b'\<rparr>"
  have pre: "has_slot ?st (sa, CLIENT_PORT)" "cstr (drop 42 (buffer ?st)) = msg"
    "count_of (counters ?st) (sa, CLIENT_PORT) < INT_MAX" using assms(12,13) b' by simp_all
  from server_handle_reply [OF b'(4) pre(1,2) assms(9,10) pre(3), of sent] obtain st2 rb ev2 where r:
    "server_handle ?st sa CLIENT_PORT 20 sent = Some (st2, ev2)"
    "build_reply (server_mac st) 20 (reply_text msg (?n + 1)) b' = Some rb"
    "\<forall>d fr. Sendto d fr \<in> set ev2 \<longrightarrow> fr = take (14 + unat (field16 rb 16)) rb" "sll_addr st2 = peek 6 6 rb"
    by auto
  have ev: "st2 = st'" "ev2 = ev" using r(1) b'(1) assms(14) by auto
  let ?r = "reply_text msg (?n + 1)"
  have smac: "length (server_mac st) = 6" using assms(11) by (simp add: echo_inv_def)
  note F = build_reply_fields [OF r(2) b'(3) smac]
  have u: "unat (field16 rb 16) = 28 + length ?r"
    using F(2) unfolding F(7) by (simp only: unat_of_nat) simp
  have fr: "fr = take (42 + length ?r) rb" using r(3) assms(15) ev u by simp
  have lfr: "length fr = 42 + length ?r" using fr F(1,2) by simp
  have nth: "fr ! i = rb ! i" if "i < 42" for i using fr that by simp
  have "peek 26 8 fr = peek 26 8 rb" by (simp add: fr peek_def drop_take)
  then show "peek 26 8 fr = replicate 8 0" using F(10) by simp
  show f36: "field16 fr 36 = SERVER_PORT" using F(6) by (simp add: field16_def nth)
  show "sll_addr st' = server_mac st"
    using r(4) ev F(8) by simp
  let ?p = "poke 0 fr cbuf'"
  have pn: "?p ! i = rb ! i" if "i < 42" for i
    using that lfr F(2) assms(16) nth by (simp add: nth_poke_in)
  have "field16 ?p 36 = SERVER_PORT" "?p ! 14 = 0x45" using F by (simp_all add: field16_def pn)
  then show "client_receive cbuf' (Some fr) = Some (None, poke 0 fr cbuf')"
    by (simp add: client_receive_def Let_def)
qed

text \<open>
  The reply never reaches the client's user: for the same frames, every frame the server
  sends carries zero IP addresses and the server's own MAC address as link-layer destination, its UDP
  destination port is 12345 instead of the client's 54321, and the client, which prints only frames
  to port 54321, skips it.
\<close>

theorem echo_reply_is_skipped:
  assumes "client_frame smac cmac sa da msg cbuf = Some (f, b)" "length cbuf = BUF_SIZE"
    "length smac = 6" "length cmac = 6" "length sa = 4" "length da = 4"
    and "msg \<noteq> []" "0 \<notin> set msg" "msg \<noteq> bytes_of ''CLOSE''" "length msg \<le> 1446"
    and "echo_inv st" "has_slot st (sa, CLIENT_PORT)" "count_of (counters st) (sa, CLIENT_PORT) < INT_MAX"
    and "server_step st (Some f) sent = Some (st', ev)" "Sendto d fr \<in> set ev" "length cbuf' = BUF_SIZE"
  shows "peek 26 8 fr = replicate 8 0 \<and> sll_addr st' = server_mac st \<and> field16 fr 36 = SERVER_PORT
    \<and> client_receive cbuf' (Some fr) = Some (None, poke 0 fr cbuf')"
  using reply_skipped_facts [OF assms] by simp

text \<open>
  The client writes outside its 1500-byte buffer exactly for messages of 1458 bytes and
  more, although \<^verbatim>\<open>fgets\<close> accepts lines of up to 1499.
\<close>

theorem client_frame_overflow:
  assumes "length buf = BUF_SIZE" "length smac = 6" "length cmac = 6" "length sa = 4" "length da = 4"
  shows "client_frame smac cmac sa da msg buf = None \<longleftrightarrow> 1458 \<le> length msg"
  using assms by (auto simp: client_frame_def store_def Let_def client_ip_nth client_udp_nth)

text \<open>
  When the table is full and an unknown client writes, the server counts the message on the
  last entry, which belongs to another client: its counter goes up and it is that counter the stranger
  is sent.
\<close>

theorem full_table_counts_on_last:
  assumes "echo_inv st" "client_count st = 100" "(ip, port) \<notin> key ` set (table st)"
    and "server_handle st ip port 20 sent = Some (st', ev)"
    and "cstr (drop 42 (buffer st)) \<noteq> bytes_of ''CLOSE''"
  shows "key (clients st ! 99) \<noteq> (ip, port)
    \<and> counters st' = (counters st)(key (clients st ! 99) \<mapsto> cl_counter (clients st ! 99) + 1)"
proof
  have s: "client_slot st ip port = (st, 99)"
    using client_slot_new [OF assms(1,3)] assms(2) by (simp add: add_client_def)
  have "clients st ! 99 \<in> set (table st)"
    using assms(1,2) by (auto simp: echo_inv_def table_def)
  then show "key (clients st ! 99) \<noteq> (ip, port)" using assms(3) by force
  have "counters st' = counters (set_counter st 99 (cl_counter (clients st ! 99) + 1))"
    using assms(4,5) by (auto simp: server_handle_def s Let_def split: if_splits option.splits)
  then show "counters st' = (counters st)(key (clients st ! 99) \<mapsto> cl_counter (clients st ! 99) + 1)"
    using counters_set_counter [OF assms(1), of 99] assms(2) by simp
qed

section \<open>Concrete runs\<close>

text \<open>The server as it starts: an empty table.\<close>

definition echo_init :: "byte list \<Rightarrow> echo_state" where
  "echo_init mac = \<lparr>clients = replicate 100 \<lparr>cl_ip = replicate 4 0, cl_port = 0, cl_counter = 0\<rparr>,
     client_count = 0, server_mac = mac, buffer = replicate BUF_SIZE 0, sll_addr = replicate 6 0\<rparr>"

lemma echo_init_inv: "length mac = 6 \<Longrightarrow> echo_inv (echo_init mac)"
  by (simp add: echo_inv_def echo_init_def table_def)

lemma echo_init_slot: "has_slot (echo_init mac) k" "count_of (counters (echo_init mac)) k = 0"
  by (simp_all add: has_slot_def echo_init_def counters_def table_def count_of_def)

lemma client_frame_defined:
  assumes "length buf = BUF_SIZE" "length smac = 6" "length cmac = 6" "length sa = 4" "length da = 4"
    "length msg \<le> 1457"
  shows "\<exists>f b. client_frame smac cmac sa da msg buf = Some (f, b)"
  using assms by (simp add: client_frame_def store_def Let_def client_ip_nth client_udp_nth)

lemma bytes_of_Hi: "bytes_of ''Hi'' = [72, 105]" "bytes_of ''CLOSE'' = [67, 76, 79, 83, 69]"
  by (simp_all add: bytes_of_def)

theorem server_step_inv_witness:
  "\<exists>st'. server_step (echo_init (replicate 6 3)) (Some (replicate 10 7)) 0 = Some (st', []) \<and> echo_inv st'"
proof -
  let ?st = "echo_init (replicate 6 3)" and ?f = "replicate 10 7 :: byte list"
  have s: "server_step ?st (Some ?f) 0 = Some (?st\<lparr>buffer := poke 0 ?f (buffer ?st)\<rparr>, [])"
    by (simp add: server_step_def server_parse_def Let_def)
  have "echo_inv (?st\<lparr>buffer := poke 0 ?f (buffer ?st)\<rparr>)"
    by (rule server_step_inv [OF echo_init_inv _ s]) simp_all
  then show ?thesis using s by blast
qed

theorem echo_counts_and_replies_witness:
  "\<exists>f b st' ev d fr. client_frame (replicate 6 1) (replicate 6 2) [10, 0, 0, 1] [10, 0, 0, 2] (bytes_of ''Hi'')
      (replicate BUF_SIZE 0) = Some (f, b)
    \<and> server_step (echo_init (replicate 6 3)) (Some f) 1 = Some (st', ev) \<and> Sendto d fr \<in> set ev
    \<and> counters st' ([10, 0, 0, 1], CLIENT_PORT) = Some 1 \<and> drop 42 fr = bytes_of ''Hi 1''"
proof -
  let ?st = "echo_init (replicate 6 3)"
  obtain f b where f: "client_frame (replicate 6 1) (replicate 6 2) [10, 0, 0, 1] [10, 0, 0, 2]
      (bytes_of ''Hi'') (replicate BUF_SIZE 0) = Some (f, b)"
    using client_frame_defined [of "replicate BUF_SIZE 0" "replicate 6 1" "replicate 6 2" "[10, 0, 0, 1]"
        "[10, 0, 0, 2]" "bytes_of ''Hi''"] by (auto simp: bytes_of_Hi)
  have "\<exists>st' ev d fr. server_step ?st (Some f) 1 = Some (st', ev) \<and> Sendto d fr \<in> set ev
    \<and> counters st' = (counters ?st)(([10, 0, 0, 1], CLIENT_PORT) \<mapsto> count_of (counters ?st) ([10, 0, 0, 1], CLIENT_PORT) + 1)
    \<and> drop 42 fr = bytes_of ''Hi'' @ [32] @ bytes_of (show_int (count_of (counters ?st) ([10, 0, 0, 1], CLIENT_PORT) + 1))"
    by (rule echo_counts_and_replies [OF f])
      (simp_all add: bytes_of_Hi echo_init_inv echo_init_slot INT_MAX_def)
  moreover have "bytes_of ''Hi'' @ [32] @ bytes_of (show_int 1) = bytes_of ''Hi 1''"
  proof -
    have "digit_char 1 = CHR ''1''" by code_simp
    then show ?thesis by (simp add: bytes_of_def show_int_def show_nat.simps)
  qed
  ultimately show ?thesis using f by (simp add: echo_init_slot) (metis fun_upd_same)
qed

theorem echo_reply_is_skipped_witness:
  "\<exists>f b st' ev d fr. client_frame (replicate 6 1) (replicate 6 2) [10, 0, 0, 1] [10, 0, 0, 2] (bytes_of ''Hi'')
      (replicate BUF_SIZE 0) = Some (f, b)
    \<and> server_step (echo_init (replicate 6 3)) (Some f) 1 = Some (st', ev) \<and> Sendto d fr \<in> set ev
    \<and> sll_addr st' = replicate 6 3 \<and> (\<exists>b'. client_receive (replicate BUF_SIZE 0) (Some fr) = Some (None, b'))"
proof -
  let ?st = "echo_init (replicate 6 3)" and ?k = "([10, 0, 0, 1] :: byte list, CLIENT_PORT)"
  let ?b = "replicate BUF_SIZE 0 :: byte list"
  obtain f b where f: "client_frame (replicate 6 1) (replicate 6 2) [10, 0, 0, 1] [10, 0, 0, 2]
      (bytes_of ''Hi'') ?b = Some (f, b)"
    using client_frame_defined [of ?b "replicate 6 1" "replicate 6 2" "[10, 0, 0, 1]"
        "[10, 0, 0, 2]" "bytes_of ''Hi''"] by (auto simp: bytes_of_Hi)
  have pre: "length ?b = BUF_SIZE" "length (replicate 6 1 :: byte list) = 6"
    "length (replicate 6 2 :: byte list) = 6" "length ([10, 0, 0, 1] :: byte list) = 4"
    "length ([10, 0, 0, 2] :: byte list) = 4" "bytes_of ''Hi'' \<noteq> []" "0 \<notin> set (bytes_of ''Hi'')"
    "bytes_of ''Hi'' \<noteq> bytes_of ''CLOSE''" "length (bytes_of ''Hi'') \<le> 1446" "echo_inv ?st"
    "has_slot ?st ?k" "count_of (counters ?st) ?k < INT_MAX"
    by (simp_all add: bytes_of_Hi echo_init_inv echo_init_slot INT_MAX_def)
  obtain b' where b': "server_step ?st (Some f) 1 = server_handle (?st\<lparr>buffer := b'\<rparr>) [10, 0, 0, 1] CLIENT_PORT 20 1"
    "cstr (drop 42 b') = bytes_of ''Hi''" "echo_inv (?st\<lparr>buffer := b'\<rparr>)"
    using server_step_client_frame [OF f pre(1-7,10)] by metis
  obtain st' ev d fr where s: "server_step ?st (Some f) 1 = Some (st', ev)" "Sendto d fr \<in> set ev"
    using server_handle_reply [OF b'(3), of "[10, 0, 0, 1]" CLIENT_PORT "bytes_of ''Hi''" 1] b' pre
    by (auto simp: echo_init_slot)
  note echo_reply_is_skipped [OF f pre s pre(1)]
  then show ?thesis using f s by (auto simp: echo_init_def)
qed

theorem client_frame_overflow_witness:
  "client_frame (replicate 6 1) (replicate 6 2) (replicate 4 1) (replicate 4 2) (replicate 1458 65)
     (replicate BUF_SIZE 0) = None"
  by (subst client_frame_overflow) simp_all

definition full_table :: echo_state where
  "full_table = (echo_init (replicate 6 3))\<lparr>
     clients := map (\<lambda>i. \<lparr>cl_ip = [10, 0, 0, of_nat i], cl_port = CLIENT_PORT, cl_counter = 0\<rparr>) [0..<100],
     client_count := 100\<rparr>"

lemma full_table_inv: "echo_inv full_table" "([9, 9, 9, 9], CLIENT_PORT) \<notin> key ` set (table full_table)"
proof -
  have "inj_on (\<lambda>i. of_nat i :: byte) {0..<100}"
    by (rule inj_onI) (drule arg_cong [of _ _ unat], simp add: unat_of_nat)
  then have "distinct (map key (table full_table))"
    by (auto simp: full_table_def table_def key_def distinct_map inj_on_def comp_def)
  then show "echo_inv full_table" "([9, 9, 9, 9], CLIENT_PORT) \<notin> key ` set (table full_table)"
    by (auto simp: echo_inv_def full_table_def echo_init_def table_def key_def)
qed

theorem full_table_counts_on_last_witness:
  "\<exists>st' ev. server_handle full_table [9, 9, 9, 9] CLIENT_PORT 20 1 = Some (st', ev)
     \<and> counters st' ([10, 0, 0, 99], CLIENT_PORT) = Some 1"
proof -
  note inv = full_table_inv
  have c: "client_count full_table = 100" "buffer full_table = replicate BUF_SIZE 0"
    "clients full_table ! 99 = \<lparr>cl_ip = [10, 0, 0, 99], cl_port = CLIENT_PORT, cl_counter = 0\<rparr>"
    "length (server_mac full_table) = 6"
    by (simp_all add: full_table_def echo_init_def)
  have s: "client_slot full_table [9, 9, 9, 9] CLIENT_PORT = (full_table, 99)"
    using client_slot_new [OF inv] c by (simp add: add_client_def)
  have d: "cstr (drop 42 (buffer full_table)) = []"
    by (simp add: c(2) cstr_def)
  obtain b where b: "build_reply (server_mac full_table) 20 (reply_text [] 1) (buffer full_table) = Some b"
    using build_reply_defined [of "buffer full_table" "server_mac full_table" "reply_text [] 1"]
      length_reply_text [of 1 "[] :: byte list"] c by (auto simp: INT_MAX_def)
  have "\<exists>st' ev. server_handle full_table [9, 9, 9, 9] CLIENT_PORT 20 1 = Some (st', ev)"
    using d b c(3) by (simp add: server_handle_def s Let_def bytes_of_Hi INT_MAX_def)
  then obtain st' ev where h: "server_handle full_table [9, 9, 9, 9] CLIENT_PORT 20 1 = Some (st', ev)"
    by blast
  have nd: "cstr (drop 42 (buffer full_table)) \<noteq> bytes_of ''CLOSE''" using d by (simp add: bytes_of_Hi)
  have "counters st' = (counters full_table)(key (clients full_table ! 99) \<mapsto> cl_counter (clients full_table ! 99) + 1)"
    using full_table_counts_on_last [OF inv(1) c(1) inv(2) h nd] by blast
  then show ?thesis using h c(3) by (auto simp: key_def)
qed

end
