(* ===== verification/NetOptions.thy ===== *)
theory NetOptions
  imports CText
begin

text \<open>
  Command lines of the raw-socket programs: \<^verbatim>\<open>parse_mac\<close> with its \<^verbatim>\<open>sscanf\<close> of \<^verbatim>\<open>%hhx\<close>, and the option
  loops of \<^verbatim>\<open>final_hw_1/echo_client.c\<close>, \<^verbatim>\<open>final_hw_1/echo_server.c\<close> and
  \<^verbatim>\<open>hw16_sockets/p7_Raw_mac_header_with_getopt/client.c\<close>. \<^verbatim>\<open>getopt\<close> is outside: the loops are run on the
  options it delivers with their arguments, any other character standing for an error.
\<close>

section \<open>MAC addresses\<close>

definition hex_val :: "char \<Rightarrow> nat option" where
  "hex_val c = (let k = of_char c :: nat in
     if 48 \<le> k \<and> k \<le> 57 then Some (k - 48)
     else if 97 \<le> k \<and> k \<le> 102 then Some (k - 87)
     else if 65 \<le> k \<and> k \<le> 70 then Some (k - 55) else None)"

definition hex_char :: "nat \<Rightarrow> char" where
  "hex_char d = char_of (if d < 10 then 48 + d else 87 + d)"

definition starts_hex :: "string \<Rightarrow> bool" where
  "starts_hex s \<longleftrightarrow> (case s of [] \<Rightarrow> False | c # _ \<Rightarrow> hex_val c \<noteq> None)"

fun read_hex :: "nat \<Rightarrow> string \<Rightarrow> nat \<times> string" where
  "read_hex acc [] = (acc, [])"
| "read_hex acc (c # cs) = (case hex_val c of None \<Rightarrow> (acc, c # cs) | Some d \<Rightarrow> read_hex (16 * acc + d) cs)"

text \<open>
  \<^verbatim>\<open>%hhx\<close>: white space, a sign, a prefix \<^verbatim>\<open>0x\<close>, at least one digit; the value is that of \<^verbatim>\<open>strtoul\<close>,
  which has a greatest value of 64 bits, stored in one byte.
\<close>

definition hex_prefix :: "string \<Rightarrow> bool" where
  "hex_prefix s \<longleftrightarrow> take 2 s = ''0x'' \<or> take 2 s = ''0X''"

definition scan_hhx :: "string \<Rightarrow> (byte \<times> string) option" where
  "scan_hhx s = (let t = dropWhile is_space s;
       neg = (t \<noteq> [] \<and> hd t = CHR ''-'');
       u = (if t \<noteq> [] \<and> (hd t = CHR ''-'' \<or> hd t = CHR ''+'') then tl t else t);
       v = (if hex_prefix u then drop 2 u else u)
     in if starts_hex v
        then (case read_hex 0 v of (n, r) \<Rightarrow>
          Some (if n \<ge> 2 ^ 64 then -1 else if neg then - of_nat n else of_nat n, r))
        else None)"

text \<open>
  \<^verbatim>\<open>sscanf(str, "%hhx:%hhx:%hhx:%hhx:%hhx:%hhx", ...)\<close> from conversion \<open>i\<close> on: the number of
  conversions done and the bytes stored, those before a failure included.
\<close>

function scan_mac :: "nat \<Rightarrow> string \<Rightarrow> byte list \<Rightarrow> nat \<times> byte list" where
  "scan_mac i s mac =
     (if i < 6 then
        case scan_hhx s of
          None \<Rightarrow> (i, mac)
        | Some (b, r) \<Rightarrow>
            if i + 1 < 6
            then (if r \<noteq> [] \<and> hd r = CHR '':'' then scan_mac (i + 1) (tl r) (mac[i := b]) else (i + 1, mac[i := b]))
            else (i + 1, mac[i := b])
      else (i, mac))"
  by pat_completeness auto
termination
  by (relation "measure (\<lambda>(i, _). 6 - i)") auto

declare scan_mac.simps [simp del]

definition parse_mac :: "string \<Rightarrow> byte list \<Rightarrow> bool \<times> byte list" where
  "parse_mac str mac = (case scan_mac 0 str mac of (n, mac') \<Rightarrow> (n = 6, mac'))"

text \<open>\<^verbatim>\<open>printf("%02x:%02x:%02x:%02x:%02x:%02x", ...)\<close>.\<close>

definition show_byte :: "byte \<Rightarrow> string" where
  "show_byte b = [hex_char (unat b div 16), hex_char (unat b mod 16)]"

fun show_mac :: "byte list \<Rightarrow> string" where
  "show_mac [] = []"
| "show_mac [b] = show_byte b"
| "show_mac (b # bs) = show_byte b @ CHR '':'' # show_mac bs"

section \<open>Options\<close>

abbreviation IF_NAMESIZE :: nat where "IF_NAMESIZE \<equiv> 16"
abbreviation INET_ADDRSTRLEN :: nat where "INET_ADDRSTRLEN \<equiv> 16"

definition field_init :: "nat \<Rightarrow> string \<Rightarrow> string" where
  "field_init n s = s @ replicate (n - length s) 0"

record net_config =
  if_name :: string
  client_ip_str :: string
  server_ip_str :: string
  client_mac :: "byte list"
  server_mac_of :: "byte list"

definition client_defaults :: net_config where
  "client_defaults = \<lparr>if_name = field_init IF_NAMESIZE ''enp34s0'',
     client_ip_str = field_init INET_ADDRSTRLEN ''192.168.1.100'',
     server_ip_str = field_init INET_ADDRSTRLEN ''192.168.1.200'',
     client_mac = [0x00, 0x11, 0x22, 0x33, 0x44, 0x55], server_mac_of = [0x66, 0x77, 0x88, 0x99, 0xaa, 0xbb]\<rparr>"

text \<open>An option that ends the program: the exit status and what is complained about.\<close>

datatype complaint = Invalid_client_mac | Invalid_server_mac | Usage

type_synonym option_result = "(int \<times> complaint) + net_config"

definition set_if_name :: "string \<Rightarrow> net_config \<Rightarrow> net_config" where
  "set_if_name arg c = c\<lparr>if_name := copy_field IF_NAMESIZE (if_name c) arg\<rparr>"

definition set_server_mac :: "string \<Rightarrow> net_config \<Rightarrow> option_result" where
  "set_server_mac arg c = (case parse_mac arg (server_mac_of c) of (ok, m) \<Rightarrow>
     if \<not> ok then Inl (1, Invalid_server_mac) else Inr (c\<lparr>server_mac_of := m\<rparr>))"

definition set_client_mac :: "string \<Rightarrow> net_config \<Rightarrow> option_result" where
  "set_client_mac arg c = (case parse_mac arg (client_mac c) of (ok, m) \<Rightarrow>
     if \<not> ok then Inl (1, Invalid_client_mac) else Inr (c\<lparr>client_mac := m\<rparr>))"

text \<open>The switch of the echo client, and that of the \<^verbatim>\<open>getopt\<close> client, which returns \<open>-1\<close> on a bad option.\<close>

definition client_option :: "char \<times> string \<Rightarrow> net_config \<Rightarrow> option_result" where
  "client_option o' c = (case o' of (opt, arg) \<Rightarrow>
     if opt = CHR ''c'' then Inr (c\<lparr>client_ip_str := copy_field INET_ADDRSTRLEN (client_ip_str c) arg\<rparr>)
     else if opt = CHR ''s'' then Inr (c\<lparr>server_ip_str := copy_field INET_ADDRSTRLEN (server_ip_str c) arg\<rparr>)
     else if opt = CHR ''C'' then set_client_mac arg c
     else if opt = CHR ''S'' then set_server_mac arg c
     else if opt = CHR ''i'' then Inr (set_if_name arg c)
     else Inl (1, Usage))"

definition getopt_client_option :: "char \<times> string \<Rightarrow> net_config \<Rightarrow> option_result" where
  "getopt_client_option o' c = (case o' of (opt, arg) \<Rightarrow>
     if opt = CHR ''c'' then Inr (c\<lparr>client_ip_str := copy_field INET_ADDRSTRLEN (client_ip_str c) arg\<rparr>)
     else if opt = CHR ''s'' then Inr (c\<lparr>server_ip_str := copy_field INET_ADDRSTRLEN (server_ip_str c) arg\<rparr>)
     else if opt = CHR ''C'' then set_client_mac arg c
     else if opt = CHR ''S'' then set_server_mac arg c
     else if opt = CHR ''i'' then Inr (set_if_name arg c)
     else Inl (-1, Usage))"

definition server_option :: "char \<times> string \<Rightarrow> net_config \<Rightarrow> option_result" where
  "server_option o' c = (case o' of (opt, arg) \<Rightarrow>
     if opt = CHR ''i'' then Inr (set_if_name arg c)
     else if opt = CHR ''S'' then set_server_mac arg c
     else Inl (1, Usage))"

text \<open>\<^verbatim>\<open>while ((opt = getopt(argc, argv, ...)) != -1)\<close> for one of the three switches.\<close>

fun option_loop :: "(char \<times> string \<Rightarrow> net_config \<Rightarrow> option_result) \<Rightarrow> (char \<times> string) list
    \<Rightarrow> net_config \<Rightarrow> option_result" where
  "option_loop f [] c = Inr c"
| "option_loop f (o' # os) c = (case f o' c of Inl e \<Rightarrow> Inl e | Inr c' \<Rightarrow> option_loop f os c')"

section \<open>Printed addresses are read back\<close>

lemma hex_val_char: "d < 16 \<Longrightarrow> hex_val (hex_char d) = Some d"
  by (simp add: hex_val_def hex_char_def Let_def)

lemma hex_val_plain:
  assumes "hex_val c = Some d"
  shows "\<not> is_space c" "c \<noteq> CHR ''-''" "c \<noteq> CHR ''+''" "c \<noteq> CHR ''x''" "c \<noteq> CHR ''X''" "c \<noteq> CHR '':''"
  using assms by (auto simp: hex_val_def is_space_def Let_def split: if_splits)

lemma show_byte_digits:
  obtains h l where "show_byte b = [h, l]" "hex_val h = Some (unat b div 16)" "hex_val l = Some (unat b mod 16)"
proof -
  have "unat b < 256" using unsigned_less [of b, where 'a = nat] by simp
  then have "unat b div 16 < 16" by simp
  then show thesis using that by (simp add: show_byte_def hex_val_char)
qed

lemma scan_hhx_shown:
  assumes "\<not> starts_hex r"
  shows "scan_hhx (show_byte b @ r) = Some (b, r)"
proof -
  obtain h l where s: "show_byte b = [h, l]" and v: "hex_val h = Some (unat b div 16)" "hex_val l = Some (unat b mod 16)"
    by (rule show_byte_digits)
  note p = hex_val_plain [OF v(1)] hex_val_plain [OF v(2)]
  have r: "read_hex (unat b) r = (unat b, r)"
    using assms by (cases r) (auto simp: starts_hex_def)
  have "read_hex 0 (h # l # r) = (unat b, r)"
    using v r by (simp add: mult.commute)
  moreover have "\<not> hex_prefix (h # l # r)" using p by (auto simp: hex_prefix_def)
  moreover have "\<not> (2::nat) ^ 64 \<le> unat b"
    using unsigned_less [of b, where 'a = nat] by simp
  ultimately show ?thesis
    using s p v by (simp add: scan_hhx_def Let_def starts_hex_def)
qed

lemma colon_stops: "\<not> starts_hex (CHR '':'' # r)" "\<not> starts_hex []"
  by (simp_all add: starts_hex_def hex_val_def)

lemma parse_mac_shown:
  assumes "length m = 6" "length old = 6"
  shows "parse_mac (show_mac m) old = (True, m)"
proof -
  obtain a b c d e f where m: "m = [a, b, c, d, e, f]"
    using assms(1) by (auto simp: numeral_eq_Suc length_Suc_conv)
  obtain a' b' c' d' e' f' where o: "old = [a', b', c', d', e', f']"
    using assms(2) by (auto simp: numeral_eq_Suc length_Suc_conv)
  have step: "scan_mac i (show_byte x @ CHR '':'' # r) y = scan_mac (i + 1) r (y[i := x])" if "i < 5" for i x r y
    using that by (subst scan_mac.simps) (simp add: scan_hhx_shown colon_stops)
  have final: "scan_mac i (show_byte x) y = (6, y[i := x])" if "i = 5" for i x y
    using that scan_hhx_shown [OF colon_stops(2), of x] by (subst scan_mac.simps) simp
  show ?thesis
    by (simp add: m o parse_mac_def step final)
qed

section \<open>Well-formed configurations\<close>

definition config_ok :: "net_config \<Rightarrow> bool" where
  "config_ok c \<longleftrightarrow> length (if_name c) = IF_NAMESIZE \<and> terminated (if_name c)
     \<and> length (client_ip_str c) = INET_ADDRSTRLEN \<and> terminated (client_ip_str c)
     \<and> length (server_ip_str c) = INET_ADDRSTRLEN \<and> terminated (server_ip_str c)
     \<and> length (client_mac c) = 6 \<and> length (server_mac_of c) = 6"

lemma length_scan_mac: "length (snd (scan_mac i s mac)) = length mac"
proof (induction i s mac rule: scan_mac.induct)
  case (1 i s mac)
  then show ?case
    by (subst scan_mac.simps) (simp split: option.split prod.split)
qed

lemma length_parse_mac: "parse_mac s mac = (ok, m) \<Longrightarrow> length m = length mac"
  using length_scan_mac [of 0 s mac] by (auto simp: parse_mac_def split: prod.splits)

text \<open>An option switch that keeps configurations well formed; then the whole loop does.\<close>

locale option_switch =
  fixes f :: "char \<times> string \<Rightarrow> net_config \<Rightarrow> option_result"
  assumes keeps: "f o' c = Inr c' \<Longrightarrow> config_ok c \<Longrightarrow> config_ok c'"
begin

lemma loop_keeps: "option_loop f os c = Inr c' \<Longrightarrow> config_ok c \<Longrightarrow> config_ok c'"
  by (induction os arbitrary: c) (auto split: sum.splits intro: keeps)

end

lemma set_option_ok:
  assumes "config_ok c"
  shows "config_ok (set_if_name arg c)"
    and "set_client_mac arg c = Inr c' \<Longrightarrow> config_ok c'"
    and "set_server_mac arg c = Inr c' \<Longrightarrow> config_ok c'"
  using assms
  by (auto simp: config_ok_def set_if_name_def set_client_mac_def set_server_mac_def
      copy_field_terminated length_parse_mac split: prod.splits if_splits)

lemma set_ip_ok:
  assumes "config_ok c"
  shows "config_ok (c\<lparr>client_ip_str := copy_field INET_ADDRSTRLEN (client_ip_str c) arg\<rparr>)"
    and "config_ok (c\<lparr>server_ip_str := copy_field INET_ADDRSTRLEN (server_ip_str c) arg\<rparr>)"
  using assms by (auto simp: config_ok_def copy_field_terminated)

interpretation client_switch: option_switch client_option
proof
  fix o' c c' assume "client_option o' c = Inr c'" and ok: "config_ok c"
  then show "config_ok c'"
    by (cases o', simp only: client_option_def prod.case split: if_split_asm)
      (auto simp only: sum.inject sum.distinct intro: set_option_ok [OF ok] set_ip_ok [OF ok])
qed

interpretation getopt_client_switch: option_switch getopt_client_option
proof
  fix o' c c' assume "getopt_client_option o' c = Inr c'" and ok: "config_ok c"
  then show "config_ok c'"
    by (cases o', simp only: getopt_client_option_def prod.case split: if_split_asm)
      (auto simp only: sum.inject sum.distinct intro: set_option_ok [OF ok] set_ip_ok [OF ok])
qed

interpretation server_switch: option_switch server_option
proof
  fix o' c c' assume "server_option o' c = Inr c'" and ok: "config_ok c"
  then show "config_ok c'"
    by (cases o', simp only: server_option_def prod.case split: if_split_asm)
      (auto simp only: sum.inject sum.distinct intro: set_option_ok [OF ok] set_ip_ok [OF ok])
qed

lemma client_defaults_ok: "config_ok client_defaults"
  by (simp add: config_ok_def client_defaults_def field_init_def terminated_def)

section \<open>Properties\<close>

text \<open>
  Claim C39. Options are read safely and MAC addresses round trip: the address that a program prints, given
  as an option to the echo client, the client of \<^verbatim>\<open>p7\<close> or the echo server, is the one the program then uses;
  names longer than their fields are cut, and whatever options are accepted, every field of the
  configuration keeps its size and ends in a NUL.
\<close>

theorem mac_option_round_trip:
  assumes "config_ok c" and "length m = 6"
  shows "option_loop client_option [(CHR ''C'', show_mac m)] c = Inr (c\<lparr>client_mac := m\<rparr>)
    \<and> option_loop getopt_client_option [(CHR ''S'', show_mac m)] c = Inr (c\<lparr>server_mac_of := m\<rparr>)
    \<and> option_loop server_option [(CHR ''S'', show_mac m)] c = Inr (c\<lparr>server_mac_of := m\<rparr>)
    \<and> cstr (if_name (set_if_name arg c)) = take 15 (cstr arg)
    \<and> (\<forall>os c'. option_loop client_option os c = Inr c' \<or> option_loop getopt_client_option os c = Inr c'
          \<or> option_loop server_option os c = Inr c' \<longrightarrow> config_ok c')"
proof -
  have p: "parse_mac (show_mac m) (client_mac c) = (True, m)" "parse_mac (show_mac m) (server_mac_of c) = (True, m)"
    using parse_mac_shown [OF assms(2)] assms(1) by (simp_all add: config_ok_def)
  have "cstr (if_name (set_if_name arg c)) = take 15 (cstr arg)"
    using cstr_copy_field [of "if_name c" 16 arg] assms(1) by (simp add: set_if_name_def config_ok_def)
  then show ?thesis
    using p client_switch.loop_keeps [OF _ assms(1)] getopt_client_switch.loop_keeps [OF _ assms(1)]
      server_switch.loop_keeps [OF _ assms(1)]
    by (auto simp: client_option_def getopt_client_option_def server_option_def set_client_mac_def set_server_mac_def)
qed

theorem mac_option_round_trip_witness:
  "option_loop client_option [(CHR ''C'', show_mac [0, 0xd8, 0x61, 0xd7, 0xf7, 0x14])] client_defaults
     = Inr (client_defaults\<lparr>client_mac := [0, 0xd8, 0x61, 0xd7, 0xf7, 0x14]\<rparr>)"
  using mac_option_round_trip [OF client_defaults_ok, of "[0, 0xd8, 0x61, 0xd7, 0xf7, 0x14]"] by auto

end
