(* ===== verification/EchoSession.thy ===== *)
theory EchoSession
  imports EchoServer NetOptions
begin

text \<open>
  The two programs of \<^verbatim>\<open>final_hw_1\<close> from \<^verbatim>\<open>main\<close> on, and a session of the one with the other: options, set-up of
  the raw socket, the client's loop over the lines of its input and the server's loop over received
  frames. The client runs in a network, a state with what \<^verbatim>\<open>sendto\<close> and \<^verbatim>\<open>recvfrom\<close> do to it; the
  session is the client in the network that consists of the server. \<open>None\<close> is a store outside a buffer
  or the overflow of a counter. \<^verbatim>\<open>inet_addr\<close> is a parameter.
\<close>

section \<open>The client\<close>

record 's network =
  transmit :: "'s \<Rightarrow> byte list \<Rightarrow> int \<times> 's"
  deliver :: "'s \<Rightarrow> byte list option \<times> 's"

datatype net_event = Complained complaint | Params net_config | Prompt | Sending_close
  | Sent int string | Server_says "byte list" | Perror string | Closed

definition frame_for :: "(string \<Rightarrow> byte list) \<Rightarrow> net_config \<Rightarrow> string \<Rightarrow> byte list \<Rightarrow> (byte list \<times> byte list) option" where
  "frame_for inet c input buf = client_frame (server_mac_of c) (client_mac c)
     (inet (cstr (client_ip_str c))) (inet (cstr (server_ip_str c))) (bytes_of input) buf"

text \<open>
  Lines 84 to 160, after \<^verbatim>\<open>fgets\<close> delivered \<open>line\<close>: what is printed, whether the loop is left, and the
  buffer and the network afterwards.
\<close>

definition client_iteration :: "'s network \<Rightarrow> (string \<Rightarrow> byte list) \<Rightarrow> net_config \<Rightarrow> string \<Rightarrow> byte list \<Rightarrow> 's
    \<Rightarrow> (net_event list \<times> bool \<times> byte list \<times> 's) option" where
  "client_iteration net inet c line buf s =
     (let input = chomp line;
          note = (if input = ''CLOSE'' then [Sending_close] else [])
      in case frame_for inet c input buf of None \<Rightarrow> None
         | Some (frame, buf) \<Rightarrow>
           (case transmit net s frame of (sent, s) \<Rightarrow>
              if sent < 0 then Some (note @ [Perror ''sendto''], False, buf, s)
              else if input = ''CLOSE'' then Some (note @ [Sent sent input], True, buf, s)
              else (case deliver net s of (recvd, s) \<Rightarrow>
                (case client_receive buf recvd of None \<Rightarrow> None
                 | Some (said, buf) \<Rightarrow>
                   Some (note @ [Sent sent input] @ (case said of None \<Rightarrow> [] | Some d \<Rightarrow> [Server_says d]),
                         False, buf, s)))))"

text \<open>The loop: it ends at the end of the input or with \<^verbatim>\<open>CLOSE\<close>.\<close>

function client_loop :: "'s network \<Rightarrow> (string \<Rightarrow> byte list) \<Rightarrow> net_config \<Rightarrow> string \<Rightarrow> byte list \<Rightarrow> 's
    \<Rightarrow> (net_event list \<times> 's) option" where
  "client_loop net inet c stdin buf s =
     (case c_fgets BUF_SIZE stdin of None \<Rightarrow> Some ([], s)
      | Some (line, rest) \<Rightarrow>
        (case client_iteration net inet c line buf s of None \<Rightarrow> None
         | Some (out, stop, buf, s) \<Rightarrow>
           if stop then Some (out, s)
           else map_option (\<lambda>(out', s). (out @ out', s)) (client_loop net inet c rest buf s)))"
  by pat_completeness auto
termination
  by (relation "measure (\<lambda>(net, inet, c, stdin, buf, s). length stdin)") (auto dest: c_fgets_shorter(1))

declare client_loop.simps [simp del]

text \<open>
  \<^verbatim>\<open>main\<close>: the options that \<^verbatim>\<open>getopt\<close> delivers, the results of \<^verbatim>\<open>socket\<close> and \<^verbatim>\<open>if_nametoindex\<close>, the
  uninitialised buffer and the typed text; the exit status with what happened.
\<close>

definition client_main :: "'s network \<Rightarrow> (string \<Rightarrow> byte list) \<Rightarrow> (char \<times> string) list \<Rightarrow> int \<Rightarrow> nat
    \<Rightarrow> byte list \<Rightarrow> string \<Rightarrow> 's \<Rightarrow> (int \<times> net_event list \<times> 's) option" where
  "client_main net inet opts sock_fd ifindex buf stdin s =
     (case option_loop client_option opts client_defaults of
        Inl (rc, e) \<Rightarrow> Some (rc, [Complained e], s)
      | Inr c \<Rightarrow>
        if sock_fd < 0 then Some (1, [Params c, Perror ''socket''], s)
        else if ifindex = 0 then Some (1, [Params c, Perror ''if_nametoindex'', Closed], s)
        else map_option (\<lambda>(out, s). (0, [Params c, Prompt] @ out @ [Closed], s))
               (client_loop net inet c stdin buf s))"

section \<open>The server\<close>

text \<open>The server's loop on the frames received so far, each with the result of \<^verbatim>\<open>sendto\<close>.\<close>

fun server_loop :: "echo_state \<Rightarrow> (byte list option \<times> int) list \<Rightarrow> (echo_state \<times> echo_event list) option" where
  "server_loop st [] = Some (st, [])"
| "server_loop st ((recvd, sent) # rs) =
     (case server_step st recvd sent of None \<Rightarrow> None
      | Some (st, ev) \<Rightarrow> map_option (\<lambda>(st, ev'). (st, ev @ ev')) (server_loop st rs))"

text \<open>
  \<^verbatim>\<open>main\<close>: an early exit with its status, or the loop, which never ends by itself. The address fields of
  the configuration are the client's.
\<close>

definition server_defaults :: net_config where
  "server_defaults = client_defaults\<lparr>if_name := field_init IF_NAMESIZE ''wlo1'',
     server_mac_of := [0x94, 0xbb, 0x43, 0x0d, 0x56, 0xa3]\<rparr>"

datatype server_end = Exits int "net_event list" | Serves "(echo_state \<times> echo_event list) option"

definition server_main :: "(char \<times> string) list \<Rightarrow> int \<Rightarrow> nat \<Rightarrow> byte list \<Rightarrow> (byte list option \<times> int) list
    \<Rightarrow> server_end" where
  "server_main opts sock_fd ifindex buf rs =
     (case option_loop server_option opts server_defaults of
        Inl (rc, e) \<Rightarrow> Exits rc [Complained e]
      | Inr c \<Rightarrow>
        if sock_fd < 0 then Exits 1 [Params c, Perror ''socket'']
        else if ifindex = 0 then Exits 1 [Params c, Perror ''if_nametoindex'', Closed]
        else Serves (server_loop ((echo_init (server_mac_of c))\<lparr>buffer := buf\<rparr>) rs))"

section \<open>The session\<close>

text \<open>
  The network made of the server: \<^verbatim>\<open>sendto\<close> runs one iteration of the server's loop on the frame and
  succeeds, \<^verbatim>\<open>recvfrom\<close> delivers the last frame the server sent in it. \<open>server_at\<close> is \<open>None\<close> once the
  server has run into undefined behaviour.
\<close>

record wire =
  server_at :: "echo_state option"
  pending :: "byte list option"
  frames_sent :: "byte list list"

fun sends :: "echo_event list \<Rightarrow> byte list list" where
  "sends [] = []"
| "sends (Sendto d fr # evs) = fr # sends evs"
| "sends (e # evs) = sends evs"

definition run_server :: "wire \<Rightarrow> byte list \<Rightarrow> int \<times> wire" where
  "run_server w frame = (int (length frame),
     case server_at w of None \<Rightarrow> w\<lparr>pending := None\<rparr>
     | Some st \<Rightarrow>
       (case server_step st (Some frame) 1 of None \<Rightarrow> w\<lparr>server_at := None, pending := None\<rparr>
        | Some (st, ev) \<Rightarrow> w\<lparr>server_at := Some st,
            pending := (if sends ev = [] then None else Some (last (sends ev))),
            frames_sent := frames_sent w @ sends ev\<rparr>))"

definition server_wire :: "wire network" where
  "server_wire = \<lparr>transmit = run_server, deliver = (\<lambda>w. (pending w, w\<lparr>pending := None\<rparr>))\<rparr>"

section \<open>Text and bytes\<close>

lemma unat_of_char: "unat (of_char c :: byte) = of_char c"
proof -
  have "unat (of_nat (of_char c) :: byte) = take_bit 8 (of_char c)" by (subst unat_of_nat) (simp add: take_bit_eq_mod)
  then show ?thesis by (simp only: of_nat_of_char) (simp add: take_bit_eq_mod)
qed

lemma of_char_byte_eq: "(of_char c :: byte) = of_char d \<longleftrightarrow> c = d"
  by (metis unat_of_char of_char_eq_iff)

lemma bytes_of_eq: "bytes_of a = bytes_of b \<longleftrightarrow> a = b"
  using inj_map_eq_map [of "of_char :: char \<Rightarrow> byte"] of_char_byte_eq by (simp add: bytes_of_def inj_def)

lemma bytes_of_no_zero: "0 \<in> set (bytes_of s) \<longleftrightarrow> 0 \<in> set s"
proof -
  have "(0 :: byte) = of_char (0 :: char)" by (simp add: zero_char_def)
  then have "(of_char c :: byte) = 0 \<longleftrightarrow> c = 0" for c by (metis of_char_byte_eq)
  then show ?thesis by (auto simp: bytes_of_def image_iff intro: rev_image_eqI)
qed

lemma length_bytes_of [simp]: "length (bytes_of s) = length s"
  by (simp add: bytes_of_def)

section \<open>One message\<close>

lemma sends_append [simp]: "sends (a @ b) = sends a @ sends b"
  by (induction a rule: sends.induct) auto

lemma in_sends: "fr \<in> set (sends ev) \<longleftrightarrow> (\<exists>d. Sendto d fr \<in> set ev)"
  by (induction ev rule: sends.induct) auto

lemma server_handle_sends:
  assumes "server_handle st ip port l sent = Some (st', ev)"
  shows "if cstr (drop (14 + l + 8) (buffer st)) = bytes_of ''CLOSE'' then sends ev = []
    else \<exists>fr. sends ev = [fr]"
  using assms by (auto simp: server_handle_def Let_def split: if_splits option.splits prod.splits)

lemma counters_has_slot: "counters st k = Some n \<Longrightarrow> has_slot st k"
  by (force simp: counters_def has_slot_def dest: map_of_SomeD)

lemma client_frame_length:
  "client_frame smac cmac sa da msg buf = Some (f, b) \<Longrightarrow> length buf = BUF_SIZE
    \<Longrightarrow> length smac = 6 \<Longrightarrow> length cmac = 6 \<Longrightarrow> length sa = 4 \<Longrightarrow> length da = 4 \<Longrightarrow> length b = BUF_SIZE"
  by (auto simp: client_frame_def store_def Let_def client_ip_nth client_udp_nth split: if_splits option.splits)

text \<open>The server on a message of the client, with all that the session needs.\<close>

lemma server_on_message:
  assumes "client_frame smac cmac sa da msg cbuf = Some (f, b)" "length cbuf = BUF_SIZE"
    "length smac = 6" "length cmac = 6" "length sa = 4" "length da = 4"
    and "msg \<noteq> []" "0 \<notin> set msg" "msg \<noteq> bytes_of ''CLOSE''" "length msg \<le> 1446"
    and "echo_inv st" "has_slot st (sa, CLIENT_PORT)" "count_of (counters st) (sa, CLIENT_PORT) < INT_MAX"
  obtains st' ev fr where "server_step st (Some f) sent = Some (st', ev)" "sends ev = [fr]" "echo_inv st'"
    "counters st' = (counters st)((sa, CLIENT_PORT) \<mapsto> count_of (counters st) (sa, CLIENT_PORT) + 1)"
    "drop 42 fr = msg @ [32] @ bytes_of (show_int (count_of (counters st) (sa, CLIENT_PORT) + 1))"
    "\<And>buf. length buf = BUF_SIZE \<Longrightarrow> client_receive buf (Some fr) = Some (None, poke 0 fr buf)"
proof -
  from server_counts_frame [OF assms, of sent] obtain st' ev d fr where
    s: "server_step st (Some f) sent = Some (st', ev)" "Sendto d fr \<in> set ev"
    "counters st' = (counters st)((sa, CLIENT_PORT) \<mapsto> count_of (counters st) (sa, CLIENT_PORT) + 1)"
    "drop 42 fr = msg @ [32] @ bytes_of (show_int (count_of (counters st) (sa, CLIENT_PORT) + 1))" by blast
  obtain b' where b': "server_step st (Some f) sent = server_handle (st\<lparr>buffer := b'\<rparr>) sa CLIENT_PORT 20 sent"
    "cstr (drop 42 b') = msg" "echo_inv (st\<lparr>buffer := b'\<rparr>)"
    using server_step_client_frame [OF assms(1-8,11), of sent] by metis
  have h: "server_handle (st\<lparr>buffer := b'\<rparr>) sa CLIENT_PORT 20 sent = Some (st', ev)" using s(1) b'(1) by simp
  then obtain fr' where "sends ev = [fr']"
    using server_handle_sends [OF h] b'(2) assms(9) by auto
  moreover have "fr \<in> set (sends ev)" using s(2) by (auto simp: in_sends)
  ultimately have one: "sends ev = [fr]" by simp
  show thesis
    using that [OF s(1) one server_handle_inv [OF b'(3) _ h] s(3,4)]
      reply_skipped_facts(4) [OF assms s(1,2)] by simp
qed

lemma server_on_close:
  assumes "client_frame smac cmac sa da (bytes_of ''CLOSE'') cbuf = Some (f, b)" "length cbuf = BUF_SIZE"
    "length smac = 6" "length cmac = 6" "length sa = 4" "length da = 4"
    and "echo_inv st" "has_slot st (sa, CLIENT_PORT)"
  obtains st' ev where "server_step st (Some f) sent = Some (st', ev)" "sends ev = []" "echo_inv st'"
    "counters st' = (counters st)((sa, CLIENT_PORT) \<mapsto> 0)"
proof -
  have c: "bytes_of ''CLOSE'' \<noteq> []" "0 \<notin> set (bytes_of ''CLOSE'')" by (simp_all add: bytes_of_Hi)
  obtain b' where b': "server_step st (Some f) sent = server_handle (st\<lparr>buffer := b'\<rparr>) sa CLIENT_PORT 20 sent"
    "cstr (drop 42 b') = bytes_of ''CLOSE''" "echo_inv (st\<lparr>buffer := b'\<rparr>)"
    using server_step_client_frame [OF assms(1-6) c assms(7), of sent] by metis
  let ?st = "st\<lparr>buffer := b'\<rparr>"
  obtain s i where si: "client_slot ?st sa CLIENT_PORT = (s, i)" by fastforce
  then have si': "(\<lambda>st (ip, port). client_slot st ip port) ?st (sa, CLIENT_PORT) = (s, i)" by simp
  have room: "has_slot ?st (sa, CLIENT_PORT)" using assms(8) by simp
  obtain ev where h: "server_handle ?st sa CLIENT_PORT 20 sent = Some (set_counter s i 0, ev)"
    using b'(2) by (simp add: server_handle_def si)
  show thesis
    using that [of "set_counter s i 0" ev] h b'(1,2) et.reset [OF b'(3) room si'] server_handle_sends [OF h] by simp
qed

section \<open>A whole session\<close>

text \<open>A line the user may type: a message, neither empty nor the closing word, that fits with its answer.\<close>

definition message :: "string \<Rightarrow> bool" where
  "message l \<longleftrightarrow> l \<noteq> [] \<and> l \<noteq> ''CLOSE'' \<and> length l \<le> 1446 \<and> CHR 0x0A \<notin> set l \<and> 0 \<notin> set l"

text \<open>What the server sends back for messages, counted from \<open>n\<close> on.\<close>

fun numbered :: "int \<Rightarrow> string list \<Rightarrow> byte list list" where
  "numbered n [] = []"
| "numbered n (l # ls) = (bytes_of l @ [32] @ bytes_of (show_int (n + 1))) # numbered (n + 1) ls"

abbreviation session_key :: "(string \<Rightarrow> byte list) \<Rightarrow> net_config \<Rightarrow> byte list \<times> 16 word" where
  "session_key inet c \<equiv> (inet (cstr (client_ip_str c)), CLIENT_PORT)"

text \<open>The server at the other end serves this client.\<close>

definition serving :: "echo_state \<Rightarrow> byte list \<times> 16 word \<Rightarrow> int \<Rightarrow> bool" where
  "serving st k n \<longleftrightarrow> echo_inv st \<and> has_slot st k \<and> count_of (counters st) k = n"

lemma frame_for_defined:
  assumes "config_ok c" "\<And>a. length (inet a) = 4" "length buf = BUF_SIZE" "length l \<le> 1446"
  obtains f b where "frame_for inet c l buf = Some (f, b)" "length b = BUF_SIZE" "length f = 42 + length l"
proof -
  have m: "length (server_mac_of c) = 6" "length (client_mac c) = 6" using assms(1) by (auto simp: config_ok_def)
  obtain f b where f: "frame_for inet c l buf = Some (f, b)"
    using client_frame_defined [OF assms(3) m assms(2,2)] assms(4) unfolding frame_for_def by fastforce
  then show thesis
    using that client_frame_length [OF _ assms(3) m assms(2,2)] client_frame_fields(2) [OF _ assms(3) m assms(2,2)]
    by (simp add: frame_for_def)
qed

lemma session_message:
  assumes c: "config_ok c" "\<And>a. length (inet a) = 4" "length buf = BUF_SIZE" and l: "message l"
    and w: "server_at w = Some st" "serving st (session_key inet c) n" "n < INT_MAX"
  obtains buf' st' fr where "client_iteration server_wire inet c (l @ [CHR 0x0A]) buf w
      = Some ([Sent (int (42 + length l)) l], False, buf',
              w\<lparr>server_at := Some st', pending := None, frames_sent := frames_sent w @ [fr]\<rparr>)"
    "length buf' = BUF_SIZE" "serving st' (session_key inet c) (n + 1)"
    "counters st' = (counters st)(session_key inet c \<mapsto> n + 1)"
    "drop 42 fr = bytes_of l @ [32] @ bytes_of (show_int (n + 1))"
proof -
  have m: "length (server_mac_of c) = 6" "length (client_mac c) = 6" using c(1) by (auto simp: config_ok_def)
  obtain f b where f: "frame_for inet c l buf = Some (f, b)" "length b = BUF_SIZE" "length f = 42 + length l"
    using frame_for_defined [where inet = inet, OF c] l by (auto simp: message_def)
  have b: "bytes_of l \<noteq> []" "0 \<notin> set (bytes_of l)" "bytes_of l \<noteq> bytes_of ''CLOSE''" "length (bytes_of l) \<le> 1446"
    using l by (auto simp: message_def bytes_of_no_zero bytes_of_eq) (simp add: bytes_of_def)
  obtain st' ev fr where s: "server_step st (Some f) 1 = Some (st', ev)" "sends ev = [fr]" "echo_inv st'"
    "counters st' = (counters st)(session_key inet c \<mapsto> n + 1)"
    "drop 42 fr = bytes_of l @ [32] @ bytes_of (show_int (n + 1))"
    "\<And>buf. length buf = BUF_SIZE \<Longrightarrow> client_receive buf (Some fr) = Some (None, poke 0 fr buf)"
    using server_on_message [OF f(1) [unfolded frame_for_def] c(3) m c(2,2) b, of st 1] w
    by (auto simp: serving_def)
  have "0 \<le> n" using et.count_nonneg w(2) by (auto simp: serving_def)
  then have "length (show_nat (nat (n + 1))) \<le> 10"
    using w(3) by (intro length_show_nat) (auto simp: INT_MAX_def)
  then have "length fr - 42 \<le> 1457"
    using arg_cong [OF s(5), of length] b(4) \<open>0 \<le> n\<close> by (simp add: show_int_def)
  then have fr: "length (poke 0 fr b) = BUF_SIZE" using f(2) by simp
  have "client_iteration server_wire inet c (l @ [CHR 0x0A]) buf w
      = Some ([Sent (int (42 + length l)) l], False, poke 0 fr b,
              w\<lparr>server_at := Some st', pending := None, frames_sent := frames_sent w @ [fr]\<rparr>)"
    using l f w(1) s(1,2,6) by (simp add: client_iteration_def message_def chomp_line server_wire_def run_server_def)
  moreover have "serving st' (session_key inet c) (n + 1)"
    using s(3,4) counters_has_slot [of st' "session_key inet c" "n + 1"] by (simp add: serving_def count_of_def)
  ultimately show thesis using that fr s(4,5) by blast
qed

lemma session_close:
  assumes c: "config_ok c" "\<And>a. length (inet a) = 4" "length buf = BUF_SIZE"
    and w: "server_at w = Some st" "serving st (session_key inet c) n"
  obtains buf' st' where "client_iteration server_wire inet c (''CLOSE'' @ [CHR 0x0A]) buf w
      = Some ([Sending_close, Sent 47 ''CLOSE''], True, buf', w\<lparr>server_at := Some st', pending := None\<rparr>)"
    "counters st' = (counters st)(session_key inet c \<mapsto> 0)"
proof -
  have m: "length (server_mac_of c) = 6" "length (client_mac c) = 6" using c(1) by (auto simp: config_ok_def)
  obtain f b where f: "frame_for inet c ''CLOSE'' buf = Some (f, b)" "length f = 47"
    by (rule frame_for_defined [where inet = inet and l = "''CLOSE''", OF c]) simp_all
  obtain st' ev where s: "server_step st (Some f) 1 = Some (st', ev)" "sends ev = []"
    "counters st' = (counters st)(session_key inet c \<mapsto> 0)"
    by (rule server_on_close [OF f(1) [unfolded frame_for_def] c(3) m c(2,2), of st 1])
      (use w in \<open>simp_all add: serving_def\<close>)
  have "chomp (''CLOSE'' @ [CHR 0x0A]) = ''CLOSE''" by (intro chomp_line) (simp_all add: zero_char_def)
  then have "client_iteration server_wire inet c (''CLOSE'' @ [CHR 0x0A]) buf w
      = Some ([Sending_close, Sent 47 ''CLOSE''], True, b, w\<lparr>server_at := Some st', pending := None\<rparr>)"
    using f w(1) s(1,2) by (simp add: client_iteration_def server_wire_def run_server_def)
  then show thesis using that s(3) by blast
qed

lemma client_loop_lines:
  assumes "client_iteration net inet c (l @ [CHR 0x0A]) buf s = Some (out, stop, buf', s')"
    "length l < BUF_SIZE - 1" "CHR 0x0A \<notin> set l"
  shows "client_loop net inet c (unlines (l # ls)) buf s =
    (if stop then Some (out, s')
     else map_option (\<lambda>(out', s). (out @ out', s)) (client_loop net inet c (unlines ls) buf' s'))"
  using assms by (subst client_loop.simps) (simp add: c_fgets_unlines)

lemma session_loop:
  assumes c: "config_ok c" "\<And>a. length (inet a) = 4"
  shows "length buf = BUF_SIZE \<Longrightarrow> \<forall>l\<in>set ls. message l \<Longrightarrow> server_at w = Some st
    \<Longrightarrow> serving st (session_key inet c) n \<Longrightarrow> n + int (length ls) \<le> INT_MAX
    \<Longrightarrow> \<exists>w' st'. client_loop server_wire inet c (unlines (ls @ [''CLOSE''])) buf w
        = Some (map (\<lambda>l. Sent (int (42 + length l)) l) ls @ [Sending_close, Sent 47 ''CLOSE''], w')
      \<and> server_at w' = Some st' \<and> counters st' = (counters st)(session_key inet c \<mapsto> 0)
      \<and> map (drop 42) (frames_sent w') = map (drop 42) (frames_sent w) @ numbered n ls"
proof (induction ls arbitrary: buf w st n)
  case Nil
  obtain b st' where i: "client_iteration server_wire inet c (''CLOSE'' @ [CHR 0x0A]) buf w
      = Some ([Sending_close, Sent 47 ''CLOSE''], True, b, w\<lparr>server_at := Some st', pending := None\<rparr>)"
    "counters st' = (counters st)(session_key inet c \<mapsto> 0)"
    by (rule session_close [where inet = inet, OF c Nil.prems(1,3,4)])
  have "client_loop server_wire inet c (unlines [''CLOSE'']) buf w
      = Some ([Sending_close, Sent 47 ''CLOSE''], w\<lparr>server_at := Some st', pending := None\<rparr>)"
    using client_loop_lines [OF i(1), of "[]"] by simp
  then show ?case by (intro exI conjI) (simp, simp, rule i(2), simp)
next
  case (Cons l ls)
  have l: "message l" "n < INT_MAX" using Cons by auto
  obtain b st' fr where i: "client_iteration server_wire inet c (l @ [CHR 0x0A]) buf w
      = Some ([Sent (int (42 + length l)) l], False, b,
              w\<lparr>server_at := Some st', pending := None, frames_sent := frames_sent w @ [fr]\<rparr>)"
    "length b = BUF_SIZE" "serving st' (session_key inet c) (n + 1)"
    "counters st' = (counters st)(session_key inet c \<mapsto> n + 1)"
    "drop 42 fr = bytes_of l @ [32] @ bytes_of (show_int (n + 1))"
    by (rule session_message [where inet = inet, OF c Cons.prems(1) l(1) Cons.prems(3,4) l(2)])
  let ?w = "w\<lparr>server_at := Some st', pending := None, frames_sent := frames_sent w @ [fr]\<rparr>"
  have "\<forall>l\<in>set ls. message l" "n + 1 + int (length ls) \<le> INT_MAX" "server_at ?w = Some st'" using Cons by auto
  from Cons.IH [OF i(2) this(1,3) i(3) this(2)] obtain w' st'' where
    "client_loop server_wire inet c (unlines (ls @ [''CLOSE''])) b ?w
        = Some (map (\<lambda>l. Sent (int (42 + length l)) l) ls @ [Sending_close, Sent 47 ''CLOSE''], w')"
    "server_at w' = Some st''" "counters st'' = (counters st')(session_key inet c \<mapsto> 0)"
    "map (drop 42) (frames_sent w') = map (drop 42) (frames_sent ?w) @ numbered (n + 1) ls" by blast
  moreover have "client_loop server_wire inet c (unlines (l # ls @ [''CLOSE''])) buf w
      = map_option (\<lambda>(out', s). (Sent (int (42 + length l)) l # out', s))
          (client_loop server_wire inet c (unlines (ls @ [''CLOSE''])) b ?w)"
    using l(1) client_loop_lines [OF i(1), of "ls @ [''CLOSE'']"] by (simp add: message_def)
  moreover have "(counters st')(session_key inet c \<mapsto> 0) = (counters st)(session_key inet c \<mapsto> 0)"
    by (simp add: i(4))
  ultimately show ?case
    using i(5) by (intro exI conjI) (simp, simp, simp only:, simp)
qed

section \<open>The server's loop\<close>

lemma server_defaults_ok: "config_ok server_defaults"
  using client_defaults_ok by (simp add: config_ok_def server_defaults_def field_init_def terminated_def)

lemma server_loop_inv:
  "server_loop st rs = Some (st', ev) \<Longrightarrow> echo_inv st
    \<Longrightarrow> \<forall>(recvd, sent)\<in>set rs. \<forall>f. recvd = Some f \<longrightarrow> length f \<le> BUF_SIZE \<Longrightarrow> echo_inv st'"
  by (induction st rs arbitrary: ev rule: server_loop.induct) (auto split: option.splits dest: server_step_inv)

section \<open>Properties\<close>

text \<open>
  Claim C1. The echo server's table stays well formed in every run: whatever options start the server and
  whatever frames of at most 1500 bytes it has received, the table holds at most 100 clients, pairwise
  different, with non-negative counters, and the buffers have their declared sizes.
\<close>

theorem echo_server_keeps_table:
  assumes "server_main opts sock_fd ifindex buf rs = Serves (Some (st, ev))" "length buf = BUF_SIZE"
    and "\<forall>(recvd, sent)\<in>set rs. \<forall>f. recvd = Some f \<longrightarrow> length f \<le> BUF_SIZE"
  shows "echo_inv st"
proof -
  obtain c where c: "option_loop server_option opts server_defaults = Inr c"
    and r: "server_loop ((echo_init (server_mac_of c))\<lparr>buffer := buf\<rparr>) rs = Some (st, ev)"
    using assms(1) by (auto simp: server_main_def split: sum.splits if_splits)
  have "config_ok c" by (rule server_switch.loop_keeps [OF c server_defaults_ok])
  then have "echo_inv ((echo_init (server_mac_of c))\<lparr>buffer := buf\<rparr>)"
    using echo_init_inv [of "server_mac_of c"] assms(2) by (simp add: config_ok_def echo_inv_def table_def)
  then show ?thesis by (rule server_loop_inv [OF r _ assms(3)])
qed

theorem echo_server_keeps_table_witness:
  "\<exists>st ev. server_main [] 3 1 (replicate BUF_SIZE 0) [(Some [1, 2, 3], 0), (None, 0)] = Serves (Some (st, ev)) \<and> echo_inv st"
proof -
  have "\<exists>st ev. server_main [] 3 1 (replicate BUF_SIZE 0) [(Some [1, 2, 3], 0), (None, 0)] = Serves (Some (st, ev))"
    by (simp add: server_main_def server_step_def server_parse_def Let_def)
  then obtain st ev where s: "server_main [] 3 1 (replicate BUF_SIZE 0) [(Some [1, 2, 3], 0), (None, 0)] = Serves (Some (st, ev))"
    by blast
  show ?thesis using echo_server_keeps_table [OF s] s by simp
qed

text \<open>
  Claim C2. A session of the echo client with the echo server: started with options that are accepted, the
  client reads lines up to \<^verbatim>\<open>CLOSE\<close> and ends with status 0 having printed just what it sent, one line for
  each message and never an answer, although the server has answered each message with the message and
  its number, counted on from where this client's counter stood; the server is still running, the
  client's counter is 0 again and no other counter has changed. Lines are non-empty, of at most 1446
  characters, other than \<^verbatim>\<open>CLOSE\<close>; the counter must not overflow.
\<close>

theorem echo_session:
  assumes "option_loop client_option opts client_defaults = Inr c" "0 \<le> sock_fd" "0 < ifindex"
    and "\<And>a. length (inet a) = 4" "length buf = BUF_SIZE" "\<forall>l\<in>set ls. message l"
    and "server_at w = Some st" "serving st (session_key inet c) n" "n + int (length ls) \<le> INT_MAX"
  shows "\<exists>w' st'. client_main server_wire inet opts sock_fd ifindex buf (unlines (ls @ [''CLOSE''])) w
        = Some (0, [Params c, Prompt] @ map (\<lambda>l. Sent (int (42 + length l)) l) ls
                   @ [Sending_close, Sent 47 ''CLOSE'', Closed], w')
      \<and> server_at w' = Some st' \<and> counters st' = (counters st)(session_key inet c \<mapsto> 0)
      \<and> map (drop 42) (frames_sent w') = map (drop 42) (frames_sent w) @ numbered n ls"
proof -
  have ok: "config_ok c" using client_switch.loop_keeps [OF assms(1) client_defaults_ok] .
  show ?thesis
    using session_loop [where inet = inet, OF ok assms(4-9)] assms(1-3) by (auto simp: client_main_def)
qed

theorem echo_session_witness:
  "\<exists>w' st'. client_main server_wire (\<lambda>_. [10, 0, 0, 1]) [] 3 2 (replicate BUF_SIZE 0)
      (unlines ([''Hi'', ''you''] @ [''CLOSE'']))
      \<lparr>server_at = Some (echo_init (replicate 6 3)), pending = None, frames_sent = []\<rparr>
    = Some (0, [Params client_defaults, Prompt, Sent 44 ''Hi'', Sent 45 ''you'', Sending_close, Sent 47 ''CLOSE'', Closed], w')
    \<and> server_at w' = Some st' \<and> map (drop 42) (frames_sent w') = [bytes_of ''Hi 1'', bytes_of ''you 2'']"
proof -
  have d: "digit_char (Suc 0) = CHR ''1''" "digit_char 2 = CHR ''2''" by code_simp+
  have n: "numbered 0 [''Hi'', ''you''] = [bytes_of ''Hi 1'', bytes_of ''you 2'']"
    by (simp add: bytes_of_def show_int_def show_nat.simps d)
  let ?w = "\<lparr>server_at = Some (echo_init (replicate 6 3)), pending = None, frames_sent = []\<rparr>"
  let ?ls = "[''Hi'', ''you'']"
  have pre: "option_loop client_option [] client_defaults = Inr client_defaults" "(0::int) \<le> 3" "(0::nat) < 2"
    "\<And>a. length ((\<lambda>_. [10, 0, 0, 1] :: byte list) (a :: string)) = 4" "length (replicate BUF_SIZE (0 :: byte)) = BUF_SIZE"
    "\<forall>l\<in>set ?ls. message l" "server_at ?w = Some (echo_init (replicate 6 3))"
    "serving (echo_init (replicate 6 3)) (session_key (\<lambda>_. [10, 0, 0, 1]) client_defaults) 0"
    "0 + int (length ?ls) \<le> INT_MAX"
    by (simp_all add: message_def zero_char_def serving_def echo_init_inv echo_init_slot INT_MAX_def)
  show ?thesis
    by (rule exE [OF echo_session [OF pre]], elim exE conjE, intro exI conjI) (simp, simp, simp add: n del: numbered.simps)
qed

end
