(* ===== verification/Drivers.thy ===== *)
theory Drivers
  imports CText
begin

text \<open>
  The driver manager of \<^verbatim>\<open>final_hw_2/main.c\<close>: the table of drivers, the commands of the CLI with their
  parsing, the child process that plays a driver, and the process forked at line 384 that accepts the
  drivers' connections. The two processes have a copy of the table each, so the system is a pair of
  tables and the steps of the one never change the other.
\<close>

abbreviation MAX_DRIVERS :: nat where "MAX_DRIVERS \<equiv> 100"
abbreviation DRV_BUF_SIZE :: nat where "DRV_BUF_SIZE \<equiv> 256"

record driver =
  d_pid :: int
  d_task_timer :: int
  d_task_end_time :: int
  d_sock_fd :: int
  d_active :: bool
  d_recv_buf :: string
  d_recv_len :: nat

record drv_state =
  drivers :: "driver list"
  driver_count :: nat

text \<open>What the processes do that is visible outside: messages printed, data sent, descriptors.\<close>

datatype drv_out =
    Print_busy int int | Print_available int | Print_none_created | Print_active_drivers
  | Print_limit | Print_created int | Print_fork_failed
  | Print_not_found int | Print_busy_error int int | Print_task_sent int int | Print_unknown_command
  | Print_response int string | Print_connected int int | Print_rejected int | Print_disconnected int
  | Print_accept_failed
  | Send int string | Kill int | Close int | Epoll_add int | Epoll_mod int

section \<open>The table\<close>

definition used :: "drv_state \<Rightarrow> driver list" where
  "used st = take (driver_count st) (drivers st)"

definition find_driver :: "drv_state \<Rightarrow> int \<Rightarrow> int" where
  "find_driver st pid = c_index (first_index (\<lambda>d. d_pid d = pid \<and> d_active d) (used st))"

definition find_driver_by_fd :: "drv_state \<Rightarrow> int \<Rightarrow> int" where
  "find_driver_by_fd st fd = c_index (first_index (\<lambda>d. d_active d \<and> d_sock_fd d = fd) (used st))"

definition busy :: "driver \<Rightarrow> int \<Rightarrow> bool" where
  "busy d now \<longleftrightarrow> d_task_timer d > 0 \<and> now < d_task_end_time d"

definition print_driver_status :: "drv_state \<Rightarrow> nat \<Rightarrow> int \<Rightarrow> drv_out list" where
  "print_driver_status st index now =
     (let d = drivers st ! index
      in if busy d now then [Print_busy (d_pid d) (c_int (d_task_end_time d - now))]
         else [Print_available (d_pid d)])"

definition print_all_drivers :: "drv_state \<Rightarrow> int \<Rightarrow> drv_out list" where
  "print_all_drivers st now =
     (if driver_count st = 0 then [Print_none_created]
      else Print_active_drivers #
           concat (map (\<lambda>i. if d_active (drivers st ! i) then print_driver_status st i now else [])
                       [0..<driver_count st]))"

definition send_to_driver :: "drv_state \<Rightarrow> nat \<Rightarrow> string \<Rightarrow> drv_out list" where
  "send_to_driver st i cmd =
     (let d = drivers st ! i in if d_sock_fd d \<ge> 0 then [Send (d_sock_fd d) cmd] else [])"

definition set_driver :: "drv_state \<Rightarrow> nat \<Rightarrow> driver \<Rightarrow> drv_state" where
  "set_driver st i d = st\<lparr>drivers := (drivers st)[i := d]\<rparr>"

definition handle_driver_response :: "drv_state \<Rightarrow> nat \<Rightarrow> drv_state \<times> drv_out list" where
  "handle_driver_response st i =
     (let d = drivers st ! i
      in (set_driver st i (d\<lparr>d_recv_len := 0\<rparr>),
          [Print_response (d_pid d) (take (d_recv_len d) (cstr (d_recv_buf d)))]))"

text \<open>The parent's side of \<^verbatim>\<open>create_driver\<close>, with the result of \<^verbatim>\<open>fork\<close>.\<close>

definition create_driver :: "drv_state \<Rightarrow> int \<Rightarrow> drv_state \<times> drv_out list" where
  "create_driver st pid =
     (if driver_count st \<ge> MAX_DRIVERS then (st, [Print_limit])
      else if pid > 0 then
        (let index = driver_count st;
             d = (drivers st ! index)\<lparr>d_pid := pid, d_task_timer := 0, d_task_end_time := 0,
                   d_active := True, d_sock_fd := -1, d_recv_len := 0\<rparr>
         in ((set_driver st index d)\<lparr>driver_count := driver_count st + 1\<rparr>, [Print_created pid]))
      else (st, [Print_fork_failed]))"

definition task_command :: "int \<Rightarrow> string" where
  "task_command timer = ''TASK:'' @ show_int timer @ [CHR 0x0A]"

definition send_task :: "drv_state \<Rightarrow> int \<Rightarrow> int \<Rightarrow> int \<Rightarrow> drv_state \<times> drv_out list" where
  "send_task st target_pid task_timer now =
     (let index = find_driver st target_pid
      in if index = -1 then (st, [Print_not_found target_pid])
         else
           (let i = nat index; d = drivers st ! i
            in if busy d now
               then (st, [Print_busy_error target_pid (c_int (d_task_end_time d - now))])
               else
                 (let out = send_to_driver st i (take 63 (task_command task_timer));
                      d' = d\<lparr>d_task_timer := task_timer, d_task_end_time := now + task_timer\<rparr>
                  in (set_driver st i d', out @ [Print_task_sent target_pid task_timer]))))"

definition get_status :: "drv_state \<Rightarrow> int \<Rightarrow> int \<Rightarrow> drv_out list" where
  "get_status st target_pid now =
     (let index = find_driver st target_pid
      in if index = -1 then [Print_not_found target_pid]
         else print_driver_status st (nat index) now)"

section \<open>The command line\<close>

text \<open>
  \<^verbatim>\<open>sscanf(line, "%s %d %d", cmd, &pid_arg, &timer_arg)\<close>: the converted numbers after the token, at
  most \<open>n\<close>. A number outside \<^verbatim>\<open>int\<close> is undefined behaviour, as is a token that does not fit \<^verbatim>\<open>cmd[32]\<close>
  (checked where the token is first read).
\<close>

fun scan_ints :: "nat \<Rightarrow> string \<Rightarrow> int list option" where
  "scan_ints 0 s = Some []"
| "scan_ints (Suc n) s =
     (case scan_d s of None \<Rightarrow> Some []
      | Some (v, r) \<Rightarrow> if in_int v then map_option (Cons v) (scan_ints n r) else None)"

text \<open>
  One line of the loop at line 403. \<open>fork_pid\<close> and \<open>now\<close> are what \<^verbatim>\<open>fork\<close> and \<^verbatim>\<open>time\<close> return if they are
  called. The boolean tells whether the loop ends; \<open>None\<close> is undefined behaviour.
\<close>

definition exit_outputs :: "drv_state \<Rightarrow> drv_out list" where
  "exit_outputs st =
     concat (map (\<lambda>i. let d = drivers st ! i
                      in if d_active d \<and> d_sock_fd d \<ge> 0
                         then send_to_driver st i (''EXIT'' @ [CHR 0x0A]) @ [Kill (d_pid d)] else [])
                 [0..<driver_count st])"

definition cli_line ::
  "drv_state \<Rightarrow> string \<Rightarrow> int \<Rightarrow> int \<Rightarrow> (drv_state \<times> drv_out list \<times> bool) option" where
  "cli_line st line fork_pid now =
     (case scan_s line of None \<Rightarrow> Some (st, [], False)
      | Some (cmd, rest) \<Rightarrow>
        if length cmd \<ge> 32 then None
        else if cmd = ''create_driver'' then
          (let (st', out) = create_driver st fork_pid in Some (st', out, False))
        else if cmd = ''get_drivers'' then Some (st, print_all_drivers st now, False)
        else
          (case scan_ints 2 rest of None \<Rightarrow> None
           | Some args2 \<Rightarrow>
             if length args2 = 2 \<and> cmd = ''send_task'' then
               (let (st', out) = send_task st (args2 ! 0) (args2 ! 1) now in Some (st', out, False))
             else if args2 \<noteq> [] \<and> cmd = ''get_status'' then
               Some (st, get_status st (args2 ! 0) now, False)
             else if cmd = ''exit'' then Some (st, exit_outputs st, True)
             else Some (st, [Print_unknown_command], False)))"

section \<open>The connection process\<close>

text \<open>
  What \<^verbatim>\<open>epoll_wait\<close> reports: the listening socket, with the results of \<^verbatim>\<open>accept\<close> and of the \<^verbatim>\<open>recv\<close>
  that reads the peer's pid (\<open>None\<close> for a result \<^verbatim>\<open><= 0\<close>); a readable descriptor, with the data \<^verbatim>\<open>recv\<close>
  stores (the empty string for 0), or its failure with \<^verbatim>\<open>errno\<close> (true for \<^verbatim>\<open>EAGAIN\<close>); or a descriptor
  without \<^verbatim>\<open>EPOLLIN\<close>.
\<close>

datatype conn_event =
    Accept_failed bool
  | Accepted int "int option"
  | Readable int "string + bool"
  | Other_event int

definition disconnect :: "int \<Rightarrow> drv_state \<Rightarrow> nat \<Rightarrow> int \<Rightarrow> drv_state \<times> drv_out list" where
  "disconnect server_sock st i fd =
     (let d = drivers st ! i
      in (set_driver st i (d\<lparr>d_sock_fd := -1\<rparr>),
          [Print_disconnected (d_pid d), Close fd, Epoll_mod server_sock]))"

definition handle_connection ::
  "int \<Rightarrow> drv_state \<Rightarrow> conn_event \<Rightarrow> drv_state \<times> drv_out list" where
  "handle_connection server_sock st ev =
     (case ev of
        Accept_failed transient \<Rightarrow> (st, if transient then [] else [Print_accept_failed])
      | Accepted client_sock None \<Rightarrow> (st, [Close client_sock])
      | Accepted client_sock (Some client_pid) \<Rightarrow>
          (let index = find_driver st client_pid
           in if index \<ge> 0
              then (set_driver st (nat index) ((drivers st ! nat index)\<lparr>d_sock_fd := client_sock\<rparr>),
                    [Print_connected client_pid client_sock, Epoll_add client_sock])
              else (st, [Print_rejected client_pid, Close client_sock]))
      | Readable fd r \<Rightarrow>
          (let index = find_driver_by_fd st fd
           in if index \<ge> 0 then
                (let i = nat index; d = drivers st ! i
                 in case r of
                      Inl data \<Rightarrow>
                        (let n = min (length data) (DRV_BUF_SIZE - d_recv_len d - 1)
                         in if n > 0 then
                              (let buf = poke (d_recv_len d) (take n data) (d_recv_buf d);
                                   len = d_recv_len d + n;
                                   d' = d\<lparr>d_recv_len := len, d_recv_buf := buf[len := 0]\<rparr>
                               in handle_driver_response (set_driver st i d') i)
                            else disconnect server_sock st i fd)
                    | Inr again \<Rightarrow> if again then (st, []) else disconnect server_sock st i fd)
              else (st, []))
      | Other_event fd \<Rightarrow> (st, []))"

section \<open>The driver process\<close>

datatype child_out = Reply string | Sleep int | Print_task int | Print_completed

text \<open>
  The loop body of the child for the bytes one \<^verbatim>\<open>recv\<close> returned (non-empty, at most 255): the actions,
  and whether the loop goes on. \<open>None\<close> is an out-of-range number.
\<close>

definition driver_receive :: "string \<Rightarrow> (child_out list \<times> bool) option" where
  "driver_receive bytes =
     (let buf = cstr bytes
      in if take 5 buf = ''TASK:'' then
           (case scan_d (drop 5 buf) of
              None \<Rightarrow> Some ([], True)
            | Some (timer, _) \<Rightarrow>
                if in_int timer
                then Some ([Print_task timer, Reply (take 7 (''TASK_OK'' @ [CHR 0x0A])), Sleep timer,
                            Reply (''AVAILABLE'' @ [CHR 0x0A]), Print_completed], True)
                else None)
         else if buf = ''STATUS'' then Some ([Reply (''AVAILABLE'' @ [CHR 0x0A])], True)
         else if buf = ''EXIT'' then Some ([Reply (''EXIT_OK'' @ [CHR 0x0A])], False)
         else Some ([], True))"

section \<open>The two processes\<close>

text \<open>
  After the \<^verbatim>\<open>fork\<close> at line 384 the CLI and the connection process have one table each; \<open>log\<close> is
  everything the two have done. The CLI handles one input line per step, the connection process one
  reported event.
\<close>

record drv_sys =
  cli :: drv_state
  conn :: drv_state
  log :: "drv_out list"

definition drv_init :: drv_state where
  "drv_init = \<lparr>drivers = replicate MAX_DRIVERS
     \<lparr>d_pid = 0, d_task_timer = 0, d_task_end_time = 0, d_sock_fd = 0, d_active = False,
      d_recv_buf = replicate DRV_BUF_SIZE 0, d_recv_len = 0\<rparr>, driver_count = 0\<rparr>"

definition sys_init :: drv_sys where
  "sys_init = \<lparr>cli = drv_init, conn = drv_init, log = []\<rparr>"

inductive sys_step :: "int \<Rightarrow> drv_sys \<Rightarrow> drv_sys \<Rightarrow> bool" for server_sock where
  cli_step: "cli_line (cli s) line fork_pid now = Some (c, out, fin)
    \<Longrightarrow> sys_step server_sock s (s\<lparr>cli := c, log := log s @ out\<rparr>)"
| conn_step: "handle_connection server_sock (conn s) ev = (k, out)
    \<Longrightarrow> sys_step server_sock s (s\<lparr>conn := k, log := log s @ out\<rparr>)"

inductive_cases sys_stepE: "sys_step server_sock s t"

section \<open>The invariant of the table\<close>

definition drv_ok :: "driver \<Rightarrow> bool" where
  "drv_ok d \<longleftrightarrow> length (d_recv_buf d) = DRV_BUF_SIZE \<and> d_recv_len d = 0"

definition drv_inv :: "drv_state \<Rightarrow> bool" where
  "drv_inv st \<longleftrightarrow> length (drivers st) = MAX_DRIVERS \<and> driver_count st \<le> MAX_DRIVERS
     \<and> (\<forall>d\<in>set (drivers st). drv_ok d) \<and> (\<forall>d\<in>set (used st). d_active d)"

lemma set_driver_simps [simp]:
  "driver_count (set_driver st i d) = driver_count st"
  "drivers (set_driver st i d) = (drivers st)[i := d]"
  by (simp_all add: set_driver_def)

lemma set_driver_twice [simp]: "set_driver (set_driver st i a) i b = set_driver st i b"
  by (simp add: set_driver_def)

lemma used_set_driver: "i < driver_count st \<Longrightarrow> used (set_driver st i d) = (used st)[i := d]"
  by (simp add: used_def take_update_swap)

lemma find_driver_ge: 
  assumes "0 \<le> find_driver st pid" and "drv_inv st"
  obtains i where "find_driver st pid = int i" "i < driver_count st" "i < MAX_DRIVERS"
    "d_pid (drivers st ! i) = pid" "d_active (drivers st ! i)" "used st ! i = drivers st ! i"
    "drivers st ! i \<in> set (drivers st)"
proof -
  from assms(1) obtain i where i: "first_index (\<lambda>d. d_pid d = pid \<and> d_active d) (used st) = Some i"
    by (auto simp: find_driver_def)
  have "i < driver_count st" "i < MAX_DRIVERS" "used st ! i = drivers st ! i"
    using first_index_SomeD(1) [OF i] assms(2) by (auto simp: used_def drv_inv_def)
  then show ?thesis
    using that [of i] i first_index_SomeD(2) [OF i] assms(2)
    by (auto simp: find_driver_def drv_inv_def)
qed

lemma find_driver_by_fd_ge:
  assumes "0 \<le> find_driver_by_fd st fd" and "drv_inv st"
  obtains i where "find_driver_by_fd st fd = int i" "i < driver_count st" "i < MAX_DRIVERS"
    "d_active (drivers st ! i)" "drivers st ! i \<in> set (drivers st)"
proof -
  from assms(1) obtain i where i: "first_index (\<lambda>d. d_active d \<and> d_sock_fd d = fd) (used st) = Some i"
    by (auto simp: find_driver_by_fd_def)
  have "i < driver_count st" "i < MAX_DRIVERS" "used st ! i = drivers st ! i"
    using first_index_SomeD(1) [OF i] assms(2) by (auto simp: used_def drv_inv_def)
  then show ?thesis
    using that [of i] i first_index_SomeD(2) [OF i] assms(2)
    by (auto simp: find_driver_by_fd_def drv_inv_def)
qed

lemma find_driver_cases: "find_driver st pid = -1 \<or> 0 \<le> find_driver st pid"
  by (auto simp: find_driver_def c_index_def split: option.splits)

lemma drv_inv_set:
  assumes "drv_inv st" "i < driver_count st" "drv_ok d" "d_active d"
  shows "drv_inv (set_driver st i d)"
  using assms by (auto simp: drv_inv_def used_set_driver dest: set_update_subset_insert [THEN subsetD])

lemma drv_inv_nth:
  assumes "drv_inv st" "i < driver_count st"
  shows "drv_ok (drivers st ! i)" "d_active (drivers st ! i)"
proof -
  have "drivers st ! i \<in> set (drivers st)" using assms by (auto simp: drv_inv_def)
  then show "drv_ok (drivers st ! i)" using assms by (auto simp: drv_inv_def)
  have "used st ! i = drivers st ! i" "i < length (used st)"
    using assms by (auto simp: used_def drv_inv_def)
  then show "d_active (drivers st ! i)" using assms by (metis drv_inv_def nth_mem)
qed

lemma create_driver_inv: "drv_inv st \<Longrightarrow> drv_inv (fst (create_driver st pid))"
proof (cases "driver_count st < MAX_DRIVERS \<and> pid > 0")
  case True
  assume inv: "drv_inv st"
  let ?n = "driver_count st"
  let ?d = "(drivers st ! ?n)\<lparr>d_pid := pid, d_task_timer := 0, d_task_end_time := 0,
                   d_active := True, d_sock_fd := -1, d_recv_len := 0\<rparr>"
  have e: "fst (create_driver st pid) = (set_driver st ?n ?d)\<lparr>driver_count := Suc ?n\<rparr>"
    using True by (simp add: create_driver_def Let_def)
  have "drivers st ! ?n \<in> set (drivers st)" using True inv by (auto simp: drv_inv_def)
  then have ok: "drv_ok ?d" using inv by (auto simp: drv_inv_def drv_ok_def)
  have "used (fst (create_driver st pid)) = used st @ [?d]"
    using True inv unfolding e by (simp add: used_def drv_inv_def take_Suc_conv_app_nth)
  then show ?thesis
    using inv True ok unfolding drv_inv_def e
    by (auto dest: set_update_subset_insert [THEN subsetD])
next
  case False
  assume "drv_inv st"
  then show ?thesis using False by (auto simp: create_driver_def Let_def)
qed

lemma send_task_inv: "drv_inv st \<Longrightarrow> drv_inv (fst (send_task st pid t now))"
proof (cases "find_driver st pid = -1")
  case False
  assume inv: "drv_inv st"
  with False find_driver_cases obtain i where i: "find_driver st pid = int i" "i < driver_count st"
    by (metis find_driver_ge)
  have "drv_inv (set_driver st i ((drivers st ! i)\<lparr>d_task_timer := t, d_task_end_time := now + t\<rparr>))"
    by (rule drv_inv_set [OF inv i(2)]) (use drv_inv_nth [OF inv i(2)] in \<open>auto simp: drv_ok_def\<close>)
  then show ?thesis using i inv by (simp add: send_task_def Let_def)
qed (simp add: send_task_def)

lemma disconnect_inv: "drv_inv st \<Longrightarrow> i < driver_count st \<Longrightarrow> drv_inv (fst (disconnect srv st i fd))"
  using drv_inv_nth [of st i] by (auto simp: disconnect_def Let_def drv_ok_def intro!: drv_inv_set)

lemma handle_connection_drv_inv:
  assumes inv: "drv_inv st"
  shows "drv_inv (fst (handle_connection srv st ev))"
proof (cases ev)
  case (Accepted fd p)
  show ?thesis
  proof (cases p)
    case (Some pid)
    show ?thesis
    proof (cases "0 \<le> find_driver st pid")
      case True
      then obtain i where i: "find_driver st pid = int i" "i < driver_count st"
        using inv by (metis find_driver_ge)
      have "drv_inv (set_driver st i ((drivers st ! i)\<lparr>d_sock_fd := fd\<rparr>))"
        by (rule drv_inv_set [OF inv i(2)]) (use drv_inv_nth [OF inv i(2)] in \<open>auto simp: drv_ok_def\<close>)
      then show ?thesis using i Accepted Some by (simp add: handle_connection_def Let_def)
    qed (use inv Accepted Some in \<open>simp add: handle_connection_def Let_def\<close>)
  qed (use inv Accepted in \<open>simp add: handle_connection_def\<close>)
next
  case (Readable fd r)
  show ?thesis
  proof (cases "0 \<le> find_driver_by_fd st fd")
    case True
    then obtain i where i: "find_driver_by_fd st fd = int i" "i < driver_count st"
      using inv by (metis find_driver_by_fd_ge)
    note dis = disconnect_inv [OF inv i(2), of srv fd]
    show ?thesis
    proof (cases r)
      case (Inl data)
      let ?d = "drivers st ! i" and ?n = "min (length data) (DRV_BUF_SIZE - 1)"
      let ?b = "poke 0 (take ?n data) (d_recv_buf ?d)"
      let ?e = "?d\<lparr>d_recv_len := ?n, d_recv_buf := ?b[?n := 0]\<rparr>"
      have ok: "drv_ok ?d" "d_active ?d" using drv_inv_nth [OF inv i(2)] .
      have "length ?b = DRV_BUF_SIZE"
        using ok by (subst length_poke) (auto simp: drv_ok_def)
      then have "drv_inv (set_driver st i (?e\<lparr>d_recv_len := 0\<rparr>))"
        by (intro drv_inv_set [OF inv i(2)]) (use ok in \<open>auto simp: drv_ok_def\<close>)
      moreover have "i < length (drivers st)" using i inv by (auto simp: drv_inv_def)
      ultimately show ?thesis
        using i Readable Inl ok dis
        by (simp add: handle_connection_def handle_driver_response_def Let_def drv_ok_def)
    next
      case (Inr b)
      then show ?thesis using i Readable inv dis by (simp add: handle_connection_def Let_def)
    qed
  qed (use inv Readable in \<open>simp add: handle_connection_def Let_def\<close>)
qed (use inv in \<open>simp_all add: handle_connection_def\<close>)

lemma cli_line_inv:
  assumes "drv_inv st" and "cli_line st line fork_pid now = Some (st', out, fin)"
  shows "drv_inv st'"
proof -
  have "st' = st \<or> st' = fst (create_driver st fork_pid) \<or> (\<exists>p t. st' = fst (send_task st p t now))"
    using assms(2) unfolding cli_line_def
    by (auto simp: Let_def split: option.splits if_splits prod.splits) (metis fst_conv)+
  then show ?thesis
    using assms(1) create_driver_inv send_task_inv by metis
qed

section \<open>Tasks and their deadlines\<close>

text \<open>The table as a map from the pid of an active driver to its last task's length and end.\<close>

definition abs_drivers :: "drv_state \<Rightarrow> int \<rightharpoonup> int \<times> int" where
  "abs_drivers st = map_of (map (\<lambda>d. (d_pid d, (d_task_timer d, d_task_end_time d))) (used st))"

definition spec_send :: "(int \<rightharpoonup> int \<times> int) \<Rightarrow> int \<Rightarrow> int \<Rightarrow> int \<Rightarrow> (int \<rightharpoonup> int \<times> int)" where
  "spec_send m pid t now = (case m pid of None \<Rightarrow> m
     | Some (tm, e) \<Rightarrow> if tm > 0 \<and> now < e then m else m(pid \<mapsto> (t, now + t)))"

lemma find_driver_active:
  "drv_inv st \<Longrightarrow> find_driver st pid = c_index (first_index (\<lambda>d. d_pid d = pid) (used st))"
  unfolding find_driver_def drv_inv_def
  by (intro arg_cong [where f = c_index] first_index_cong) auto

lemma abs_drivers_find:
  "drv_inv st \<Longrightarrow> abs_drivers st pid = (if find_driver st pid = -1 then None
     else let d = drivers st ! nat (find_driver st pid) in Some (d_task_timer d, d_task_end_time d))"
proof (cases "first_index (\<lambda>d. d_pid d = pid) (used st)")
  case (Some i)
  moreover assume "drv_inv st"
  ultimately show ?thesis
    using first_index_SomeD(1) [OF Some]
    by (simp add: find_driver_active abs_drivers_def map_of_first_index used_def Let_def)
qed (simp add: find_driver_active abs_drivers_def map_of_first_index)

lemma abs_drivers_set:
  assumes "drv_inv st" "find_driver st pid = int i" "d_pid d = pid"
  shows "abs_drivers (set_driver st i d) = (abs_drivers st)(pid \<mapsto> (d_task_timer d, d_task_end_time d))"
proof -
  have f: "first_index (\<lambda>d. d_pid d = pid) (used st) = Some i"
    using assms by (auto simp: find_driver_active c_index_def split: option.splits)
  then have "i < driver_count st" using first_index_SomeD(1) [OF f] by (simp add: used_def)
  then show ?thesis
    using f assms(3) by (simp add: abs_drivers_def used_set_driver map_of_update_first)
qed

lemma send_task_refines_map:
  assumes inv: "drv_inv st"
  shows "abs_drivers (fst (send_task st pid t now)) = spec_send (abs_drivers st) pid t now"
proof (cases "find_driver st pid = -1")
  case True
  then show ?thesis using inv by (simp add: send_task_def spec_send_def abs_drivers_find)
next
  case False
  with find_driver_cases inv obtain i where i: "find_driver st pid = int i" "d_pid (drivers st ! i) = pid"
    by (metis find_driver_ge)
  then show ?thesis
    using inv by (simp add: send_task_def spec_send_def abs_drivers_find abs_drivers_set busy_def Let_def)
qed

lemma create_driver_refines_map:
  assumes inv: "drv_inv st" and pid: "pid > 0" and room: "driver_count st < MAX_DRIVERS"
    and fresh: "abs_drivers st pid = None"
  shows "abs_drivers (fst (create_driver st pid)) = (abs_drivers st)(pid \<mapsto> (0, 0))"
proof -
  have "used ((set_driver st (driver_count st) d)\<lparr>driver_count := Suc (driver_count st)\<rparr>) = used st @ [d]" for d
    using inv room by (simp add: used_def drv_inv_def take_Suc_conv_app_nth)
  moreover have "pid \<notin> fst ` set (map (\<lambda>d. (d_pid d, (d_task_timer d, d_task_end_time d))) (used st))"
    using fresh by (simp add: abs_drivers_def map_of_eq_None_iff)
  ultimately show ?thesis
    using pid room by (simp add: create_driver_def Let_def abs_drivers_def map_of_snoc
        flip: map_of_append del: map_of_append)
qed

section \<open>What the split into processes costs\<close>

definition delivers :: "drv_out \<Rightarrow> bool" where
  "delivers out = (case out of Send _ _ \<Rightarrow> True | Kill _ \<Rightarrow> True | Print_connected _ _ \<Rightarrow> True
     | Print_response _ _ \<Rightarrow> True | _ \<Rightarrow> False)"

definition unconnected :: "drv_state \<Rightarrow> bool" where
  "unconnected st \<longleftrightarrow> (\<forall>d\<in>set (used st). d_sock_fd d = -1)"

definition sys_inv :: "drv_sys \<Rightarrow> bool" where
  "sys_inv s \<longleftrightarrow> drv_inv (cli s) \<and> drv_inv (conn s) \<and> driver_count (conn s) = 0
     \<and> unconnected (cli s) \<and> (\<forall>out\<in>set (log s). \<not> delivers out)"

lemma unconnected_nth: "drv_inv st \<Longrightarrow> unconnected st \<Longrightarrow> i < driver_count st \<Longrightarrow> d_sock_fd (drivers st ! i) = -1"
  unfolding unconnected_def drv_inv_def used_def by (metis dual_order.strict_trans2 in_set_conv_nth length_take
      less_imp_le_nat min.absorb2 nth_take)

lemma send_to_unconnected:
  "drv_inv st \<Longrightarrow> unconnected st \<Longrightarrow> i < driver_count st \<Longrightarrow> send_to_driver st i cmd = []"
  by (simp add: send_to_driver_def unconnected_nth)

lemma send_task_unconnected:
  assumes "drv_inv st" "unconnected st"
  shows "unconnected (fst (send_task st pid t now))"
    and "\<forall>out\<in>set (snd (send_task st pid t now)). \<not> delivers out"
proof -
  have "unconnected (fst (send_task st pid t now)) \<and> (\<forall>out\<in>set (snd (send_task st pid t now)). \<not> delivers out)"
  proof (cases "find_driver st pid = -1")
    case False
    with find_driver_cases assms obtain i where i: "find_driver st pid = int i" "i < driver_count st"
      by (metis find_driver_ge)
    then have "unconnected (set_driver st i ((drivers st ! i)\<lparr>d_task_timer := t, d_task_end_time := now + t\<rparr>))"
      using assms unconnected_nth [OF assms i(2)]
      by (auto simp: unconnected_def used_set_driver dest!: set_update_subset_insert [THEN subsetD])
    then show ?thesis
      using i assms by (simp add: send_task_def Let_def send_to_unconnected delivers_def)
  qed (use assms in \<open>simp add: send_task_def delivers_def\<close>)
  then show "unconnected (fst (send_task st pid t now))"
    and "\<forall>out\<in>set (snd (send_task st pid t now)). \<not> delivers out" by auto
qed

lemma create_driver_unconnected:
  assumes "drv_inv st" "unconnected st"
  shows "unconnected (fst (create_driver st pid))"
    and "\<forall>out\<in>set (snd (create_driver st pid)). \<not> delivers out"
proof -
  let ?n = "driver_count st"
  have "used ((set_driver st ?n d)\<lparr>driver_count := Suc ?n\<rparr>) = used st @ [d]" if "?n < MAX_DRIVERS" for d
    using assms(1) that by (simp add: used_def drv_inv_def take_Suc_conv_app_nth)
  then show "unconnected (fst (create_driver st pid))"
    using assms by (simp add: create_driver_def Let_def unconnected_def)
  show "\<forall>out\<in>set (snd (create_driver st pid)). \<not> delivers out"
    by (simp add: create_driver_def Let_def delivers_def)
qed

lemma exit_unconnected: "drv_inv st \<Longrightarrow> unconnected st \<Longrightarrow> exit_outputs st = []"
  by (simp add: exit_outputs_def Let_def unconnected_nth)

lemma status_not_delivers: "\<forall>out\<in>set (print_driver_status st i now). \<not> delivers out"
  by (simp add: print_driver_status_def delivers_def Let_def)

lemma report_not_delivers:
  "\<forall>out\<in>set (get_status st pid now). \<not> delivers out"
  "\<forall>out\<in>set (print_all_drivers st now). \<not> delivers out"
  using status_not_delivers by (auto simp: get_status_def print_all_drivers_def delivers_def Let_def split: if_splits)

lemma cli_line_unconnected:
  assumes inv: "drv_inv st" and un: "unconnected st"
    and line: "cli_line st line fork_pid now = Some (st', out, fin)"
  shows "unconnected st' \<and> (\<forall>ev\<in>set out. \<not> delivers ev)"
proof -
  note c = create_driver_unconnected [OF inv un, of fork_pid] and t = send_task_unconnected [OF inv un]
  from line consider "st' = st" "out = []" | "(st', out) = create_driver st fork_pid"
    | p t where "(st', out) = send_task st p t now" | "st' = st" "out = print_all_drivers st now"
    | p where "st' = st" "out = get_status st p now" | "st' = st" "out = exit_outputs st"
    | "st' = st" "out = [Print_unknown_command]"
    unfolding cli_line_def by (auto simp: Let_def split: option.splits if_splits prod.splits) metis
  then show ?thesis
  proof cases
    case 2
    then show ?thesis using c by (metis fst_conv snd_conv)
  next
    case (3 p tm)
    then show ?thesis using t [of p tm now] by (metis fst_conv snd_conv)
  qed (use un report_not_delivers exit_unconnected [OF inv un] in \<open>auto simp: delivers_def\<close>)
qed

lemma handle_connection_empty:
  assumes "driver_count st = 0"
  shows "fst (handle_connection srv st ev) = st \<and> (\<forall>out\<in>set (snd (handle_connection srv st ev)). \<not> delivers out)"
proof -
  have "find_driver st p = -1" "find_driver_by_fd st fd = -1" for p fd
    using assms by (simp_all add: find_driver_def find_driver_by_fd_def used_def)
  then show ?thesis
    by (auto simp: handle_connection_def delivers_def Let_def split: conn_event.splits option.splits)
qed

lemma drv_init_inv: "drv_inv drv_init"
  by (simp add: drv_init_def drv_inv_def drv_ok_def used_def)

interpretation dsys: transition_system "\<lambda>s. s = sys_init" "sys_step server_sock" sys_inv
proof
  show "sys_inv s" if "s = sys_init" for s
    using that drv_init_inv by (simp add: sys_init_def sys_inv_def unconnected_def used_def drv_init_def)
next
  fix s t
  assume i: "sys_inv s" and st: "sys_step server_sock s t"
  from st show "sys_inv t"
  proof cases
    case (cli_step line fork_pid now c out fin)
    then show ?thesis
      using i cli_line_inv [OF _ cli_step(2)] cli_line_unconnected [OF _ _ cli_step(2)]
      by (auto simp: sys_inv_def)
  next
    case (conn_step ev k out)
    then show ?thesis
      using i handle_connection_empty [of "conn s" server_sock ev] by (auto simp: sys_inv_def)
  qed
qed

section \<open>The command line and the driver's protocol\<close>

lemma starts_digit_not: "\<not> starts_digit []" "digit_val c = None \<Longrightarrow> \<not> starts_digit (c # s)"
  by (simp_all add: starts_digit_def)

lemma newline_not_digit: "digit_val (CHR 0x0A) = None" "digit_val (CHR '' '') = None"
  by (simp_all add: digit_val_def)

lemma length_show_int:
  assumes "in_int n"
  shows "length (show_int n) \<le> 11"
proof -
  have "nat n < 10 ^ 10" "nat (- n) < 10 ^ 10"
    using assms by (auto simp: in_int_def INT_MIN_def INT_MAX_def)
  then have "length (show_nat (nat n)) \<le> 10" "length (show_nat (nat (- n))) \<le> 10"
    by (intro length_show_nat; simp)+
  then show ?thesis by (simp add: show_int_def)
qed

lemma task_command_fits: "in_int t \<Longrightarrow> take 63 (task_command t) = task_command t"
  using length_show_int [of t] by (simp add: task_command_def)

lemma driver_receive_task:
  assumes "in_int t"
  shows "driver_receive (task_command t) = Some ([Print_task t, Reply ''TASK_OK'', Sleep t,
           Reply (''AVAILABLE'' @ [CHR 0x0A]), Print_completed], True)"
proof -
  have "0 \<notin> set (task_command t)"
    using show_int_nonzero [of t] by (auto simp: task_command_def zero_char_def)
  then have "cstr (task_command t) = task_command t" by (rule cstr_id)
  moreover have "scan_d (show_int t @ [CHR 0x0A]) = Some (t, [CHR 0x0A])"
    by (rule scan_d_show_int) (simp add: starts_digit_not newline_not_digit)
  ultimately show ?thesis
    using assms by (simp add: driver_receive_def task_command_def)
qed

definition send_task_line :: "int \<Rightarrow> int \<Rightarrow> string" where
  "send_task_line pid t = ''send_task '' @ show_int pid @ '' '' @ show_int t @ [CHR 0x0A]"

lemma scan_s_word:
  assumes "w \<noteq> []" "\<forall>c\<in>set w. \<not> is_space c" "is_space c"
  shows "scan_s (w @ c # s) = Some (w, c # s)"
proof -
  have "dropWhile is_space (w @ c # s) = w @ c # s" using assms by (cases w) auto
  moreover have "takeWhile (\<lambda>c. \<not> is_space c) (w @ c # s) = w"
    using assms by (simp add: takeWhile_append)
  ultimately show ?thesis using assms by (simp add: scan_s_def Let_def)
qed

lemma cli_send_task:
  assumes "in_int pid" "in_int t"
  shows "cli_line st (send_task_line pid t) fork_pid now
           = Some (fst (send_task st pid t now), snd (send_task st pid t now), False)"
proof -
  have sp: "is_space (CHR '' '')" by (simp add: is_space_def)
  have "scan_s (''send_task'' @ CHR '' '' # (show_int pid @ '' '' @ show_int t @ [CHR 0x0A]))
      = Some (''send_task'', CHR '' '' # (show_int pid @ '' '' @ show_int t @ [CHR 0x0A]))"
    by (rule scan_s_word) (simp_all add: is_space_def)
  then have a: "scan_s (send_task_line pid t)
      = Some (''send_task'', CHR '' '' # (show_int pid @ '' '' @ show_int t @ [CHR 0x0A]))"
    by (simp add: send_task_line_def)
  have "scan_d (show_int pid @ '' '' @ show_int t @ [CHR 0x0A]) = Some (pid, '' '' @ show_int t @ [CHR 0x0A])"
    "scan_d (show_int t @ [CHR 0x0A]) = Some (t, [CHR 0x0A])"
    by (rule scan_d_show_int, simp add: starts_digit_not newline_not_digit)+
  then have "scan_ints 2 (CHR '' '' # (show_int pid @ '' '' @ show_int t @ [CHR 0x0A])) = Some [pid, t]"
    using assms sp by (simp add: scan_d_skip numeral_2_eq_2)
  then show ?thesis using a by (simp add: cli_line_def split: prod.split)
qed

section \<open>Properties\<close>

text \<open>
  Claim C5. Tables of the driver manager: every line of the CLI that does not run into undefined
  behaviour and every event of the connection process keep the table well formed: at most 100 drivers,
  all of them active, and a receive buffer that is empty between events, so that the \<^verbatim>\<open>recv\<close> of line 189
  and the NUL store of line 194 stay inside \<^verbatim>\<open>recv_buf\<close>. The CLI's commands act on the table as on a
  map from pids to tasks: a new driver is added with no task, and a task is recorded with its deadline
  exactly when the driver is known and idle.
\<close>

theorem driver_table_refines:
  assumes "drv_inv st"
  shows "(\<forall>line fork_pid now st' out fin.
            cli_line st line fork_pid now = Some (st', out, fin) \<longrightarrow> drv_inv st')
    \<and> (\<forall>srv ev. drv_inv (fst (handle_connection srv st ev)))
    \<and> (\<forall>pid t now. abs_drivers (fst (send_task st pid t now)) = spec_send (abs_drivers st) pid t now)
    \<and> (\<forall>pid. 0 < pid \<longrightarrow> driver_count st < MAX_DRIVERS \<longrightarrow> abs_drivers st pid = None
          \<longrightarrow> abs_drivers (fst (create_driver st pid)) = (abs_drivers st)(pid \<mapsto> (0, 0)))"
  using assms cli_line_inv handle_connection_drv_inv send_task_refines_map create_driver_refines_map
  by simp

theorem driver_table_refines_witness:
  "drv_inv drv_init \<and> abs_drivers (fst (create_driver drv_init 7)) = [7 \<mapsto> (0, 0)]"
proof -
  have "abs_drivers drv_init = Map.empty" "driver_count drv_init = 0"
    by (simp_all add: abs_drivers_def used_def drv_init_def)
  then show ?thesis
    using driver_table_refines [OF drv_init_inv] drv_init_inv by simp
qed

text \<open>
  Claim C6. A task excludes the next one: once \<^verbatim>\<open>send_task\<close> has accepted a task of \<open>t\<close> seconds for a
  driver, each further \<^verbatim>\<open>send_task\<close> to it before the deadline is refused with the seconds that remain
  and changes nothing, and \<^verbatim>\<open>get_status\<close> reports the same; from the deadline on a task is accepted.
\<close>

theorem send_task_exclusive:
  assumes inv: "drv_inv st" and known: "find_driver st pid \<noteq> -1"
    and idle: "\<not> busy (drivers st ! nat (find_driver st pid)) now" and t: "0 < t" "in_int t"
    and st': "st' = fst (send_task st pid t now)" and later: "now \<le> now'"
  shows "if now' < now + t
         then send_task st' pid t' now' = (st', [Print_busy_error pid (now + t - now')])
           \<and> get_status st' pid now' = [Print_busy pid (now + t - now')]
         else Print_task_sent pid t' \<in> set (snd (send_task st' pid t' now'))"
proof -
  from known find_driver_cases inv obtain i where i: "find_driver st pid = int i" "i < driver_count st"
    "d_pid (drivers st ! i) = pid" by (metis find_driver_ge)
  let ?d = "(drivers st ! i)\<lparr>d_task_timer := t, d_task_end_time := now + t\<rparr>"
  have s: "st' = set_driver st i ?d"
    using st' idle i by (simp add: send_task_def Let_def)
  have "i < length (drivers st)" using inv i(2) by (auto simp: drv_inv_def)
  then have d: "drivers st' ! i = ?d" using s by simp
  have f: "find_driver st' pid = int i"
  proof -
    have fi: "first_index (\<lambda>d. d_pid d = pid \<and> d_active d) (used st) = Some i"
      using i(1) by (auto simp: find_driver_def c_index_def split: option.splits)
    then have "first_index (\<lambda>d. d_pid d = pid \<and> d_active d) ((used st)[i := ?d]) = Some i"
      using i by (auto simp: first_index_Some_iff used_def)
    then show ?thesis using s i(2) by (simp add: find_driver_def used_set_driver)
  qed
  have "c_int (now + t - now') = now + t - now'" if "now' < now + t"
    using that later t by (intro c_int_id) (auto simp: in_int_def INT_MIN_def INT_MAX_def)
  then show ?thesis
    using f d t(1) i(3) by (simp add: send_task_def get_status_def print_driver_status_def busy_def Let_def)
qed

theorem send_task_exclusive_witness:
  "let st = fst (create_driver drv_init 7); st' = fst (send_task st 7 10 100)
   in send_task st' 7 5 104 = (st', [Print_busy_error 7 6])"
proof -
  let ?st = "fst (create_driver drv_init 7)"
  have f: "find_driver ?st 7 = 0" and a: "drivers ?st ! 0 = (drivers drv_init ! 0)\<lparr>d_pid := 7,
      d_active := True, d_sock_fd := -1\<rparr>"
    by (simp_all add: create_driver_def find_driver_def used_def drv_init_def Let_def take_Cons'
        c_index_def numeral_eq_Suc)
  have inv: "drv_inv ?st" by (rule create_driver_inv [OF drv_init_inv])
  have idle: "\<not> busy (drivers ?st ! nat (find_driver ?st 7)) 100"
    using f a by (simp add: busy_def drv_init_def)
  show ?thesis
    using send_task_exclusive [OF inv _ idle, of 10 _ 104 5] f
    by (simp add: Let_def in_int_def INT_MIN_def INT_MAX_def)
qed

text \<open>
  Claim C7. The command language: the line \<^verbatim>\<open>send_task <pid> <timer>\<close> that the CLI's help prints runs
  \<^verbatim>\<open>send_task\<close> with those two numbers for every pid and timer of type \<^verbatim>\<open>int\<close>; the message
  \<^verbatim>\<open>TASK:<timer>\<close> it sends to a connected driver fits \<^verbatim>\<open>cmd[64]\<close>, and the driver reads it back as a
  sleep of that many seconds, answered by \<^verbatim>\<open>TASK_OK\<close> (without its newline) and \<^verbatim>\<open>AVAILABLE\<close>. The
  message \<^verbatim>\<open>EXIT\<close> with the newline that \<^verbatim>\<open>main\<close> sends is ignored.
\<close>

theorem task_round_trip:
  assumes "in_int pid" "in_int t"
  shows "cli_line st (send_task_line pid t) fork_pid now
           = Some (fst (send_task st pid t now), snd (send_task st pid t now), False)
    \<and> take 63 (task_command t) = task_command t
    \<and> driver_receive (task_command t) = Some ([Print_task t, Reply ''TASK_OK'', Sleep t,
           Reply (''AVAILABLE'' @ [CHR 0x0A]), Print_completed], True)
    \<and> driver_receive (''EXIT'' @ [CHR 0x0A]) = Some ([], True)"
proof (intro conjI)
  show "driver_receive (''EXIT'' @ [CHR 0x0A]) = Some ([], True)"
    by (simp add: driver_receive_def cstr_Cons zero_char_def)
qed (use assms in \<open>simp_all only: cli_send_task task_command_fits driver_receive_task\<close>)

theorem task_round_trip_witness:
  "driver_receive (task_command 5) = Some ([Print_task 5, Reply ''TASK_OK'', Sleep 5,
     Reply (''AVAILABLE'' @ [CHR 0x0A]), Print_completed], True)"
  using task_round_trip [of 0 5] by (simp add: in_int_def INT_MIN_def INT_MAX_def)

text \<open>
  No task reaches a driver: the CLI and the process that accepts the drivers' connections are
  forked apart before the first driver exists, so the table of the latter stays empty, it rejects every
  connection, and every driver of the CLI keeps \<^verbatim>\<open>sock_fd = -1\<close>. In no run of the two does the
  program send a message, kill a driver, report a connection or print a response.
\<close>

theorem tasks_never_delivered:
  assumes "(sys_step server_sock)\<^sup>*\<^sup>* sys_init s"
  shows "driver_count (conn s) = 0 \<and> (\<forall>out\<in>set (log s). \<not> delivers out)
    \<and> handle_connection server_sock (conn s) (Accepted fd (Some pid)) = (conn s, [Print_rejected pid, Close fd])"
proof -
  have "sys_inv s" using assms by (intro dsys.reach_inv) (auto simp: dsys.reach_def)
  then have "driver_count (conn s) = 0" "\<forall>out\<in>set (log s). \<not> delivers out"
    by (auto simp: sys_inv_def)
  then show ?thesis by (simp add: handle_connection_def find_driver_def used_def)
qed

theorem tasks_never_delivered_witness:
  "\<exists>s. (sys_step 3)\<^sup>*\<^sup>* sys_init s \<and> driver_count (cli s) = 1
    \<and> handle_connection 3 (conn s) (Accepted 5 (Some 7)) = (conn s, [Print_rejected 7, Close 5])"
proof -
  have "scan_s (''create_driver'' @ CHR 0x0A # []) = Some (''create_driver'', CHR 0x0A # [])"
    by (rule scan_s_word) (simp_all add: is_space_def)
  then have l: "cli_line (cli sys_init) (''create_driver'' @ [CHR 0x0A]) 7 0
      = Some (fst (create_driver drv_init 7), snd (create_driver drv_init 7), False)"
    by (simp add: cli_line_def sys_init_def split: prod.split)
  define s where "s = sys_init\<lparr>cli := fst (create_driver drv_init 7),
      log := log sys_init @ snd (create_driver drv_init 7)\<rparr>"
  have r: "(sys_step 3)\<^sup>*\<^sup>* sys_init s"
    unfolding s_def using sys_step.cli_step [OF l, of 3] by blast
  have "driver_count (cli s) = 1" by (simp add: s_def create_driver_def drv_init_def Let_def)
  then show ?thesis using r tasks_never_delivered [OF r, of 5 7] by blast
qed

end
