(* ===== verification/DriverNet.thy ===== *)
theory DriverNet
  imports Drivers
begin

text \<open>
  The driver manager of \<^verbatim>\<open>final_hw_2/main.c\<close> with all its processes: the command line and the connection process of
  \<open>Drivers\<close>, one process per created driver, and between them the listening socket with its queue, the
  edge-triggered \<^verbatim>\<open>epoll\<close> descriptor and the connections. An action is one system call of one process with what
  the code does up to the next call; \<open>net_act\<close> gives the state after it, or \<open>None\<close> when the call blocks, the
  action does not exist or C leaves the behaviour undefined.
\<close>

section \<open>The processes and their connections\<close>

text \<open>
  A driver's position: before \<^verbatim>\<open>connect\<close>, before it sends its pid, in \<^verbatim>\<open>recv\<close>, with actions left for a message, or
  ended. Its socket: not connected, in the queue of the listening socket, accepted as a descriptor of
  the connection process, or closed there.
\<close>

datatype kid_at = K_connect | K_announce | K_recv | K_do "child_out list" bool | K_exit int | K_killed

datatype side = Unlinked | Queued | Held int | Shut

text \<open>What was sent and not yet received: \<open>k_up\<close> to the manager, first the pid, and \<open>k_down\<close> to the driver.\<close>

record kid =
  k_pid :: int
  k_at :: kid_at
  k_side :: side
  k_up :: "(int + string) list"
  k_down :: "string list"

text \<open>
  \<open>cmd\<close> is the table of the command line while it runs, \<open>acc\<close> that of the connection process; \<open>taking\<close> is the
  driver whose connection was accepted and whose pid is read next; \<open>edge\<close> tells whether a connection came
  since the last event on the listening socket; \<open>watched\<close> are the other descriptors in \<^verbatim>\<open>epoll_fd\<close>, and
  \<open>there\<close> tells whether the socket file exists.
\<close>

record net =
  cmd :: "drv_state option"
  acc :: drv_state
  taking :: "nat option"
  kids :: "kid list"
  backlog :: "nat list"
  edge :: bool
  watched :: "int set"
  there :: bool
  said :: "drv_out list"

definition net_start :: net where
  "net_start = \<lparr>cmd = Some drv_init, acc = drv_init, taking = None, kids = [], backlog = [], edge = False,
     watched = {}, there = True, said = []\<rparr>"

definition ended :: "kid \<Rightarrow> bool" where
  "ended k = (case k_at k of K_exit _ \<Rightarrow> True | K_killed \<Rightarrow> True | _ \<Rightarrow> False)"

abbreviation set_kid :: "nat \<Rightarrow> kid \<Rightarrow> net \<Rightarrow> net" where
  "set_kid i k n \<equiv> n\<lparr>kids := (kids n)[i := k]\<rparr>"

definition new_kid :: "int \<Rightarrow> kid" where
  "new_kid pid = \<lparr>k_pid = pid, k_at = K_connect, k_side = Unlinked, k_up = [], k_down = []\<rparr>"

section \<open>The command line\<close>

text \<open>
  What an output of the command line does to the others. Its \<^verbatim>\<open>fork\<close> starts the driver; its descriptors are
  not those of the connection process, so that what it sends reaches nobody.
\<close>

fun cmd_effect :: "drv_out \<Rightarrow> net \<Rightarrow> net" where
  "cmd_effect (Print_created pid) n = n\<lparr>kids := kids n @ [new_kid pid]\<rparr>"
| "cmd_effect (Kill pid) n =
     n\<lparr>kids := map (\<lambda>k. if k_pid k = pid \<and> \<not> ended k then k\<lparr>k_at := K_killed\<rparr> else k) (kids n)\<rparr>"
| "cmd_effect out n = n"

text \<open>After the loop: both descriptors closed, the file removed. The connection process is not told.\<close>

definition cli_exits :: "net \<Rightarrow> net" where
  "cli_exits n = n\<lparr>cmd := None, there := False\<rparr>"

definition cli_reads :: "string \<Rightarrow> int \<Rightarrow> int \<Rightarrow> net \<Rightarrow> net option" where
  "cli_reads line fork_pid now n =
     (case cmd n of None \<Rightarrow> None
      | Some st \<Rightarrow>
        if fork_pid \<noteq> -1 \<and> (fork_pid \<le> 0 \<or> fork_pid \<in> k_pid ` set (kids n)) then None
        else (case cli_line st line fork_pid now of None \<Rightarrow> None
              | Some (st, out, fin) \<Rightarrow>
                let n = fold cmd_effect out (n\<lparr>said := said n @ out\<rparr>)
                in Some (if fin then cli_exits n else n\<lparr>cmd := Some st\<rparr>)))"

section \<open>A driver\<close>

text \<open>
  \<^verbatim>\<open>connect\<close> fails and is tried again while there is no file, and blocks while more than five connections wait;
  sending to a closed socket is a \<^verbatim>\<open>SIGPIPE\<close>, receiving from one ends the loop.
\<close>

definition kid_goes :: "nat \<Rightarrow> net \<Rightarrow> net option" where
  "kid_goes i n =
     (if i \<ge> length (kids n) then None else let k = kids n ! i in
      case k_at k of
        K_connect \<Rightarrow>
          if \<not> there n then Some n
          else if length (backlog n) > 5 then None
          else Some (set_kid i (k\<lparr>k_at := K_announce, k_side := Queued\<rparr>) (n\<lparr>backlog := backlog n @ [i], edge := True\<rparr>))
      | K_announce \<Rightarrow>
          Some (set_kid i (if k_side k = Shut then k\<lparr>k_at := K_killed\<rparr>
                           else k\<lparr>k_up := k_up k @ [Inl (k_pid k)], k_at := K_recv\<rparr>) n)
      | K_recv \<Rightarrow>
          (case k_down k of
             [] \<Rightarrow> if k_side k = Shut then Some (set_kid i (k\<lparr>k_at := K_exit 0\<rparr>) n) else None
           | m # ms \<Rightarrow>
               map_option (\<lambda>(out, goes_on). set_kid i (k\<lparr>k_down := ms, k_at := K_do out goes_on\<rparr>) n) (driver_receive m))
      | K_do [] goes_on \<Rightarrow> Some (set_kid i (k\<lparr>k_at := if goes_on then K_recv else K_exit 0\<rparr>) n)
      | K_do (Reply s # as) goes_on \<Rightarrow>
          Some (set_kid i (if k_side k = Shut then k\<lparr>k_at := K_killed\<rparr>
                           else k\<lparr>k_up := k_up k @ [Inr s], k_at := K_do as goes_on\<rparr>) n)
      | K_do (_ # as) goes_on \<Rightarrow> Some (set_kid i (k\<lparr>k_at := K_do as goes_on\<rparr>) n)
      | _ \<Rightarrow> None)"

text \<open>\<^verbatim>\<open>socket\<close> fails, or \<^verbatim>\<open>connect\<close> with another error: \<^verbatim>\<open>exit(1)\<close>.\<close>

definition kid_refused :: "nat \<Rightarrow> net \<Rightarrow> net option" where
  "kid_refused i n =
     (if i < length (kids n) \<and> k_at (kids n ! i) = K_connect
      then Some (set_kid i ((kids n ! i)\<lparr>k_at := K_exit 1\<rparr>) n) else None)"

section \<open>The connection process\<close>

fun conn_effect :: "int \<Rightarrow> drv_out \<Rightarrow> net \<Rightarrow> net" where
  "conn_effect server_sock (Close fd) n =
     n\<lparr>kids := map (\<lambda>k. if k_side k = Held fd then k\<lparr>k_side := Shut\<rparr> else k) (kids n), watched := watched n - {fd}\<rparr>"
| "conn_effect server_sock (Send fd s) n =
     n\<lparr>kids := map (\<lambda>k. if k_side k = Held fd then k\<lparr>k_down := k_down k @ [s]\<rparr> else k) (kids n)\<rparr>"
| "conn_effect server_sock (Epoll_add fd) n = n\<lparr>watched := insert fd (watched n)\<rparr>"
| "conn_effect server_sock (Epoll_mod fd) n = (if fd = server_sock then n\<lparr>edge := True\<rparr> else n)"
| "conn_effect server_sock out n = n"

definition handles :: "int \<Rightarrow> conn_event \<Rightarrow> net \<Rightarrow> net" where
  "handles server_sock ev n =
     (case handle_connection server_sock (acc n) ev of (st, out) \<Rightarrow>
        fold (conn_effect server_sock) out (n\<lparr>acc := st, said := said n @ out\<rparr>))"

text \<open>
  The event on the listening socket, reported once for all connections that came since the last one, and
  then the one \<^verbatim>\<open>accept\<close> of the code, which may fail.
\<close>

definition listen_event :: "net \<Rightarrow> bool" where
  "listen_event n \<longleftrightarrow> taking n = None \<and> edge n \<and> backlog n \<noteq> []"

definition conn_accepts :: "int \<Rightarrow> int \<Rightarrow> net \<Rightarrow> net option" where
  "conn_accepts server_sock fd n =
     (if listen_event n \<and> 0 \<le> fd \<and> fd \<noteq> server_sock \<and> Held fd \<notin> k_side ` set (kids n)
      then (let i = hd (backlog n)
            in Some (set_kid i ((kids n ! i)\<lparr>k_side := Held fd\<rparr>)
                 (n\<lparr>edge := False, backlog := tl (backlog n), taking := Some i\<rparr>)))
      else None)"

definition conn_accept_fails :: "int \<Rightarrow> bool \<Rightarrow> net \<Rightarrow> net option" where
  "conn_accept_fails server_sock transient n =
     (if listen_event n then Some (handles server_sock (Accept_failed transient) (n\<lparr>edge := False\<rparr>)) else None)"

text \<open>The \<^verbatim>\<open>recv\<close> of the pid, which does not wait for it.\<close>

definition conn_takes :: "int \<Rightarrow> net \<Rightarrow> net option" where
  "conn_takes server_sock n =
     (case taking n of None \<Rightarrow> None
      | Some i \<Rightarrow>
        let k = kids n ! i
        in case k_side k of
             Held fd \<Rightarrow>
               Some (handles server_sock (Accepted fd (case k_up k of Inl p # _ \<Rightarrow> Some p | _ \<Rightarrow> None))
                 (set_kid i (k\<lparr>k_up := tl (k_up k)\<rparr>) (n\<lparr>taking := None\<rparr>)))
           | _ \<Rightarrow> None)"

text \<open>An event on a connection that is in \<^verbatim>\<open>epoll_fd\<close>: a message, or the driver's end of the connection is closed.\<close>

definition conn_reads :: "int \<Rightarrow> nat \<Rightarrow> net \<Rightarrow> net option" where
  "conn_reads server_sock i n =
     (if taking n \<noteq> None \<or> i \<ge> length (kids n) then None else let k = kids n ! i in
      case k_side k of
        Held fd \<Rightarrow>
          if fd \<notin> watched n then None
          else (case k_up k of
                  Inr s # us \<Rightarrow> Some (handles server_sock (Readable fd (Inl s)) (set_kid i (k\<lparr>k_up := us\<rparr>) n))
                | [] \<Rightarrow> if ended k then Some (handles server_sock (Readable fd (Inl [])) n) else None
                | _ \<Rightarrow> None)
      | _ \<Rightarrow> None)"

section \<open>Runs\<close>

datatype action = Line string int int | Input_ends | Kid nat | Kid_refused nat
  | Accept int | Accept_fails bool | Take | Read nat

fun net_act :: "int \<Rightarrow> action \<Rightarrow> net \<Rightarrow> net option" where
  "net_act server_sock (Line l fork_pid now) n = cli_reads l fork_pid now n"
| "net_act server_sock Input_ends n = (if cmd n = None then None else Some (cli_exits n))"
| "net_act server_sock (Kid i) n = kid_goes i n"
| "net_act server_sock (Kid_refused i) n = kid_refused i n"
| "net_act server_sock (Accept fd) n = conn_accepts server_sock fd n"
| "net_act server_sock (Accept_fails transient) n = conn_accept_fails server_sock transient n"
| "net_act server_sock Take n = conn_takes server_sock n"
| "net_act server_sock (Read i) n = conn_reads server_sock i n"

fun net_acts :: "int \<Rightarrow> action list \<Rightarrow> net \<Rightarrow> net option" where
  "net_acts server_sock [] n = Some n"
| "net_acts server_sock (a # as) n = Option.bind (net_act server_sock a n) (net_acts server_sock as)"

section \<open>The invariant\<close>

text \<open>
  A driver never gets a message; as long as the connection process has not closed its socket there is nothing
  to receive for it. The drivers with a waiting connection are those in the queue, and at most one
  connection is accepted and not closed. The command line has an entry for every driver that ever was.
\<close>

definition kid_ok :: "kid \<Rightarrow> bool" where
  "kid_ok k \<longleftrightarrow> k_down k = []
     \<and> (case k_at k of
          K_connect \<Rightarrow> k_side k = Unlinked \<and> k_up k = []
        | K_announce \<Rightarrow> k_side k \<noteq> Unlinked \<and> k_up k = []
        | K_recv \<Rightarrow> k_side k \<noteq> Unlinked \<and> (k_side k \<noteq> Shut \<longrightarrow> k_up k = [Inl (k_pid k)])
        | K_do _ _ \<Rightarrow> False
        | K_exit c \<Rightarrow> c = 0 \<and> k_side k = Shut \<or> c = 1 \<and> k_side k = Unlinked
        | K_killed \<Rightarrow> k_side k = Shut)"

definition sockets_ok :: "net \<Rightarrow> bool" where
  "sockets_ok n \<longleftrightarrow> distinct (backlog n)
     \<and> (\<forall>i. i \<in> set (backlog n) \<longleftrightarrow> i < length (kids n) \<and> k_side (kids n ! i) = Queued)
     \<and> (\<forall>i. taking n = Some i \<longleftrightarrow> i < length (kids n) \<and> (\<exists>fd. k_side (kids n ! i) = Held fd))"

definition cli_knows :: "net \<Rightarrow> bool" where
  "cli_knows n = (case cmd n of None \<Rightarrow> \<not> there n
     | Some st \<Rightarrow> there n \<and> drv_inv st \<and> unconnected st \<and> map d_pid (used st) = map k_pid (kids n))"

definition net_inv :: "net \<Rightarrow> bool" where
  "net_inv n \<longleftrightarrow> cli_knows n \<and> acc n = drv_init \<and> watched n = {} \<and> (\<forall>out\<in>set (said n). \<not> delivers out)
     \<and> distinct (map k_pid (kids n)) \<and> (\<forall>k\<in>set (kids n). kid_ok k) \<and> sockets_ok n"

lemma net_start_inv: "net_inv net_start"
proof -
  have "used drv_init = []" by (simp add: used_def drv_init_def)
  then show ?thesis by (simp add: net_start_def net_inv_def cli_knows_def sockets_ok_def drv_init_inv unconnected_def)
qed

subsection \<open>The command line\<close>

definition created :: "drv_out list \<Rightarrow> int list" where
  "created out = concat (map (\<lambda>x. case x of Print_created p \<Rightarrow> [p] | _ \<Rightarrow> []) out)"

lemma created_simps [simp]: "created [] = []"
  "created (x # out) = (case x of Print_created p \<Rightarrow> [p] | _ \<Rightarrow> []) @ created out"
  "created (xs @ ys) = created xs @ created ys"
  by (simp_all add: created_def)

lemma cmd_effects:
  "\<forall>x\<in>set out. \<not> delivers x \<Longrightarrow> fold cmd_effect out n = n\<lparr>kids := kids n @ map new_kid (created out)\<rparr>"
proof (induction out arbitrary: n)
  case (Cons x out)
  then show ?case by (cases x) (simp_all add: delivers_def)
qed simp

lemma created_status: "created (print_driver_status st i now) = []"
  by (simp add: print_driver_status_def Let_def)

lemma created_all: "created (print_all_drivers st now) = []"
proof -
  have "created (concat (map (\<lambda>i. if d_active (drivers st ! i) then print_driver_status st i now else []) js)) = []" for js
    by (induction js) (simp_all add: created_status)
  then show ?thesis by (simp add: print_all_drivers_def)
qed

lemma used_create:
  assumes "drv_inv st"
  shows "map d_pid (used (fst (create_driver st pid))) = map d_pid (used st) @ created (snd (create_driver st pid))"
    and "created (snd (create_driver st pid)) \<noteq> [] \<Longrightarrow> 0 < pid \<and> created (snd (create_driver st pid)) = [pid]"
proof -
  let ?n = "driver_count st"
  have "used ((set_driver st ?n d)\<lparr>driver_count := Suc ?n\<rparr>) = used st @ [d]" if "?n < MAX_DRIVERS" for d
    using assms that by (simp add: used_def drv_inv_def take_Suc_conv_app_nth)
  then show "map d_pid (used (fst (create_driver st pid))) = map d_pid (used st) @ created (snd (create_driver st pid))"
    by (simp add: create_driver_def Let_def)
qed (simp add: create_driver_def Let_def split: if_splits)

lemma used_send_task:
  assumes "drv_inv st" "unconnected st"
  shows "map d_pid (used (fst (send_task st p t now))) = map d_pid (used st)" "created (snd (send_task st p t now)) = []"
proof -
  have "map d_pid (used (fst (send_task st p t now))) = map d_pid (used st) \<and> created (snd (send_task st p t now)) = []"
  proof (cases "find_driver st p = -1")
    case False
    with find_driver_cases assms obtain i where i: "find_driver st p = int i" "i < driver_count st" "used st ! i = drivers st ! i"
      by (metis find_driver_ge)
    have "(map d_pid (used st))[i := d_pid (drivers st ! i)] = map d_pid (used st)"
      using i assms by (metis drv_inv_def length_map length_take list_update_id map_update min.absorb2 nth_map used_def)
    then show ?thesis using i assms by (simp add: send_task_def Let_def used_set_driver map_update send_to_unconnected)
  qed (simp add: send_task_def)
  then show "map d_pid (used (fst (send_task st p t now))) = map d_pid (used st)" "created (snd (send_task st p t now)) = []"
    by simp_all
qed

lemma cli_line_creates:
  assumes inv: "drv_inv st" and un: "unconnected st"
    and line: "cli_line st line fork_pid now = Some (st', out, fin)"
  shows "map d_pid (used st') = map d_pid (used st) @ created out"
    and "created out = [] \<or> 0 < fork_pid \<and> created out = [fork_pid]"
proof -
  from line consider "st' = st" "out = []" | "(st', out) = create_driver st fork_pid"
    | p t where "(st', out) = send_task st p t now" | "st' = st" "out = print_all_drivers st now"
    | p where "st' = st" "out = get_status st p now" | "st' = st" "out = exit_outputs st"
    | "st' = st" "out = [Print_unknown_command]"
    unfolding cli_line_def by (auto simp: Let_def split: option.splits if_splits prod.splits) metis
  then have "map d_pid (used st') = map d_pid (used st) @ created out
    \<and> (created out = [] \<or> 0 < fork_pid \<and> created out = [fork_pid])"
  proof cases
    case 2
    then show ?thesis using used_create [OF inv, of fork_pid] by (metis fst_conv snd_conv)
  next
    case (3 p t)
    then show ?thesis using used_send_task [OF inv un, of p t now] by (metis append_Nil2 fst_conv snd_conv)
  next
    case (5 p)
    then show ?thesis by (simp add: get_status_def created_status Let_def)
  qed (simp_all add: created_all exit_unconnected [OF inv un])
  then show "map d_pid (used st') = map d_pid (used st) @ created out"
    and "created out = [] \<or> 0 < fork_pid \<and> created out = [fork_pid]" by simp_all
qed

lemma new_kid_ok: "kid_ok (new_kid p)"
  by (simp add: kid_ok_def new_kid_def)

lemma sockets_new_kids:
  "sockets_ok n \<Longrightarrow> kids n' = kids n @ map new_kid ps \<Longrightarrow> backlog n' = backlog n \<Longrightarrow> taking n' = taking n \<Longrightarrow> sockets_ok n'"
  by (auto simp: sockets_ok_def nth_append new_kid_def)

lemma cli_reads_effect:
  assumes inv: "net_inv n" and go: "cli_reads line fork_pid now n = Some n'"
  obtains st st' out fin where "cmd n = Some st" "cli_line st line fork_pid now = Some (st', out, fin)"
    "fork_pid = -1 \<or> 0 < fork_pid \<and> fork_pid \<notin> k_pid ` set (kids n)"
    "kids n' = kids n @ map new_kid (created out)" "said n' = said n @ out"
    "cmd n' = (if fin then None else Some st')" "there n' \<longleftrightarrow> there n \<and> \<not> fin"
    "backlog n' = backlog n" "taking n' = taking n" "acc n' = acc n" "watched n' = watched n" "edge n' = edge n"
proof -
  from go obtain st st' out fin where c: "cmd n = Some st" "cli_line st line fork_pid now = Some (st', out, fin)"
    and f: "fork_pid = -1 \<or> 0 < fork_pid \<and> fork_pid \<notin> k_pid ` set (kids n)"
    and n': "n' = (if fin then cli_exits (fold cmd_effect out (n\<lparr>said := said n @ out\<rparr>))
       else (fold cmd_effect out (n\<lparr>said := said n @ out\<rparr>))\<lparr>cmd := Some st'\<rparr>)"
    by (auto simp: cli_reads_def Let_def split: option.splits if_splits)
  have "\<forall>x\<in>set out. \<not> delivers x"
    using cli_line_unconnected [OF _ _ c(2)] inv c(1) by (simp add: net_inv_def cli_knows_def)
  then show ?thesis by (intro that [OF c f]) (simp_all add: n' cmd_effects cli_exits_def)
qed

lemma cli_reads_inv:
  assumes inv: "net_inv n" and go: "cli_reads line fork_pid now n = Some n'"
  shows "net_inv n'"
proof -
  from cli_reads_effect [OF assms] obtain st st' out fin
    where c: "cmd n = Some st" "cli_line st line fork_pid now = Some (st', out, fin)"
      "fork_pid = -1 \<or> 0 < fork_pid \<and> fork_pid \<notin> k_pid ` set (kids n)"
    and e: "kids n' = kids n @ map new_kid (created out)" "said n' = said n @ out"
      "cmd n' = (if fin then None else Some st')" "there n' \<longleftrightarrow> there n \<and> \<not> fin"
    and same: "backlog n' = backlog n" "taking n' = taking n" "acc n' = acc n" "watched n' = watched n" by metis
  have i: "drv_inv st" "unconnected st" "map d_pid (used st) = map k_pid (kids n)" "there n"
    using inv c(1) by (simp_all add: net_inv_def cli_knows_def)
  note u = cli_line_unconnected [OF i(1,2) c(2)] and cr = cli_line_creates [OF i(1,2) c(2)]
  have d: "distinct (map k_pid (kids n'))" using inv c(3) cr(2) by (auto simp: e(1) net_inv_def new_kid_def)
  have k: "\<forall>k\<in>set (kids n'). kid_ok k" using inv new_kid_ok by (auto simp: e(1) net_inv_def)
  have "map d_pid (used st') = map k_pid (kids n')" using cr(1) i(3) by (simp add: e(1) new_kid_def comp_def)
  then have "cli_knows n'" using u i(4) cli_line_inv [OF i(1) c(2)] by (simp add: cli_knows_def e(3,4))
  moreover have "sockets_ok n'" using sockets_new_kids [OF _ e(1) same(1,2)] inv by (simp add: net_inv_def)
  ultimately show ?thesis using inv d k u by (auto simp: net_inv_def same e(2))
qed

subsection \<open>A driver\<close>

lemma kid_ok_nth: "net_inv n \<Longrightarrow> i < length (kids n) \<Longrightarrow> kid_ok (kids n ! i)"
  by (simp add: net_inv_def)

lemma pids_update:
  "i < length ks \<Longrightarrow> k_pid k = k_pid (ks ! i) \<Longrightarrow> map k_pid (ks[i := k]) = map k_pid ks"
  by (metis list_update_id map_update)

text \<open>All of the invariant but the sockets, for a change of one driver that leaves the rest alone.\<close>

lemma set_kid_inv:
  assumes "net_inv n" "i < length (kids n)" "kid_ok k" "k_pid k = k_pid (kids n ! i)" "sockets_ok n'"
    and "kids n' = (kids n)[i := k]" "cmd n' = cmd n" "there n' = there n" "acc n' = acc n" "watched n' = watched n"
    and "\<forall>out\<in>set (said n'). \<not> delivers out"
  shows "net_inv n'"
proof -
  have p: "map k_pid (kids n') = map k_pid (kids n)" using assms(2,4,6) pids_update [of i "kids n" k] by simp
  have "\<forall>k\<in>set (kids n'). kid_ok k"
    using assms(1,3,6) set_update_subset_insert [of "kids n" i k] by (auto simp: net_inv_def)
  moreover have "cli_knows n' = cli_knows n" unfolding cli_knows_def assms(7,8) p ..
  ultimately show ?thesis using assms p by (simp add: net_inv_def)
qed

lemma sockets_same_side:
  "i < length (kids n) \<Longrightarrow> k_side k = k_side (kids n ! i) \<Longrightarrow> sockets_ok n \<Longrightarrow> sockets_ok (set_kid i k n)"
  by (auto simp: sockets_ok_def nth_list_update)

lemma same_side_inv:
  assumes "net_inv n" "i < length (kids n)" "kid_ok k" "k_pid k = k_pid (kids n ! i)" "k_side k = k_side (kids n ! i)"
  shows "net_inv (set_kid i k n)"
proof (rule set_kid_inv [OF assms(1-4)])
  show "sockets_ok (set_kid i k n)" using assms by (intro sockets_same_side) (simp_all add: net_inv_def)
qed (use assms(1) in \<open>simp_all add: net_inv_def\<close>)

lemma kid_goes_inv:
  assumes inv: "net_inv n" and go: "kid_goes i n = Some n'"
  shows "net_inv n'"
proof -
  have i: "i < length (kids n)" using go by (simp add: kid_goes_def split: if_splits)
  let ?k = "kids n ! i"
  have ok: "kid_ok ?k" by (rule kid_ok_nth [OF inv i])
  show ?thesis
  proof (cases "k_at ?k")
    case K_connect
    show ?thesis
    proof (cases "there n")
      case True
      let ?k' = "?k\<lparr>k_at := K_announce, k_side := Queued\<rparr>"
      have n': "n' = set_kid i ?k' (n\<lparr>backlog := backlog n @ [i], edge := True\<rparr>)"
        using go i K_connect True by (simp add: kid_goes_def Let_def split: if_splits)
      have u: "k_side ?k = Unlinked" "kid_ok ?k'" using ok K_connect by (simp_all add: kid_ok_def)
      have "sockets_ok n'" using inv i u(1) by (auto simp: n' net_inv_def sockets_ok_def nth_list_update)
      then show ?thesis using inv n' by (intro set_kid_inv [OF inv i u(2)]) (simp_all add: net_inv_def)
    next
      case False
      then show ?thesis using inv go i K_connect by (simp add: kid_goes_def Let_def)
    qed
  next
    case K_announce
    then show ?thesis using inv go i ok
      by (auto simp: kid_goes_def Let_def kid_ok_def intro!: same_side_inv split: if_splits)
  next
    case K_recv
    then show ?thesis using inv go i ok
      by (auto simp: kid_goes_def Let_def kid_ok_def intro!: same_side_inv split: if_splits)
  qed (use go i ok in \<open>simp_all add: kid_goes_def Let_def kid_ok_def\<close>)
qed

lemma kid_refused_inv: "net_inv n \<Longrightarrow> kid_refused i n = Some n' \<Longrightarrow> net_inv n'"
  using kid_ok_nth [of n i] by (auto simp: kid_refused_def kid_ok_def intro!: same_side_inv split: if_splits)

subsection \<open>The connection process\<close>

text \<open>With its empty table the connection process closes every connection it accepts.\<close>

lemma empty_table:
  "handle_connection server_sock drv_init (Accept_failed transient) = (drv_init, if transient then [] else [Print_accept_failed])"
  "handle_connection server_sock drv_init (Accepted fd r)
     = (drv_init, (case r of None \<Rightarrow> [] | Some p \<Rightarrow> [Print_rejected p]) @ [Close fd])"
  by (simp_all add: handle_connection_def find_driver_def used_def drv_init_def split: option.split)

lemma close_one:
  assumes "i < length ks" "k_side (ks ! i) = Held fd" "\<And>j. j < length ks \<Longrightarrow> k_side (ks ! j) = Held fd \<Longrightarrow> j = i"
  shows "map (\<lambda>k. if k_side k = Held fd then k\<lparr>k_side := Shut\<rparr> else k) ks = ks[i := (ks ! i)\<lparr>k_side := Shut\<rparr>]"
proof (rule nth_equalityI)
  fix j assume "j < length (map (\<lambda>k. if k_side k = Held fd then k\<lparr>k_side := Shut\<rparr> else k) ks)"
  then have j: "j < length ks" by simp
  show "map (\<lambda>k. if k_side k = Held fd then k\<lparr>k_side := Shut\<rparr> else k) ks ! j = ks[i := (ks ! i)\<lparr>k_side := Shut\<rparr>] ! j"
  proof (cases "j = i")
    case True
    then show ?thesis using assms(1,2) by simp
  next
    case False
    then have "k_side (ks ! j) \<noteq> Held fd" using assms(3) [OF j] by blast
    then show ?thesis using j False by simp
  qed
qed simp

lemma takes_shuts:
  assumes inv: "net_inv n" and go: "conn_takes server_sock n = Some n'"
  obtains i where "taking n = Some i" "i < length (kids n)" "taking n' = None"
    "kids n' = (kids n)[i := (kids n ! i)\<lparr>k_up := tl (k_up (kids n ! i)), k_side := Shut\<rparr>]"
    "acc n' = acc n" "watched n' = watched n" "backlog n' = backlog n" "edge n' = edge n" "cmd n' = cmd n" "there n' = there n"
    "\<exists>out. said n' = said n @ out \<and> (\<forall>x\<in>set out. \<not> delivers x)"
proof -
  from inv have s: "sockets_ok n" "acc n = drv_init" "watched n = {}" by (simp_all add: net_inv_def)
  from go obtain i where t: "taking n = Some i" by (auto simp: conn_takes_def split: option.splits)
  with s(1) obtain fd where i: "i < length (kids n)" "k_side (kids n ! i) = Held fd" by (auto simp: sockets_ok_def)
  have only: "j = i" if "j < length (kids n)" "k_side (kids n ! j) = Held fd" for j
    using s(1) t that unfolding sockets_ok_def by (metis option.inject)
  let ?k = "(kids n ! i)\<lparr>k_up := tl (k_up (kids n ! i))\<rparr>"
  have m: "map (\<lambda>k. if k_side k = Held fd then k\<lparr>k_side := Shut\<rparr> else k) ((kids n)[i := ?k]) = (kids n)[i := ?k\<lparr>k_side := Shut\<rparr>]"
  proof (subst close_one [where i = i])
    fix j assume "j < length ((kids n)[i := ?k])" "k_side ((kids n)[i := ?k] ! j) = Held fd"
    then show "j = i" using only [of j] by (metis length_list_update nth_list_update_neq)
  qed (use i in simp_all)
  define r where "r = (case k_up (kids n ! i) of Inl p # _ \<Rightarrow> Some p | _ \<Rightarrow> None)"
  have n': "n' = handles server_sock (Accepted fd r) (set_kid i ?k (n\<lparr>taking := None\<rparr>))"
    using go t i by (simp add: conn_takes_def Let_def r_def)
  show ?thesis
    by (rule that [OF t i(1)]) (simp_all add: n' handles_def s m empty_table delivers_def split: option.split)
qed

lemma conn_takes_inv:
  assumes inv: "net_inv n" and go: "conn_takes server_sock n = Some n'"
  shows "net_inv n'"
proof -
  from takes_shuts [OF assms] obtain i out where t: "taking n = Some i" "i < length (kids n)" "taking n' = None"
    "kids n' = (kids n)[i := (kids n ! i)\<lparr>k_up := tl (k_up (kids n ! i)), k_side := Shut\<rparr>]"
    "acc n' = acc n" "watched n' = watched n" "backlog n' = backlog n" "cmd n' = cmd n" "there n' = there n"
    "said n' = said n @ out" "\<forall>x\<in>set out. \<not> delivers x" by metis
  have s: "sockets_ok n" "kid_ok (kids n ! i)" using inv t(2) by (simp_all add: net_inv_def)
  obtain fd where fd: "k_side (kids n ! i) = Held fd" using s(1) t(1) by (auto simp: sockets_ok_def)
  have "kid_ok ((kids n ! i)\<lparr>k_up := tl (k_up (kids n ! i)), k_side := Shut\<rparr>)"
    using s(2) fd by (cases "k_at (kids n ! i)") (auto simp: kid_ok_def)
  moreover have "sockets_ok n'"
  proof -
    have side: "k_side (kids n' ! j) = (if j = i then Shut else k_side (kids n ! j))" for j
      using t(2,4) by (cases "j = i") simp_all
    have len: "length (kids n') = length (kids n)" by (simp add: t(4))
    have "j \<in> set (backlog n') \<longleftrightarrow> j < length (kids n') \<and> k_side (kids n' ! j) = Queued" for j
      using s(1) fd by (cases "j = i") (simp_all add: sockets_ok_def side len t(7))
    moreover have "\<not> (j < length (kids n') \<and> (\<exists>fd. k_side (kids n' ! j) = Held fd))" for j
    proof (cases "j = i")
      case False
      then have "taking n \<noteq> Some j" using t(1) by simp
      then show ?thesis using s(1) False unfolding sockets_ok_def side len by auto
    qed (simp add: side)
    ultimately show ?thesis using s(1) t(3,7) by (simp add: sockets_ok_def)
  qed
  ultimately show ?thesis
    using inv t(5,6,8-11) by (intro set_kid_inv [OF inv t(2) _ _ _ t(4)]) (auto simp: net_inv_def)
qed

lemma accepts_holds:
  assumes "conn_accepts server_sock fd n = Some n'"
  obtains i where "backlog n = i # backlog n'" "edge n" "\<not> edge n'" "taking n = None" "taking n' = Some i"
    "kids n' = (kids n)[i := (kids n ! i)\<lparr>k_side := Held fd\<rparr>]"
    "acc n' = acc n" "watched n' = watched n" "cmd n' = cmd n" "there n' = there n" "said n' = said n"
proof -
  from assms have e: "taking n = None" "edge n" "backlog n \<noteq> []"
    and n': "n' = (let i = hd (backlog n) in set_kid i ((kids n ! i)\<lparr>k_side := Held fd\<rparr>)
                 (n\<lparr>edge := False, backlog := tl (backlog n), taking := Some i\<rparr>))"
    by (auto simp: conn_accepts_def listen_event_def Let_def split: if_splits)
  show ?thesis by (rule that [of "hd (backlog n)"]) (use e in \<open>simp_all add: n' Let_def\<close>)
qed

lemma conn_accepts_inv:
  assumes inv: "net_inv n" and go: "conn_accepts server_sock fd n = Some n'"
  shows "net_inv n'"
proof -
  from accepts_holds [OF go] obtain i where a: "backlog n = i # backlog n'" "taking n = None" "taking n' = Some i"
    "kids n' = (kids n)[i := (kids n ! i)\<lparr>k_side := Held fd\<rparr>]"
    "acc n' = acc n" "watched n' = watched n" "cmd n' = cmd n" "there n' = there n" "said n' = said n" by metis
  have s: "sockets_ok n" using inv by (simp add: net_inv_def)
  then have i: "i < length (kids n)" "k_side (kids n ! i) = Queued" "i \<notin> set (backlog n')"
    by (simp_all add: sockets_ok_def a(1)) (metis insert_iff)+
  have ok: "kid_ok (kids n ! i)" by (rule kid_ok_nth [OF inv i(1)])
  then have k: "kid_ok ((kids n ! i)\<lparr>k_side := Held fd\<rparr>)"
    using i(2) by (cases "k_at (kids n ! i)") (auto simp: kid_ok_def)
  have side: "k_side (kids n' ! j) = (if j = i then Held fd else k_side (kids n ! j))" for j
    using i(1) a(4) by (cases "j = i") simp_all
  have len: "length (kids n') = length (kids n)" by (simp add: a(4))
  have "j \<in> set (backlog n') \<longleftrightarrow> j < length (kids n') \<and> k_side (kids n' ! j) = Queued" for j
  proof (cases "j = i")
    case False
    then have "j \<in> set (backlog n') \<longleftrightarrow> j \<in> set (backlog n)" using a(1) by simp
    then show ?thesis using s False by (simp add: sockets_ok_def side len)
  qed (use i(3) in \<open>simp add: side\<close>)
  moreover have "taking n' = Some j \<longleftrightarrow> j < length (kids n') \<and> (\<exists>fd. k_side (kids n' ! j) = Held fd)" for j
  proof (cases "j = i")
    case False
    have "taking n \<noteq> Some j" using a(2) by simp
    then show ?thesis using s False a(3) unfolding sockets_ok_def side len by auto
  qed (use i(1) a(3) in \<open>simp add: side len\<close>)
  ultimately have "sockets_ok n'" using s a(1) by (simp add: sockets_ok_def)
  then show ?thesis
    using inv a(5-9) by (intro set_kid_inv [OF inv i(1) k _ _ a(4)]) (simp_all add: net_inv_def)
qed

lemma accept_fails_inv:
  assumes "net_inv n" "conn_accept_fails server_sock transient n = Some n'"
  shows "net_inv n' \<and> kids n' = kids n \<and> backlog n' = backlog n \<and> \<not> edge n'"
proof -
  have e: "acc n = drv_init" using assms(1) by (simp add: net_inv_def)
  have n': "n' = handles server_sock (Accept_failed transient) (n\<lparr>edge := False\<rparr>)"
    using assms(2) by (simp add: conn_accept_fails_def split: if_splits)
  have same: "cmd n' = cmd n" "there n' = there n" "kids n' = kids n" "backlog n' = backlog n" "taking n' = taking n"
    "acc n' = acc n" "watched n' = watched n" "\<not> edge n'" "said n' = said n @ (if transient then [] else [Print_accept_failed])"
    by (simp_all add: n' handles_def e empty_table)
  have "cli_knows n' = cli_knows n" unfolding cli_knows_def same ..
  then show ?thesis using assms(1) same by (auto simp: net_inv_def sockets_ok_def delivers_def)
qed

lemma no_reads: "net_inv n \<Longrightarrow> conn_reads server_sock i n = None"
  by (auto simp: conn_reads_def net_inv_def Let_def split: side.split)

lemma net_act_inv:
  assumes "net_inv n" "net_act server_sock a n = Some n'"
  shows "net_inv n'"
proof (cases a)
  case Input_ends
  then have "n' = cli_exits n" using assms(2) by (simp split: if_splits)
  then show ?thesis using assms(1) by (simp add: net_inv_def cli_knows_def cli_exits_def sockets_ok_def)
qed (use assms in \<open>auto dest: cli_reads_inv kid_goes_inv kid_refused_inv conn_accepts_inv accept_fails_inv conn_takes_inv simp: no_reads\<close>)

definition net_step :: "int \<Rightarrow> net \<Rightarrow> net \<Rightarrow> bool" where
  "net_step server_sock n n' \<longleftrightarrow> (\<exists>a. net_act server_sock a n = Some n')"

interpretation dnet: transition_system "\<lambda>n. n = net_start" "net_step server_sock" net_inv
  by unfold_locales (auto simp: net_start_inv net_step_def dest: net_act_inv)

lemma net_acts_reach: "net_acts server_sock as n = Some n' \<Longrightarrow> (net_step server_sock)\<^sup>*\<^sup>* n n'"
proof (induction "as" arbitrary: n)
  case (Cons a "as")
  then obtain n1 where "net_act server_sock a n = Some n1" "(net_step server_sock)\<^sup>*\<^sup>* n1 n'"
    by (auto simp: bind_eq_Some_conv)
  then have "net_step server_sock n n1" "(net_step server_sock)\<^sup>*\<^sup>* n1 n'" by (auto simp: net_step_def)
  then show ?case by (rule converse_rtranclp_into_rtranclp)
qed simp

lemma net_acts_inv: "net_inv n \<Longrightarrow> net_acts server_sock as n = Some n' \<Longrightarrow> net_inv n'"
  by (rule dnet.steps_inv [OF net_acts_reach])

lemma net_acts_append:
  "net_acts server_sock (as @ bs) n = Option.bind (net_acts server_sock as n) (net_acts server_sock bs)"
  proof (induction "as" arbitrary: n)
  case (Cons a "as")
  show ?case by (cases "net_act server_sock a n") (simp_all add: Cons.IH)
qed simp

section \<open>What becomes of a driver\<close>

lemma shut_ends:
  assumes inv: "net_inv n" and i: "i < length (kids n)" "k_side (kids n ! i) = Shut"
  shows "\<exists>as. set as \<subseteq> {Kid i} \<and> length as \<le> 1 \<and> (\<exists>n'. net_acts server_sock as n = Some n' \<and> ended (kids n' ! i))"
proof (cases "ended (kids n ! i)")
  case True
  then show ?thesis by (intro exI [of _ "[]"]) simp
next
  case False
  let ?k = "kids n ! i"
  have ok: "kid_ok ?k" by (rule kid_ok_nth [OF inv i(1)])
  then consider "k_at ?k = K_announce" | "k_at ?k = K_recv" "k_down ?k = []"
    using False i(2) by (cases "k_at ?k") (auto simp: kid_ok_def ended_def)
  then obtain c where "kid_goes i n = Some (set_kid i (?k\<lparr>k_at := c\<rparr>) n)" "c = K_killed \<or> c = K_exit 0"
    using i by cases (simp_all add: kid_goes_def Let_def)
  then show ?thesis using i(1) by (intro exI [of _ "[Kid i]"]) (auto simp: ended_def)
qed

lemma accepted_ends:
  assumes inv: "net_inv n" and i: "i < length (kids n)" "k_side (kids n ! i) = Held fd"
  shows "\<exists>as. set as \<subseteq> {Take, Kid i} \<and> length as \<le> 2 \<and> (\<exists>n'. net_acts server_sock as n = Some n' \<and> ended (kids n' ! i))"
proof -
  have t: "taking n = Some i" using inv i by (auto simp: net_inv_def sockets_ok_def)
  then obtain n1 where n1: "conn_takes server_sock n = Some n1" using i by (simp add: conn_takes_def Let_def)
  obtain j where "taking n = Some j" "kids n1 = (kids n)[j := (kids n ! j)\<lparr>k_up := tl (k_up (kids n ! j)), k_side := Shut\<rparr>]"
    using takes_shuts [OF inv n1] by metis
  then have "i < length (kids n1)" "k_side (kids n1 ! i) = Shut" using t i(1) by simp_all
  then obtain "as" n' where "set as \<subseteq> {Kid i}" "length as \<le> 1" "net_acts server_sock as n1 = Some n'" "ended (kids n' ! i)"
    using shut_ends [OF conn_takes_inv [OF inv n1]] by blast
  then show ?thesis using n1 by (intro exI [of _ "Take # as"]) auto
qed

text \<open>The command line goes on to send tasks to every driver it created.\<close>

lemma sends_to_all:
  assumes inv: "net_inv n" and st: "cmd n = Some st" and k: "k \<in> set (kids n)"
    and idle: "\<not> busy (drivers st ! nat (find_driver st (k_pid k))) now"
  shows "snd (send_task st (k_pid k) t now) = [Print_task_sent (k_pid k) t]"
proof -
  have i: "drv_inv st" "unconnected st" "k_pid k \<in> set (map d_pid (used st))"
    using inv st k by (auto simp: net_inv_def cli_knows_def)
  then have "find_driver st (k_pid k) \<noteq> -1"
    by (auto simp: find_driver_def c_index_def drv_inv_def first_index_None_iff split: option.splits)
  with find_driver_cases i(1) obtain j where j: "find_driver st (k_pid k) = int j" "j < driver_count st"
    by (metis find_driver_ge)
  then show ?thesis using idle i by (simp add: send_task_def Let_def send_to_unconnected)
qed

section \<open>Connections that are left behind\<close>

definition linked :: "net \<Rightarrow> nat set" where
  "linked n = {i. i < length (kids n) \<and> k_side (kids n ! i) \<noteq> Unlinked}"

lemma linked_append:
  assumes k: "kids n' = kids n @ map new_kid ps"
  shows "linked n' = linked n"
proof (rule set_eqI)
  fix x show "x \<in> linked n' \<longleftrightarrow> x \<in> linked n"
  proof (cases "x < length (kids n)")
    case False
    then have "x - length (kids n) < length ps" if "x < length (kids n')" using that False by (simp add: k less_diff_conv2)
    then show ?thesis using False by (auto simp: linked_def k nth_append new_kid_def)
  qed (simp add: linked_def k nth_append)
qed

lemma updated:
  assumes "j < length ks"
  shows "k_side (ks[i := k] ! j) = (if j = i then k_side k else k_side (ks ! j))"
    and "k_at (ks[i := k] ! j) = (if j = i then k_at k else k_at (ks ! j))"
proof -
  have "ks[i := k] ! j = (if j = i then k else ks ! j)" using assms by (cases "j = i") simp_all
  then show "k_side (ks[i := k] ! j) = (if j = i then k_side k else k_side (ks ! j))"
    and "k_at (ks[i := k] ! j) = (if j = i then k_at k else k_at (ks ! j))" by simp_all
qed

lemma kid_goes_linked:
  assumes inv: "net_inv n" and go: "kid_goes i n = Some n'"
  shows "linked n' = linked n \<and> backlog n' = backlog n \<and> edge n' = edge n \<or> i \<notin> linked n \<and> linked n' = insert i (linked n)"
proof -
  have i: "i < length (kids n)" using go by (simp add: kid_goes_def split: if_splits)
  let ?k = "kids n ! i"
  have ok: "kid_ok ?k" by (rule kid_ok_nth [OF inv i])
  have same: "linked (set_kid i k n) = linked n" if "k_side k = k_side ?k" for k
    using i that by (auto simp: linked_def nth_list_update)
  show ?thesis
  proof (cases "k_at ?k")
    case K_connect
    then have "k_side ?k = Unlinked" using ok by (simp add: kid_ok_def)
    then show ?thesis using go i K_connect
      by (auto simp: kid_goes_def Let_def linked_def updated split: if_splits)
  next
    case K_announce
    define k' where "k' = (if k_side ?k = Shut then ?k\<lparr>k_at := K_killed\<rparr>
      else ?k\<lparr>k_up := k_up ?k @ [Inl (k_pid ?k)], k_at := K_recv\<rparr>)"
    have "n' = set_kid i k' n" using go i K_announce by (simp add: kid_goes_def Let_def k'_def)
    moreover have "k_side k' = k_side ?k" by (simp add: k'_def)
    ultimately show ?thesis using same by simp
  next
    case K_recv
    then show ?thesis using go i ok same by (auto simp: kid_goes_def Let_def kid_ok_def split: if_splits)
  qed (use go i ok in \<open>simp_all add: kid_goes_def Let_def kid_ok_def\<close>)
qed

lemma linked_act:
  assumes inv: "net_inv n" and go: "net_act server_sock a n = Some n'"
  shows "linked n \<subseteq> linked n' \<and> (\<not> edge n \<and> linked n' = linked n \<longrightarrow> \<not> edge n' \<and> backlog n' = backlog n)"
proof (cases a)
  case (Line l p now)
  then have "cli_reads l p now n = Some n'" using go by simp
  then show ?thesis by (rule cli_reads_effect [OF inv]) (simp add: linked_append)
next
  case Input_ends
  then have "n' = cli_exits n" using go by (simp split: if_splits)
  then show ?thesis by (simp add: cli_exits_def linked_def)
next
  case (Kid i)
  then show ?thesis using kid_goes_linked [OF inv, of i n'] go by auto
next
  case (Kid_refused i)
  then have i: "i < length (kids n)" "k_at (kids n ! i) = K_connect"
    and n': "n' = set_kid i ((kids n ! i)\<lparr>k_at := K_exit 1\<rparr>) n"
    using go by (auto simp: kid_refused_def split: if_splits)
  then have "linked n' = linked n" by (auto simp: linked_def nth_list_update)
  then show ?thesis by (simp add: n')
next
  case (Accept fd)
  then have "conn_accepts server_sock fd n = Some n'" using go by simp
  then show ?thesis
    by (rule accepts_holds) (auto simp: linked_def updated split: if_splits)
next
  case (Accept_fails transient)
  then show ?thesis using accept_fails_inv [OF inv, of server_sock transient n'] go by (auto simp: linked_def)
next
  case Take
  then have "conn_takes server_sock n = Some n'" using go by simp
  then show ?thesis by (rule takes_shuts [OF inv]) (auto simp: linked_def nth_list_update)
qed (use go inv in \<open>simp add: no_reads\<close>)

text \<open>As long as no further driver connects, the connection process gets no event and the queue stays as it is.\<close>

lemma left_behind:
  assumes "net_inv n" "net_acts server_sock as n = Some n'"
  shows "linked n \<subseteq> linked n' \<and> (\<not> edge n \<and> linked n' = linked n \<longrightarrow> backlog n' = backlog n)"
  using assms
proof (induction "as" arbitrary: n)
  case (Cons a "as")
  then obtain n1 where a: "net_act server_sock a n = Some n1" "net_acts server_sock as n1 = Some n'"
    by (auto simp: bind_eq_Some_conv)
  note l = linked_act [OF Cons.prems(1) a(1)] and ih = Cons.IH [OF net_act_inv [OF Cons.prems(1) a(1)] a(2)]
  show ?case using l ih by auto
qed simp

text \<open>Without the socket file a driver that is not connected tries for ever.\<close>

lemma tries_act:
  assumes inv: "net_inv n" and go: "net_act server_sock a n = Some n'"
    and t: "\<not> there n" "i < length (kids n)" "k_at (kids n ! i) = K_connect" "a \<noteq> Kid_refused i"
  shows "\<not> there n' \<and> i < length (kids n') \<and> k_at (kids n' ! i) = K_connect"
proof (cases a)
  case (Line l p now)
  then show ?thesis using inv go t(1) by (auto simp: cli_reads_def net_inv_def cli_knows_def split: option.splits)
next
  case Input_ends
  then show ?thesis using go t by (auto simp: cli_exits_def split: if_splits)
next
  case (Kid j)
  show ?thesis
  proof (cases "j = i")
    case True
    then show ?thesis using Kid go t by (simp add: kid_goes_def Let_def)
  next
    case False
    have j: "j < length (kids n)" using Kid go by (simp add: kid_goes_def split: if_splits)
    have "kid_ok (kids n ! j)" by (rule kid_ok_nth [OF inv j])
    then show ?thesis using Kid go t False j
      by (cases "k_at (kids n ! j)") (auto simp: kid_goes_def Let_def kid_ok_def split: if_splits)
  qed
next
  case (Kid_refused j)
  then show ?thesis using go t by (auto simp: kid_refused_def split: if_splits)
next
  case (Accept fd)
  then have "conn_accepts server_sock fd n = Some n'" using go by simp
  then show ?thesis
    by (rule accepts_holds) (use t in \<open>auto simp: updated split: if_splits\<close>)
next
  case (Accept_fails transient)
  then show ?thesis using t accept_fails_inv [OF inv, of server_sock transient n'] go inv
    by (auto simp: conn_accept_fails_def handles_def net_inv_def empty_table split: if_splits)
next
  case Take
  then have "conn_takes server_sock n = Some n'" using go by simp
  then show ?thesis by (rule takes_shuts [OF inv]) (use t in \<open>auto simp: nth_list_update\<close>)
qed (use go inv in \<open>simp add: no_reads\<close>)

lemma tries_for_ever:
  assumes "net_inv n" "net_acts server_sock as n = Some n'" "Kid_refused i \<notin> set as"
    and "\<not> there n" "i < length (kids n)" "k_at (kids n ! i) = K_connect"
  shows "k_at (kids n' ! i) = K_connect"
  using assms
proof (induction "as" arbitrary: n)
  case (Cons a "as")
  then obtain n1 where a: "net_act server_sock a n = Some n1" "net_acts server_sock as n1 = Some n'"
    by (auto simp: bind_eq_Some_conv)
  show ?case
    using Cons.IH [OF net_act_inv [OF Cons.prems(1) a(1)] a(2)] tries_act [OF Cons.prems(1) a(1) Cons.prems(4-6)]
      Cons.prems(3) by auto
qed simp

section \<open>A run\<close>

definition create_line :: string where "create_line = ''create_driver'' @ [CHR 0x0A]"

lemma create_reads:
  assumes inv: "net_inv n" and c: "cmd n \<noteq> None" and pid: "0 < pid" "pid \<notin> k_pid ` set (kids n)"
    and room: "length (kids n) < MAX_DRIVERS"
  obtains n' where "cli_reads create_line pid now n = Some n'" "kids n' = kids n @ [new_kid pid]" "cmd n' \<noteq> None"
    "backlog n' = backlog n" "taking n' = taking n" "edge n' = edge n" "there n' = there n"
proof -
  obtain st where st: "cmd n = Some st" using c by blast
  have "scan_s (''create_driver'' @ CHR 0x0A # []) = Some (''create_driver'', CHR 0x0A # [])"
    by (rule scan_s_word) (simp_all add: is_space_def)
  then have l: "cli_line st create_line pid now = Some (fst (create_driver st pid), snd (create_driver st pid), False)"
    by (simp add: cli_line_def create_line_def split: prod.split)
  have "drv_inv st" "map d_pid (used st) = map k_pid (kids n)" using inv st by (simp_all add: net_inv_def cli_knows_def)
  then have "driver_count st = length (kids n)"
    by (metis drv_inv_def length_map length_take min.absorb2 used_def)
  then have out: "snd (create_driver st pid) = [Print_created pid]" using room pid(1) by (simp add: create_driver_def Let_def)
  have "cli_reads create_line pid now n =
      Some (n\<lparr>said := said n @ [Print_created pid], kids := kids n @ [new_kid pid], cmd := Some (fst (create_driver st pid))\<rparr>)"
    using pid l st out by (simp add: cli_reads_def Let_def)
  then show ?thesis by (rule that) simp_all
qed

text \<open>
  Two drivers connect before the connection process looks, one of them is accepted and rejected; a third is
  created, and the command line ends before it connects.
\<close>

definition two_come :: "action list" where
  "two_come = [Line create_line 11 0, Line create_line 12 0, Kid 0, Kid 1, Kid 0, Kid 1, Accept 5, Take,
     Line create_line 13 0, Input_ends]"

lemma two_come_runs:
  obtains n where "net_acts 3 two_come net_start = Some n" "backlog n = [1]" "\<not> edge n" "\<not> there n"
    "kids n = [\<lparr>k_pid = 11, k_at = K_recv, k_side = Shut, k_up = [], k_down = []\<rparr>,
       \<lparr>k_pid = 12, k_at = K_recv, k_side = Queued, k_up = [Inl 12], k_down = []\<rparr>, new_kid 13]"
proof -
  obtain n1 where n1: "cli_reads create_line 11 0 net_start = Some n1" "kids n1 = [new_kid 11]" "cmd n1 \<noteq> None"
    "backlog n1 = []" "taking n1 = None" "there n1"
    by (rule create_reads [OF net_start_inv, of 11 0]) (simp_all add: net_start_def)
  have i1: "net_inv n1" by (rule cli_reads_inv [OF net_start_inv n1(1)])
  obtain n2 where n2: "cli_reads create_line 12 0 n1 = Some n2" "kids n2 = [new_kid 11, new_kid 12]" "cmd n2 \<noteq> None"
    "backlog n2 = []" "taking n2 = None" "there n2"
    by (rule create_reads [OF i1 n1(3), of 12 0]) (simp_all add: n1 new_kid_def)
  have i2: "net_inv n2" by (rule cli_reads_inv [OF i1 n2(1)])
  obtain n3 where n3: "net_acts 3 [Kid 0, Kid 1, Kid 0, Kid 1, Accept 5, Take] n2 = Some n3"
    "kids n3 = [\<lparr>k_pid = 11, k_at = K_recv, k_side = Shut, k_up = [], k_down = []\<rparr>,
       \<lparr>k_pid = 12, k_at = K_recv, k_side = Queued, k_up = [Inl 12], k_down = []\<rparr>]"
    "backlog n3 = [1]" "\<not> edge n3" "cmd n3 \<noteq> None"
    using n2 i2 by (simp add: kid_goes_def conn_accepts_def listen_event_def conn_takes_def handles_def new_kid_def Let_def
        net_inv_def empty_table)
  have i3: "net_inv n3" by (rule net_acts_inv [OF i2 n3(1)])
  obtain n4 where n4: "cli_reads create_line 13 0 n3 = Some n4" "kids n4 = kids n3 @ [new_kid 13]" "cmd n4 \<noteq> None"
    "backlog n4 = [1]" "\<not> edge n4"
    by (rule create_reads [OF i3 n3(5), of 13 0]) (simp_all add: n3)
  have "net_acts 3 two_come net_start = Some (cli_exits n4)"
  proof -
    let ?as = "[Line create_line 11 0, Line create_line 12 0]" and ?bs = "[Line create_line 13 0, Input_ends]"
      and ?mid = "[Kid 0, Kid 1, Kid 0, Kid 1, Accept 5, Take]"
    have "net_acts 3 ?as net_start = Some n2" using n1(1) n2(1) by simp
    moreover have "net_acts 3 ?bs n3 = Some (cli_exits n4)" using n4(1,3) by auto
    ultimately have "net_acts 3 (?as @ ?mid @ ?bs) net_start = Some (cli_exits n4)"
      unfolding net_acts_append n3(1) by (simp only: bind.simps n3(1))
    then show ?thesis by (simp add: two_come_def)
  qed
  then show ?thesis by (rule that) (simp_all add: cli_exits_def n4 n3(2))
qed

section \<open>Properties\<close>

text \<open>
  Claim C8. Every driver is rejected: in each state that the command line, the connection process and the drivers
  together reach, nothing was sent to a driver, none has got a message and none is at work; a driver whose connection was accepted
  needs at most the connection process's next step and one of its own, which nothing else can delay, to
  end; and the command line, while it runs, still takes it for a driver that is ready: \<^verbatim>\<open>send_task\<close> reports
  a task as sent for every driver ever created, also for those that have ended.
\<close>

theorem drivers_all_rejected:
  assumes "net_acts server_sock as net_start = Some n"
  shows "(\<forall>out\<in>set (said n). \<not> delivers out)
    \<and> (\<forall>k\<in>set (kids n). k_down k = [] \<and> (\<forall>out b. k_at k \<noteq> K_do out b))
    \<and> (\<forall>i<length (kids n). k_side (kids n ! i) = Shut \<or> (\<exists>fd. k_side (kids n ! i) = Held fd) \<longrightarrow>
         (\<exists>bs n'. set bs \<subseteq> {Take, Kid i} \<and> length bs \<le> 2 \<and> net_acts server_sock bs n = Some n' \<and> ended (kids n' ! i)))
    \<and> (\<forall>st k now t. cmd n = Some st \<longrightarrow> k \<in> set (kids n) \<longrightarrow>
         \<not> busy (drivers st ! nat (find_driver st (k_pid k))) now \<longrightarrow>
         snd (send_task st (k_pid k) t now) = [Print_task_sent (k_pid k) t])"
proof (intro conjI ballI allI impI)
  have inv: "net_inv n" by (rule net_acts_inv [OF net_start_inv assms])
  show "\<not> delivers out" if "out \<in> set (said n)" for out using inv that by (simp add: net_inv_def)
  show "k_down k = []" "k_at k \<noteq> K_do out b" if "k \<in> set (kids n)" for k out b
    using inv that by (auto simp: net_inv_def kid_ok_def)
  show "\<exists>bs n'. set bs \<subseteq> {Take, Kid i} \<and> length bs \<le> 2 \<and> net_acts server_sock bs n = Some n' \<and> ended (kids n' ! i)"
    if "i < length (kids n)" "k_side (kids n ! i) = Shut \<or> (\<exists>fd. k_side (kids n ! i) = Held fd)" for i
    using accepted_ends [OF inv that(1)] shut_ends [OF inv that(1)] that(2) by fastforce
  show "snd (send_task st (k_pid k) t now) = [Print_task_sent (k_pid k) t]"
    if "cmd n = Some st" "k \<in> set (kids n)" "\<not> busy (drivers st ! nat (find_driver st (k_pid k))) now" for st k now t
    by (rule sends_to_all [OF inv that])
qed

theorem drivers_all_rejected_witness:
  "\<exists>n n'. net_acts 3 two_come net_start = Some n \<and> (\<exists>bs. length bs \<le> 2 \<and> net_acts 3 bs n = Some n' \<and> ended (kids n' ! 0))"
proof -
  obtain n where n: "net_acts 3 two_come net_start = Some n" "length (kids n) = 3" "k_side (kids n ! 0) = Shut"
    by (rule two_come_runs) simp
  from drivers_all_rejected [OF n(1)] have "\<forall>i<length (kids n). k_side (kids n ! i) = Shut \<longrightarrow>
      (\<exists>bs n'. set bs \<subseteq> {Take, Kid i} \<and> length bs \<le> 2 \<and> net_acts 3 bs n = Some n' \<and> ended (kids n' ! i))" by blast
  then show ?thesis using n by (metis zero_less_numeral)
qed

text \<open>
  Claim C32. Drivers that are left behind. The listening socket is edge-triggered and the code accepts one connection per
  event: in a reachable state without a new event the drivers in the queue stay there in all runs in which no
  further driver connects. And when the command line has ended, and with it the socket file, a driver that
  is not connected never leaves its loop around \<^verbatim>\<open>connect\<close>, unless that fails with an error other than those it
  waits for. Both come about in one run of three drivers.
\<close>

theorem drivers_left_behind:
  assumes "net_acts server_sock as net_start = Some n" "net_acts server_sock bs n = Some n'"
  shows "(\<not> edge n \<and> linked n' = linked n \<longrightarrow> backlog n' = backlog n)
    \<and> (\<forall>i<length (kids n). \<not> there n \<and> k_at (kids n ! i) = K_connect \<and> Kid_refused i \<notin> set bs \<longrightarrow>
         k_at (kids n' ! i) = K_connect)
    \<and> (\<exists>m. net_acts 3 two_come net_start = Some m \<and> \<not> edge m \<and> backlog m = [1] \<and> \<not> there m
         \<and> k_at (kids m ! 2) = K_connect)"
proof (intro conjI allI impI)
  have inv: "net_inv n" by (rule net_acts_inv [OF net_start_inv assms(1)])
  show "backlog n' = backlog n" if "\<not> edge n \<and> linked n' = linked n"
    using left_behind [OF inv assms(2)] that by blast
  show "k_at (kids n' ! i) = K_connect"
    if "i < length (kids n)" "\<not> there n \<and> k_at (kids n ! i) = K_connect \<and> Kid_refused i \<notin> set bs" for i
    using tries_for_ever [OF inv assms(2)] that by blast
  show "\<exists>m. net_acts 3 two_come net_start = Some m \<and> \<not> edge m \<and> backlog m = [1] \<and> \<not> there m \<and> k_at (kids m ! 2) = K_connect"
    by (rule two_come_runs) (auto simp: new_kid_def)
qed

theorem drivers_left_behind_witness:
  "\<exists>n n'. net_acts 3 two_come net_start = Some n \<and> net_acts 3 [Kid 0, Kid 2] n = Some n' \<and> backlog n' = [1]
     \<and> k_at (kids n' ! 2) = K_connect"
proof -
  obtain n where n: "net_acts 3 two_come net_start = Some n" "backlog n = [1]" "\<not> edge n" "\<not> there n"
    "kids n = [\<lparr>k_pid = 11, k_at = K_recv, k_side = Shut, k_up = [], k_down = []\<rparr>,
       \<lparr>k_pid = 12, k_at = K_recv, k_side = Queued, k_up = [Inl 12], k_down = []\<rparr>, new_kid 13]"
    by (rule two_come_runs)
  obtain n' where n': "net_acts 3 [Kid 0, Kid 2] n = Some n'" "linked n' = linked n"
    using n by (simp add: kid_goes_def Let_def linked_def new_kid_def nth_Cons split: nat.split)
  show ?thesis
    using drivers_left_behind [OF n(1) n'(1)] n n' by (auto simp: new_kid_def)
qed

end
