(* ===== verification/ThreadPool.thy ===== *)
theory ThreadPool
  imports CPrelude "HOL-Library.Multiset"
begin

text \<open>
  The server with a pool of worker threads,
  \<^verbatim>\<open>hw16_sockets/p2_server_template/parallel_server_consumer-produser/server.c\<close>: the circular queue of
  client descriptors, first as sequential operations against the interface of a bounded FIFO, then with
  the mutex and the two condition variables, every statement of \<^verbatim>\<open>queue_push\<close> and \<^verbatim>\<open>queue_pop\<close> being a
  step of one of the threads: the accepting main thread and the workers.
\<close>

section \<open>The interface of a bounded FIFO\<close>

datatype 'a fifo_op = Push 'a | Pop

text \<open>Operations that would block yield \<open>None\<close>. The result is the list of popped elements.\<close>

fun fifo_run :: "('a \<Rightarrow> 'q \<Rightarrow> 'q option) \<Rightarrow> ('q \<Rightarrow> ('a \<times> 'q) option) \<Rightarrow> 'a fifo_op list \<Rightarrow> 'q
    \<Rightarrow> ('a list \<times> 'q) option" where
  "fifo_run push pop [] q = Some ([], q)"
| "fifo_run push pop (Push x # ops) q =
     (case push x q of None \<Rightarrow> None | Some q' \<Rightarrow> fifo_run push pop ops q')"
| "fifo_run push pop (Pop # ops) q =
     (case pop q of None \<Rightarrow> None
      | Some (x, q') \<Rightarrow> map_option (\<lambda>(xs, q''). (x # xs, q'')) (fifo_run push pop ops q'))"

fun pushed :: "'a fifo_op list \<Rightarrow> 'a list" where
  "pushed [] = []"
| "pushed (Push x # ops) = x # pushed ops"
| "pushed (Pop # ops) = pushed ops"

locale bounded_fifo =
  fixes inv :: "'q \<Rightarrow> bool" and contents :: "'q \<Rightarrow> 'a list" and cap :: "'q \<Rightarrow> nat"
    and push :: "'a \<Rightarrow> 'q \<Rightarrow> 'q option" and pop :: "'q \<Rightarrow> ('a \<times> 'q) option"
  assumes push_blocks: "inv q \<Longrightarrow> push x q = None \<longleftrightarrow> length (contents q) = cap q"
    and push_Some: "inv q \<Longrightarrow> push x q = Some q' \<Longrightarrow> inv q' \<and> contents q' = contents q @ [x] \<and> cap q' = cap q"
    and pop_blocks: "inv q \<Longrightarrow> pop q = None \<longleftrightarrow> contents q = []"
    and pop_Some: "inv q \<Longrightarrow> pop q = Some (x, q') \<Longrightarrow> inv q' \<and> contents q = x # contents q' \<and> cap q' = cap q"
    and bounded: "inv q \<Longrightarrow> length (contents q) \<le> cap q"
begin

lemma run_fifo:
  "inv q \<Longrightarrow> fifo_run push pop ops q = Some (out, q')
    \<Longrightarrow> inv q' \<and> out @ contents q' = contents q @ pushed ops \<and> cap q' = cap q \<and> length (contents q') \<le> cap q"
proof (induction ops arbitrary: q out)
  case Nil
  then show ?case using bounded by auto
next
  case (Cons op ops)
  show ?case
  proof (cases op)
    case (Push x)
    then obtain r where r: "push x q = Some r" "fifo_run push pop ops r = Some (out, q')"
      using Cons.prems by (auto split: option.splits)
    then show ?thesis using Cons.IH [of r out] push_Some [OF Cons.prems(1) r(1)] Push by auto
  next
    case Pop
    then obtain x r xs where r: "pop q = Some (x, r)" "fifo_run push pop ops r = Some (xs, q')" "out = x # xs"
      using Cons.prems by (auto split: option.splits)
    then show ?thesis using Cons.IH [of r xs] pop_Some [OF Cons.prems(1) r(1)] Pop by auto
  qed
qed

end

section \<open>The circular queue\<close>

record socket_queue =
  q_data :: "int list"
  q_capacity :: nat
  q_front :: nat
  q_rear :: nat
  q_count :: nat

text \<open>The array that \<^verbatim>\<open>malloc\<close> returns has unspecified contents: a parameter.\<close>

definition queue_init :: "nat \<Rightarrow> int list \<Rightarrow> socket_queue" where
  "queue_init capacity data =
     \<lparr>q_data = data, q_capacity = capacity, q_front = 0, q_rear = 0, q_count = 0\<rparr>"

text \<open>The statements of the two critical sections, and the sections as a whole.\<close>

definition q_store :: "int \<Rightarrow> socket_queue \<Rightarrow> socket_queue" where
  "q_store client_sock q = q\<lparr>q_data := (q_data q)[q_rear q := client_sock]\<rparr>"

definition q_advance_rear :: "socket_queue \<Rightarrow> socket_queue" where
  "q_advance_rear q = q\<lparr>q_rear := (q_rear q + 1) mod q_capacity q\<rparr>"

definition q_advance_front :: "socket_queue \<Rightarrow> socket_queue" where
  "q_advance_front q = q\<lparr>q_front := (q_front q + 1) mod q_capacity q\<rparr>"

definition q_inc :: "socket_queue \<Rightarrow> socket_queue" where
  "q_inc q = q\<lparr>q_count := q_count q + 1\<rparr>"

definition q_dec :: "socket_queue \<Rightarrow> socket_queue" where
  "q_dec q = q\<lparr>q_count := q_count q - 1\<rparr>"

lemmas q_ops [simp] = q_store_def q_advance_rear_def q_advance_front_def q_inc_def q_dec_def

definition queue_push :: "int \<Rightarrow> socket_queue \<Rightarrow> socket_queue option" where
  "queue_push client_sock q =
     (if q_count q = q_capacity q then None
      else Some (q_inc (q_advance_rear (q_store client_sock q))))"

definition queue_pop :: "socket_queue \<Rightarrow> (int \<times> socket_queue) option" where
  "queue_pop q =
     (if q_count q = 0 then None
      else Some (q_data q ! q_front q, q_dec (q_advance_front q)))"

definition queue_inv :: "socket_queue \<Rightarrow> bool" where
  "queue_inv q \<longleftrightarrow> 0 < q_capacity q \<and> length (q_data q) = q_capacity q \<and> q_front q < q_capacity q
     \<and> q_count q \<le> q_capacity q \<and> q_rear q = (q_front q + q_count q) mod q_capacity q"

definition q_contents :: "socket_queue \<Rightarrow> int list" where
  "q_contents q = map (\<lambda>i. q_data q ! ((q_front q + i) mod q_capacity q)) [0..<q_count q]"

lemma length_q_contents [simp]: "length (q_contents q) = q_count q"
  by (simp add: q_contents_def)

lemma q_contents_Nil: "q_contents q = [] \<longleftrightarrow> q_count q = 0"
  by (simp add: q_contents_def)

lemma push_contents:
  assumes "queue_inv q" "q_count q < q_capacity q"
  shows "queue_inv (q_inc (q_advance_rear (q_store x q)))"
    and "q_contents (q_inc (q_advance_rear (q_store x q))) = q_contents q @ [x]"
proof -
  show "queue_inv (q_inc (q_advance_rear (q_store x q)))"
    using assms by (auto simp: queue_inv_def mod_Suc_eq)
  have "(q_data q)[q_rear q := x] ! ((q_front q + i) mod q_capacity q) = q_data q ! ((q_front q + i) mod q_capacity q)"
    if "i < q_count q" for i
    using ring_distinct [OF that assms(2), of "q_front q"] assms(1) by (simp add: queue_inv_def)
  moreover have "(q_data q)[q_rear q := x] ! ((q_front q + q_count q) mod q_capacity q) = x"
    using assms by (simp add: queue_inv_def)
  ultimately show "q_contents (q_inc (q_advance_rear (q_store x q))) = q_contents q @ [x]"
    by (simp add: q_contents_def)
qed

lemma pop_contents:
  assumes "queue_inv q" "0 < q_count q"
  shows "queue_inv (q_dec (q_advance_front q))"
    and "q_contents q = q_data q ! q_front q # q_contents (q_dec (q_advance_front q))"
proof -
  obtain k where "q_count q = Suc k" using assms(2) by (cases "q_count q") auto
  then show "queue_inv (q_dec (q_advance_front q))"
    using assms by (simp add: queue_inv_def mod_simps)
  have "[0..<q_count q] = 0 # map Suc [0..<q_count q - 1]"
    using assms(2) by (simp add: map_Suc_upt upt_conv_Cons)
  then show "q_contents q = q_data q ! q_front q # q_contents (q_dec (q_advance_front q))"
    using assms(1) by (simp add: q_contents_def queue_inv_def comp_def mod_add_left_eq)
qed

interpretation sq: bounded_fifo queue_inv q_contents q_capacity queue_push queue_pop
proof
  fix q assume i: "queue_inv q"
  show "queue_push x q = None \<longleftrightarrow> length (q_contents q) = q_capacity q" for x
    by (simp add: queue_push_def)
  show "queue_inv q' \<and> q_contents q' = q_contents q @ [x] \<and> q_capacity q' = q_capacity q"
    if "queue_push x q = Some q'" for x q'
  proof -
    have c: "q_count q < q_capacity q" "q' = q_inc (q_advance_rear (q_store x q))"
      using that i by (auto simp: queue_push_def queue_inv_def split: if_splits)
    show ?thesis using push_contents [OF i c(1), of x] c(2) by auto
  qed
  show "queue_pop q = None \<longleftrightarrow> q_contents q = []"
    by (simp add: queue_pop_def q_contents_Nil)
  show "queue_inv q' \<and> q_contents q = x # q_contents q' \<and> q_capacity q' = q_capacity q"
    if "queue_pop q = Some (x, q')" for x q'
  proof -
    have c: "0 < q_count q" "x = q_data q ! q_front q" "q' = q_dec (q_advance_front q)"
      using that by (auto simp: queue_pop_def split: if_splits)
    show ?thesis using pop_contents [OF i c(1)] c by auto
  qed
  show "length (q_contents q) \<le> q_capacity q"
    using i by (simp add: queue_inv_def)
qed

section \<open>The threads\<close>

text \<open>
  Program points of the main thread: \<^verbatim>\<open>accept\<close>, then \<^verbatim>\<open>queue_push\<close> with the descriptor in hand. In
  \<open>P_wait\<close> the thread sleeps in \<^verbatim>\<open>pthread_cond_wait\<close>; \<open>P_woken\<close> is the same call after it was woken and
  before it has the mutex again.
\<close>

datatype prod_pc = P_accept | P_lock int | P_check int | P_wait int | P_woken int
  | P_store int | P_rear | P_count | P_signal | P_unlock

datatype work_pc = W_lock | W_check | W_wait | W_woken | W_read
  | W_front int | W_count int | W_signal int | W_unlock int | W_handle int

datatype owner = Main | Worker nat

text \<open>
  The shared state. \<open>accepted\<close>, \<open>taken\<close> and \<open>served\<close> record the descriptors that \<^verbatim>\<open>accept\<close> returned,
  that \<^verbatim>\<open>queue_pop\<close> read from the array, and that \<^verbatim>\<open>handle_client\<close> answered and closed.
\<close>

record pool =
  queue :: socket_queue
  mutex :: "owner option"
  prod :: prod_pc
  works :: "work_pc list"
  accepted :: "int list"
  taken :: "int list"
  served :: "int list"

definition set_work :: "pool \<Rightarrow> nat \<Rightarrow> work_pc \<Rightarrow> pool" where
  "set_work st i pc = st\<lparr>works := (works st)[i := pc]\<rparr>"

text \<open>The thread returns from \<^verbatim>\<open>queue_pop\<close> and handles the client unless the descriptor is negative.\<close>

definition after_pop :: "int \<Rightarrow> work_pc" where
  "after_pop client_sock = (if client_sock \<ge> 0 then W_handle client_sock else W_lock)"

text \<open>
  Waking as POSIX has it: \<^verbatim>\<open>pthread_cond_signal\<close> wakes one of the waiting threads if there is one, and a
  waiting thread may wake up without a signal (the rules \<open>spurious\<close>).
\<close>

inductive main_step :: "pool \<Rightarrow> pool \<Rightarrow> bool" where
  m_lock: "prod st = P_lock s \<Longrightarrow> mutex st = None \<Longrightarrow>
    main_step st (st\<lparr>prod := P_check s, mutex := Some Main\<rparr>)"
| m_wait: "prod st = P_check s \<Longrightarrow> q_count (queue st) = q_capacity (queue st) \<Longrightarrow>
    main_step st (st\<lparr>prod := P_wait s, mutex := None\<rparr>)"
| m_check: "prod st = P_check s \<Longrightarrow> q_count (queue st) \<noteq> q_capacity (queue st) \<Longrightarrow>
    main_step st (st\<lparr>prod := P_store s\<rparr>)"
| m_spurious: "prod st = P_wait s \<Longrightarrow> main_step st (st\<lparr>prod := P_woken s\<rparr>)"
| m_relock: "prod st = P_woken s \<Longrightarrow> mutex st = None \<Longrightarrow>
    main_step st (st\<lparr>prod := P_check s, mutex := Some Main\<rparr>)"
| m_store: "prod st = P_store s \<Longrightarrow>
    main_step st (st\<lparr>prod := P_rear, queue := q_store s (queue st)\<rparr>)"
| m_rear: "prod st = P_rear \<Longrightarrow>
    main_step st (st\<lparr>prod := P_count, queue := q_advance_rear (queue st)\<rparr>)"
| m_count: "prod st = P_count \<Longrightarrow>
    main_step st (st\<lparr>prod := P_signal, queue := q_inc (queue st)\<rparr>)"
| m_signal: "prod st = P_signal \<Longrightarrow> i < length (works st) \<Longrightarrow> works st ! i = W_wait \<Longrightarrow>
    main_step st (set_work (st\<lparr>prod := P_unlock\<rparr>) i W_woken)"
| m_signal_none: "prod st = P_signal \<Longrightarrow> W_wait \<notin> set (works st) \<Longrightarrow>
    main_step st (st\<lparr>prod := P_unlock\<rparr>)"
| m_unlock: "prod st = P_unlock \<Longrightarrow> main_step st (st\<lparr>prod := P_accept, mutex := None\<rparr>)"

inductive work_step :: "nat \<Rightarrow> pool \<Rightarrow> pool \<Rightarrow> bool" for i where
  w_lock: "works st ! i = W_lock \<Longrightarrow> mutex st = None \<Longrightarrow>
    work_step i st (set_work (st\<lparr>mutex := Some (Worker i)\<rparr>) i W_check)"
| w_wait: "works st ! i = W_check \<Longrightarrow> q_count (queue st) = 0 \<Longrightarrow>
    work_step i st (set_work (st\<lparr>mutex := None\<rparr>) i W_wait)"
| w_check: "works st ! i = W_check \<Longrightarrow> q_count (queue st) \<noteq> 0 \<Longrightarrow>
    work_step i st (set_work st i W_read)"
| w_spurious: "works st ! i = W_wait \<Longrightarrow> work_step i st (set_work st i W_woken)"
| w_relock: "works st ! i = W_woken \<Longrightarrow> mutex st = None \<Longrightarrow>
    work_step i st (set_work (st\<lparr>mutex := Some (Worker i)\<rparr>) i W_check)"
| w_read: "works st ! i = W_read \<Longrightarrow> s = q_data (queue st) ! q_front (queue st) \<Longrightarrow>
    work_step i st (set_work (st\<lparr>taken := taken st @ [s]\<rparr>) i (W_front s))"
| w_front: "works st ! i = W_front s \<Longrightarrow>
    work_step i st (set_work (st\<lparr>queue := q_advance_front (queue st)\<rparr>) i (W_count s))"
| w_count: "works st ! i = W_count s \<Longrightarrow>
    work_step i st (set_work (st\<lparr>queue := q_dec (queue st)\<rparr>) i (W_signal s))"
| w_signal: "works st ! i = W_signal s \<Longrightarrow> prod st = P_wait r \<Longrightarrow>
    work_step i st (set_work (st\<lparr>prod := P_woken r\<rparr>) i (W_unlock s))"
| w_signal_none: "works st ! i = W_signal s \<Longrightarrow> (\<nexists>r. prod st = P_wait r) \<Longrightarrow>
    work_step i st (set_work st i (W_unlock s))"
| w_unlock: "works st ! i = W_unlock s \<Longrightarrow>
    work_step i st (set_work (st\<lparr>mutex := None\<rparr>) i (after_pop s))"
| w_handle: "works st ! i = W_handle s \<Longrightarrow>
    work_step i st (set_work (st\<lparr>served := served st @ [s]\<rparr>) i W_lock)"

text \<open>\<^verbatim>\<open>accept\<close> depends on the clients; a negative result only repeats the loop.\<close>

inductive accept_step :: "pool \<Rightarrow> pool \<Rightarrow> bool" where
  accept_ok: "prod st = P_accept \<Longrightarrow> s \<ge> 0 \<Longrightarrow>
    accept_step st (st\<lparr>prod := P_lock s, accepted := accepted st @ [s]\<rparr>)"
| accept_fail: "prod st = P_accept \<Longrightarrow> accept_step st st"

inductive pool_step :: "pool \<Rightarrow> pool \<Rightarrow> bool" where
  of_main: "main_step st st' \<Longrightarrow> pool_step st st'"
| of_worker: "i < length (works st) \<Longrightarrow> work_step i st st' \<Longrightarrow> pool_step st st'"
| of_accept: "accept_step st st' \<Longrightarrow> pool_step st st'"

abbreviation THREAD_POOL_SIZE :: nat where "THREAD_POOL_SIZE \<equiv> 10"

definition pool_init :: "int list \<Rightarrow> pool" where
  "pool_init data = \<lparr>queue = queue_init 16 data, mutex = None, prod = P_accept,
     works = replicate THREAD_POOL_SIZE W_lock, accepted = [], taken = [], served = []\<rparr>"

section \<open>The invariant of the pool\<close>

text \<open>Program points that hold the mutex.\<close>

fun main_cs :: "prod_pc \<Rightarrow> bool" where
  "main_cs P_accept = False" | "main_cs (P_lock _) = False" | "main_cs (P_wait _) = False"
| "main_cs (P_woken _) = False" | "main_cs _ = True"

fun work_cs :: "work_pc \<Rightarrow> bool" where
  "work_cs W_lock = False" | "work_cs W_wait = False" | "work_cs W_woken = False"
| "work_cs (W_handle _) = False" | "work_cs _ = True"

text \<open>
  The queue as the owner of the mutex will leave it: the rest of its critical section is run. This is a
  well-formed queue at every moment, while the array, the indices and the counter of \<open>queue st\<close> are
  updated one at a time.
\<close>

fun settle_main :: "prod_pc \<Rightarrow> socket_queue \<Rightarrow> socket_queue" where
  "settle_main P_rear q = q_inc (q_advance_rear q)"
| "settle_main P_count q = q_inc q"
| "settle_main _ q = q"

fun settle_work :: "work_pc \<Rightarrow> socket_queue \<Rightarrow> socket_queue" where
  "settle_work (W_front _) q = q_dec (q_advance_front q)"
| "settle_work (W_count _) q = q_dec q"
| "settle_work _ q = q"

definition settled :: "pool \<Rightarrow> socket_queue" where
  "settled st = (case mutex st of None \<Rightarrow> queue st | Some Main \<Rightarrow> settle_main (prod st) (queue st)
     | Some (Worker i) \<Rightarrow> settle_work (works st ! i) (queue st))"

fun pending :: "prod_pc \<Rightarrow> int list" where
  "pending (P_lock s) = [s]" | "pending (P_check s) = [s]" | "pending (P_wait s) = [s]"
| "pending (P_woken s) = [s]" | "pending (P_store s) = [s]" | "pending _ = []"

fun in_hand :: "work_pc \<Rightarrow> int multiset" where
  "in_hand (W_front s) = {#s#}" | "in_hand (W_count s) = {#s#}" | "in_hand (W_signal s) = {#s#}"
| "in_hand (W_unlock s) = {#s#}" | "in_hand (W_handle s) = {#s#}" | "in_hand _ = {#}"

definition active :: "work_pc list \<Rightarrow> nat" where
  "active ws = length (filter (\<lambda>w. w \<noteq> W_wait) ws)"

definition lock_inv :: "pool \<Rightarrow> bool" where
  "lock_inv st \<longleftrightarrow> (main_cs (prod st) \<longleftrightarrow> mutex st = Some Main)
     \<and> (\<forall>i<length (works st). work_cs (works st ! i) \<longleftrightarrow> mutex st = Some (Worker i))
     \<and> (\<forall>i. mutex st = Some (Worker i) \<longrightarrow> i < length (works st))
     \<and> length (works st) = THREAD_POOL_SIZE"

text \<open>What the owner knows about the counter between its test and its update.\<close>

fun storing :: "prod_pc \<Rightarrow> bool" where
  "storing (P_store _) = True" | "storing P_rear = True" | "storing P_count = True" | "storing _ = False"

fun guarded :: "work_pc \<Rightarrow> bool" where
  "guarded W_read = True" | "guarded (W_front _) = True" | "guarded (W_count _) = True" | "guarded _ = False"

definition guard_inv :: "pool \<Rightarrow> bool" where
  "guard_inv st \<longleftrightarrow> (storing (prod st) \<longrightarrow> q_count (queue st) < q_capacity (queue st))
     \<and> (\<forall>w\<in>set (works st). guarded w \<longrightarrow> 0 < q_count (queue st))"

definition data_inv :: "pool \<Rightarrow> bool" where
  "data_inv st \<longleftrightarrow> queue_inv (settled st)
     \<and> accepted st = taken st @ q_contents (settled st) @ pending (prod st)
     \<and> mset (taken st) = mset (served st) + sum_list (map in_hand (works st))
     \<and> (\<forall>s\<in>set (accepted st). 0 \<le> s)"

text \<open>No wake-up is lost.\<close>

definition wake_inv :: "pool \<Rightarrow> bool" where
  "wake_inv st \<longleftrightarrow>
     (W_wait \<in> set (works st)
        \<longrightarrow> q_count (queue st) \<le> active (works st) + (if prod st = P_signal then 1 else 0))
     \<and> (\<forall>s. prod st = P_wait s
        \<longrightarrow> q_count (queue st) = q_capacity (queue st) \<or> (\<exists>r. W_signal r \<in> set (works st)))"

definition pool_inv :: "pool \<Rightarrow> bool" where
  "pool_inv st \<longleftrightarrow> lock_inv st \<and> guard_inv st \<and> data_inv st \<and> wake_inv st"

lemma set_work_simps [simp]:
  "works (set_work st i pc) = (works st)[i := pc]" "queue (set_work st i pc) = queue st"
  "mutex (set_work st i pc) = mutex st" "prod (set_work st i pc) = prod st"
  "accepted (set_work st i pc) = accepted st" "taken (set_work st i pc) = taken st"
  "served (set_work st i pc) = served st"
  by (simp_all add: set_work_def)

lemma in_hand_update:
  assumes "i < length ws"
  shows "sum_list (map in_hand (ws[i := w])) + in_hand (ws ! i) = sum_list (map in_hand ws) + in_hand w"
proof -
  obtain a b where "ws = a @ ws ! i # b" and u: "\<And>y. ws[i := y] = a @ y # b"
    using assms by (rule list_update_split) blast
  then have "sum_list (map in_hand ws) = sum_list (map in_hand a) + in_hand (ws ! i) + sum_list (map in_hand b)"
    by (metis add.assoc list.simps(9) map_append sum_list.Cons sum_list.append)
  then show ?thesis by (simp add: u ac_simps)
qed

lemma active_update:
  assumes "i < length ws"
  shows "active (ws[i := w]) + (if ws ! i = W_wait then 0 else 1) = active ws + (if w = W_wait then 0 else 1)"
proof -
  obtain a b where ws: "ws = a @ ws ! i # b" and u: "\<And>y. ws[i := y] = a @ y # b"
    using assms by (rule list_update_split) blast
  have e: "active (a @ y # b) = active a + (if y = W_wait then 0 else 1) + active b" for y
    by (simp add: active_def)
  have "active ws = active a + (if ws ! i = W_wait then 0 else 1) + active b"
    using e [of "ws ! i"] ws by simp
  then show ?thesis using e [of w] by (simp add: u)
qed

lemma lock_inv_step:
  assumes "lock_inv st" "pool_step st st'"
  shows "lock_inv st'"
  using assms(2)
proof cases
  case of_main
  then show ?thesis
    using assms(1) by cases (auto simp: lock_inv_def nth_list_update)
next
  case (of_worker i)
  from of_worker(2) show ?thesis
    using assms(1) of_worker(1) by cases (auto simp: lock_inv_def nth_list_update after_pop_def)
next
  case of_accept
  then show ?thesis using assms(1) by cases (auto simp: lock_inv_def)
qed

lemma work_cs_owner:
  "lock_inv st \<Longrightarrow> i < length (works st) \<Longrightarrow> work_cs (works st ! i) \<Longrightarrow> mutex st = Some (Worker i)"
  by (simp add: lock_inv_def)

lemma main_cs_owner: "lock_inv st \<Longrightarrow> main_cs (prod st) \<Longrightarrow> mutex st = Some Main"
  by (simp add: lock_inv_def)

lemma guard_inv_main: "lock_inv st \<Longrightarrow> guard_inv st \<Longrightarrow> main_step st st' \<Longrightarrow> data_inv st \<Longrightarrow> guard_inv st'"
proof -
  assume l: "lock_inv st" and g: "guard_inv st" and m: "main_step st st'" and d: "data_inv st"
  have nocs: "mutex st = Some Main \<Longrightarrow> w \<in> set (works st) \<Longrightarrow> \<not> work_cs w" for w
    using l by (auto simp: lock_inv_def in_set_conv_nth)
  from m show ?thesis
  proof cases
    case (m_check s)
    then have "mutex st = Some Main" using main_cs_owner [OF l] by simp
    then have "q_count (queue st) \<le> q_capacity (queue st)"
      using d m_check by (simp add: data_inv_def settled_def queue_inv_def)
    then show ?thesis using m_check g by (auto simp: guard_inv_def)
  next
    case (m_signal i)
    then show ?thesis using g
      by (auto simp: guard_inv_def dest!: set_update_subset_insert [THEN subsetD])
  qed (use g in \<open>auto simp: guard_inv_def\<close>)
qed

lemma other_not_cs:
  assumes "lock_inv st" "i < length (works st)" "work_cs (works st ! i)" "j < length (works st)" "j \<noteq> i"
  shows "\<not> work_cs (works st ! j)" "\<not> main_cs (prod st)"
  using assms by (auto simp: lock_inv_def)

lemma guarded_cs: "guarded w \<Longrightarrow> work_cs w"
  by (cases w) simp_all

lemma storing_cs: "storing p \<Longrightarrow> main_cs p"
  by (cases p) simp_all

lemma after_pop_guarded [simp]: "\<not> guarded (after_pop s)"
  by (simp add: after_pop_def)

text \<open>The steps of a worker that leave the counter alone.\<close>

lemma guard_inv_upd:
  assumes "guard_inv st" "works t = works st" "q_count (queue t) = q_count (queue st)"
    "q_capacity (queue t) = q_capacity (queue st)" "prod t = prod st \<or> (\<exists>r. prod t = P_woken r)"
    "guarded pc \<longrightarrow> 0 < q_count (queue st)"
  shows "guard_inv (set_work t i pc)"
proof -
  have "w = pc \<or> w \<in> set (works st)" if "w \<in> set ((works st)[i := pc])" for w
    using that set_update_subset_insert [of "works st" i pc] by auto
  moreover have "storing (prod t) \<Longrightarrow> storing (prod st)" using assms(5) by auto
  ultimately show ?thesis
    using assms unfolding guard_inv_def set_work_simps by metis
qed

lemma guard_inv_work:
  assumes l: "lock_inv st" and g: "guard_inv st" and i: "i < length (works st)" and w: "work_step i st st'"
  shows "guard_inv st'"
proof -
  have pos: "0 < q_count (queue st)" if "guarded (works st ! i)"
    using g i that nth_mem [OF i] unfolding guard_inv_def by metis
  note upd = guard_inv_upd [OF g]
  from w show ?thesis
  proof cases
    case (w_count s)
    have "\<not> guarded v" if v: "v \<in> set ((works st)[i := W_signal s])" for v
    proof -
      obtain j where "j < length (works st)" "v = (works st)[i := W_signal s] ! j"
        using v by (auto simp: in_set_conv_nth)
      then show ?thesis
        using i other_not_cs(1) [OF l i, of j] w_count guarded_cs [of v] by (cases "j = i") auto
    qed
    moreover have "mutex st = Some (Worker i)" using work_cs_owner [OF l i] w_count by simp
    then have "\<not> storing (prod st)" using l storing_cs [of "prod st"] by (auto simp: lock_inv_def)
    ultimately show ?thesis
      using w_count by (simp add: guard_inv_def)
  next
    case (w_front s)
    then show ?thesis using upd [of "st\<lparr>queue := q_advance_front (queue st)\<rparr>" "W_count s"] pos by simp
  next
    case (w_read s)
    then show ?thesis using upd [of "st\<lparr>taken := taken st @ [s]\<rparr>" "W_front s"] pos by simp
  qed (auto intro!: upd)
qed

lemma wake_inv_main:
  assumes l: "lock_inv st" and w: "wake_inv st" and m: "main_step st st'"
  shows "wake_inv st'"
  using m
proof cases
  case (m_signal i)
  then show ?thesis
    using w active_update [OF m_signal(3), of W_woken]
    by (auto simp: wake_inv_def dest!: set_update_subset_insert [THEN subsetD])
qed (use w in \<open>auto simp: wake_inv_def\<close>)

lemma wake_inv_upd:
  assumes "wake_inv st" and i: "i < length (works st)" and ws: "works t = works st"
    and "q_count (queue t) \<le> q_count (queue st)" "q_capacity (queue t) = q_capacity (queue st)"
    and "pc \<noteq> W_wait" and "prod t = prod st \<or> (\<exists>r. prod t = P_woken r) \<and> prod st \<noteq> P_signal"
    and sg: "(\<exists>r. prod t = P_wait r) \<longrightarrow> (\<exists>r. pc = W_signal r)
        \<or> q_count (queue t) = q_count (queue st) \<and> \<not> (\<exists>r. works st ! i = W_signal r)"
  shows "wake_inv (set_work t i pc)"
proof -
  have a: "active (works st) \<le> active (works (set_work t i pc))"
    using active_update [OF i, of pc] assms(6) ws by (auto split: if_splits)
  have b: "W_wait \<in> set (works (set_work t i pc)) \<Longrightarrow> W_wait \<in> set (works st)"
    using assms(6) set_update_subset_insert [of "works st" i pc] by (auto simp: ws)
  have c: "W_signal r \<in> set (works (set_work t i pc))"
    if "W_signal r \<in> set (works st)" "\<nexists>q. works st ! i = W_signal q" for r
    using that ws by (metis set_update_other set_work_simps(1))
  have d: "pc = W_signal r \<Longrightarrow> W_signal r \<in> set (works (set_work t i pc))" for r
    using i ws set_update_memI by fastforce
  show ?thesis
    unfolding wake_inv_def
  proof (intro conjI impI allI)
    assume "W_wait \<in> set (works (set_work t i pc))"
    then have "q_count (queue st) \<le> active (works st) + (if prod st = P_signal then 1 else 0)"
      using assms(1) b by (simp add: wake_inv_def)
    then show "q_count (queue (set_work t i pc)) \<le> active (works (set_work t i pc)) + (if prod (set_work t i pc) = P_signal then 1 else 0)"
      using a assms(4,7) by (auto split: if_splits)
  next
    fix s assume p: "prod (set_work t i pc) = P_wait s"
    then have "prod st = P_wait s" using assms(7) by auto
    then show "q_count (queue (set_work t i pc)) = q_capacity (queue (set_work t i pc)) \<or> (\<exists>r. W_signal r \<in> set (works (set_work t i pc)))"
    proof (cases "\<exists>r. pc = W_signal r")
      case False
      then have f: "q_count (queue t) = q_count (queue st)" "\<nexists>r. works st ! i = W_signal r"
        using sg p by auto
      have "q_count (queue st) = q_capacity (queue st) \<or> (\<exists>r. W_signal r \<in> set (works st))"
        using assms(1) \<open>prod st = P_wait s\<close> by (simp add: wake_inv_def)
      then show ?thesis using f c assms(5) by auto
    qed (use d in blast)
  qed
qed

lemma wake_inv_work:
  assumes l: "lock_inv st" and w: "wake_inv st" and i: "i < length (works st)" and s: "work_step i st st'"
  shows "wake_inv st'"
  using s
proof cases
  case w_wait
  have "W_signal r \<in> set ((works st)[i := W_wait])" if "W_signal r \<in> set (works st)" for r
    using that w_wait(2) by (simp add: set_update_other)
  then show ?thesis using w w_wait by (fastforce simp: wake_inv_def)
qed (auto simp: after_pop_def intro!: wake_inv_upd [OF w i])

lemma settled_owner:
  "mutex st = None \<Longrightarrow> settled st = queue st"
  "mutex st = Some Main \<Longrightarrow> settled st = settle_main (prod st) (queue st)"
  "mutex st = Some (Worker i) \<Longrightarrow> settled st = settle_work (works st ! i) (queue st)"
  by (simp_all add: settled_def)

text \<open>Steps that change neither the queue as settled nor what the threads hold.\<close>

lemma data_inv_same:
  assumes "data_inv st" "settled st' = settled st" "accepted st' = accepted st" "taken st' = taken st"
    "pending (prod st') = pending (prod st)"
    "mset (served st') + sum_list (map in_hand (works st')) = mset (served st) + sum_list (map in_hand (works st))"
  shows "data_inv st'"
  using assms by (simp add: data_inv_def)

lemma data_inv_main:
  assumes l: "lock_inv st" and g: "guard_inv st" and d: "data_inv st" and m: "main_step st st'"
  shows "data_inv st'"
proof -
  note same = data_inv_same [OF d]
  have own: "mutex st = Some Main" if "main_cs (prod st)" using l that by (simp add: lock_inv_def)
  from m show ?thesis
  proof cases
    case (m_store s)
    then have q: "settled st = queue st" using own by (simp add: settled_def)
    have "q_count (queue st) < q_capacity (queue st)" using g m_store by (simp add: guard_inv_def)
    then have "queue_inv (settled st')" "q_contents (settled st') = q_contents (settled st) @ [s]"
      using push_contents [of "queue st" s] d q m_store own by (simp_all add: data_inv_def settled_def)
    then show ?thesis using d m_store by (simp add: data_inv_def)
  next
    case (m_signal i)
    then have own: "mutex st = Some Main" using own by simp
    show ?thesis
      using m_signal own in_hand_update [OF m_signal(3), of W_woken] by (intro same) (simp_all add: settled_def)
  next
    case (m_spurious s)
    then have "mutex st \<noteq> Some Main" using l by (auto simp: lock_inv_def)
    then show ?thesis
      using m_spurious by (intro same) (simp_all add: settled_def split: option.splits owner.splits)
  qed (rule same; use own in \<open>simp add: settled_def\<close>)+
qed

lemma data_inv_work:
  assumes l: "lock_inv st" and g: "guard_inv st" and d: "data_inv st"
    and i: "i < length (works st)" and s: "work_step i st st'"
  shows "data_inv st'"
proof -
  note same = data_inv_same [OF d] and hand = in_hand_update [OF i]
  have own: "mutex st = Some (Worker i)" if "work_cs (works st ! i)" using work_cs_owner [OF l i that] .
  have other: "settled (set_work (st\<lparr>served := sv\<rparr>) i pc) = settled st" if "\<not> work_cs (works st ! i)" for sv pc
  proof -
    have "mutex st \<noteq> Some (Worker i)" using l i that by (auto simp: lock_inv_def)
    then show ?thesis by (auto simp: settled_def split: option.splits owner.splits)
  qed
  from s show ?thesis
  proof cases
    case (w_read r)
    have c: "0 < q_count (queue st)" using g w_read nth_mem [OF i] unfolding guard_inv_def by (metis guarded.simps(1))
    have q: "settled st = queue st" using own w_read by (simp add: settled_def)
    have q': "settled st' = q_dec (q_advance_front (queue st))" using own w_read i by (simp add: settled_def)
    have "queue_inv (settled st')" "q_contents (settled st) = r # q_contents (settled st')"
      using pop_contents [of "queue st"] c d w_read(3) unfolding q q' by (simp_all add: data_inv_def q)
    moreover have "sum_list (map in_hand (works st')) = sum_list (map in_hand (works st)) + {#r#}"
      using hand [of "W_front r"] w_read by simp
    ultimately show ?thesis using d w_read by (simp add: data_inv_def)
  next
    case (w_handle r)
    have "sum_list (map in_hand ((works st)[i := W_lock])) + {#r#} = sum_list (map in_hand (works st))"
      using hand [of W_lock] w_handle by simp
    then show ?thesis
      using w_handle other by (intro same) (simp_all add: ac_simps)
  next
    case (w_unlock r)
    have "r \<in># sum_list (map in_hand (works st))"
      using nth_mem [OF i] w_unlock by (auto simp: in_set_conv_decomp)
    then have "r \<in># mset (taken st)" using d by (simp add: data_inv_def)
    then have "0 \<le> r" using d by (simp add: data_inv_def)
    then show ?thesis
      using w_unlock hand [of "after_pop r"] own by (intro same) (simp_all add: settled_def after_pop_def)
  next
    case w_spurious
    then show ?thesis using other [of "served st" W_woken] hand [of W_woken] by (intro same) simp_all
  next
    case (w_signal r q)
    then show ?thesis using own hand [of "W_unlock r"] i by (intro same) (simp_all add: settled_def)
  next
    case (w_signal_none r)
    then show ?thesis using own hand [of "W_unlock r"] i by (intro same) (simp_all add: settled_def)
  next
    case (w_front r)
    then show ?thesis using own hand [of "W_count r"] i by (intro same) (simp_all add: settled_def)
  next
    case (w_count r)
    then show ?thesis using own hand [of "W_signal r"] i by (intro same) (simp_all add: settled_def)
  qed (rule same; use own i hand in \<open>simp add: settled_def\<close>)+
qed

lemma pool_inv_step: "pool_inv st \<Longrightarrow> pool_step st st' \<Longrightarrow> pool_inv st'"
proof -
  assume i: "pool_inv st" and s: "pool_step st st'"
  then have l: "lock_inv st'" using lock_inv_step by (auto simp: pool_inv_def)
  note I = i [unfolded pool_inv_def]
  from s show ?thesis
  proof cases
    case of_main
    then show ?thesis
      using l I guard_inv_main data_inv_main wake_inv_main unfolding pool_inv_def by blast
  next
    case (of_worker i)
    then show ?thesis
      using l I guard_inv_work data_inv_work wake_inv_work unfolding pool_inv_def by blast
  next
    case of_accept
    then show ?thesis
    proof cases
      case (accept_ok r)
      then have "mutex st \<noteq> Some Main" using I by (auto simp: lock_inv_def)
      then have "settled st' = settled st"
        using accept_ok by (auto simp: settled_def split: option.splits owner.splits)
      then show ?thesis
        using accept_ok I l by (auto simp: pool_inv_def guard_inv_def data_inv_def wake_inv_def)
    next
      case accept_fail
      then show ?thesis using i by simp
    qed
  qed
qed

lemma in_hand_init: "sum_list (map in_hand (replicate n W_lock)) = {#}"
  by (induction n) simp_all

lemma pool_init_inv: "length data = 16 \<Longrightarrow> pool_inv (pool_init data)"
  by (auto simp: pool_init_def pool_inv_def lock_inv_def guard_inv_def data_inv_def wake_inv_def
      settled_def queue_init_def queue_inv_def q_contents_def in_hand_init simp del: map_replicate)

interpretation tp: transition_system "\<lambda>st. \<exists>data. length data = 16 \<and> st = pool_init data" pool_step pool_inv
  using pool_init_inv pool_inv_step by unfold_locales auto

lemma pool_reach_inv:
  assumes "length data = 16" "pool_step\<^sup>*\<^sup>* (pool_init data) st"
  shows "pool_inv st"
  using assms tp.steps_inv pool_init_inv by blast

lemma cs_can_step:
  "main_cs (prod st) \<Longrightarrow> \<exists>st'. main_step st st'"
  "work_cs (works st ! i) \<Longrightarrow> \<exists>st'. work_step i st st'"
proof -
  show "\<exists>st'. main_step st st'" if "main_cs (prod st)"
  proof (cases "prod st")
    case P_signal
    then show ?thesis using main_step.intros(9,10) by (metis in_set_conv_nth)
  qed (use that in simp_all, (blast intro: main_step.intros)+)
  show "\<exists>st'. work_step i st st'" if "work_cs (works st ! i)"
    using that by (cases "works st ! i") (auto intro: work_step.intros, (blast intro: work_step.intros)+)
qed

text \<open>A worker that is neither waiting nor in its critical section only needs a free mutex.\<close>

lemma free_worker_can_step:
  "mutex st = None \<Longrightarrow> works st ! i \<noteq> W_wait \<Longrightarrow> \<exists>st'. work_step i st st'"
  using cs_can_step(2) [of st i] by (cases "works st ! i") (auto intro: work_step.intros)

lemma active_pos: "0 < active ws \<Longrightarrow> \<exists>i<length ws. ws ! i \<noteq> W_wait"
  unfolding active_def by (auto simp: filter_empty_conv in_set_conv_nth)

lemma not_stuck:
  assumes inv: "pool_inv st" and work: "q_count (queue st) > 0 \<or> prod st \<noteq> P_accept"
  shows "(\<exists>st'. main_step st st' \<and> \<not> (\<exists>s. prod st = P_wait s))
    \<or> (\<exists>i<length (works st). works st ! i \<noteq> W_wait \<and> (\<exists>st'. work_step i st st'))"
proof (cases "mutex st")
  case (Some ow)
  show ?thesis
  proof (cases ow)
    case Main
    then have "main_cs (prod st)" using inv Some by (simp add: pool_inv_def lock_inv_def)
    then show ?thesis using cs_can_step(1) by fastforce
  next
    case (Worker i)
    then have "i < length (works st)" "work_cs (works st ! i)" using inv Some by (auto simp: pool_inv_def lock_inv_def)
    then show ?thesis using cs_can_step(2) by (metis work_cs.simps(2))
  qed
next
  case None
  have n: "0 < length (works st)" using inv by (simp add: pool_inv_def lock_inv_def)
  from None have free: "\<not> main_cs (prod st)" "\<forall>i<length (works st). \<not> work_cs (works st ! i)"
    using inv by (auto simp: pool_inv_def lock_inv_def)
  show ?thesis
  proof (cases "prod st = P_accept \<or> (\<exists>s. prod st = P_wait s)")
    case True
    have "0 < q_count (queue st)"
    proof (cases "prod st = P_accept")
      case False
      then obtain s where s: "prod st = P_wait s" using True by blast
      have "W_signal r \<notin> set (works st)" for r using free(2) by (auto simp: in_set_conv_nth)
      then have "q_count (queue st) = q_capacity (queue st)"
        using inv s by (auto simp: pool_inv_def wake_inv_def)
      moreover have "0 < q_capacity (queue st)"
        using inv None by (simp add: pool_inv_def data_inv_def settled_def queue_inv_def)
      ultimately show ?thesis by simp
    qed (use work in simp)
    moreover have "prod st \<noteq> P_signal" using True by auto
    ultimately have "W_wait \<notin> set (works st) \<or> 0 < active (works st)"
      using inv by (auto simp: pool_inv_def wake_inv_def)
    then obtain i where "i < length (works st)" "works st ! i \<noteq> W_wait"
      using active_pos n by (metis nth_mem)
    then show ?thesis using free_worker_can_step [OF None] by blast
  next
    case False
    then show ?thesis
      using free(1) None by (cases "prod st") (auto intro: main_step.intros)
  qed
qed

section \<open>Properties\<close>

text \<open>
  Claim C9. The circular queue is a bounded FIFO: for every sequence of \<^verbatim>\<open>queue_push\<close> and
  \<^verbatim>\<open>queue_pop\<close> calls that does not block, the values popped followed by the values left in the ring are
  the values pushed, in order, and the ring never holds more than its capacity. A push blocks exactly
  on a full ring and a pop exactly on an empty one.
\<close>

theorem queue_is_fifo:
  assumes "0 < capacity" "length data = capacity"
    and "fifo_run queue_push queue_pop ops (queue_init capacity data) = Some (out, q)"
  shows "out @ q_contents q = pushed ops \<and> length (q_contents q) \<le> capacity
    \<and> (queue_push x q = None \<longleftrightarrow> length (q_contents q) = capacity) \<and> (queue_pop q = None \<longleftrightarrow> q_contents q = [])"
proof -
  let ?q = "queue_init capacity data"
  have i: "queue_inv ?q" "q_contents ?q = []" "q_capacity ?q = capacity"
    using assms by (simp_all add: queue_init_def queue_inv_def q_contents_def)
  show ?thesis
    using sq.run_fifo [OF i(1) assms(3)] i sq.push_blocks [of q x] sq.pop_blocks [of q] by simp
qed

theorem queue_is_fifo_witness:
  "\<exists>q. fifo_run queue_push queue_pop [Push 5, Push 6, Pop, Push 7] (queue_init 2 [0, 0]) = Some ([5], q)
     \<and> [5] @ q_contents q = [5, 6, 7]"
proof -
  have "\<exists>q. fifo_run queue_push queue_pop [Push 5, Push 6, Pop, Push 7] (queue_init 2 [0, 0]) = Some ([5], q)"
    by (simp add: queue_init_def queue_push_def queue_pop_def)
  then obtain q where
    q: "fifo_run queue_push queue_pop [Push 5, Push 6, Pop, Push 7] (queue_init 2 [0, 0]) = Some ([5], q)" ..
  have "[5] @ q_contents q = pushed [Push 5, Push 6, Pop, Push 7]"
    using queue_is_fifo [OF _ _ q, of 0] by simp
  then show ?thesis using q by auto
qed

text \<open>
  Claim C10. No client is lost, duplicated or overtaken, however the threads interleave: in every
  reachable state at most one thread is inside a critical section; the descriptors that \<^verbatim>\<open>accept\<close>
  returned are, in order, those the workers took, those in the ring (once its owner has finished its
  update) and the one the main thread still holds; and the descriptors taken are exactly those
  answered and closed plus those in the hands of workers.
\<close>

theorem pool_serves_each_client_once:
  assumes "length data = 16" "pool_step\<^sup>*\<^sup>* (pool_init data) st"
  shows "(\<forall>i<length (works st). \<forall>j<length (works st).
            work_cs (works st ! i) \<and> work_cs (works st ! j) \<longrightarrow> i = j)
    \<and> (main_cs (prod st) \<longrightarrow> (\<forall>i<length (works st). \<not> work_cs (works st ! i)))
    \<and> accepted st = taken st @ q_contents (settled st) @ pending (prod st)
    \<and> mset (taken st) = mset (served st) + sum_list (map in_hand (works st))"
  using pool_reach_inv [OF assms] by (auto simp: pool_inv_def lock_inv_def data_inv_def)

lemma pool_run_example:
  "pool_step\<^sup>*\<^sup>* (pool_init data) ((pool_init data)\<lparr>prod := P_lock 4, accepted := [4]\<rparr>)"
proof -
  have "accept_step (pool_init data) ((pool_init data)\<lparr>prod := P_lock 4, accepted := accepted (pool_init data) @ [4]\<rparr>)"
    by (rule accept_step.accept_ok) (simp_all add: pool_init_def)
  then show ?thesis by (auto simp: pool_init_def intro: pool_step.intros)
qed

theorem pool_serves_each_client_once_witness:
  "\<exists>st. pool_step\<^sup>*\<^sup>* (pool_init (replicate 16 0)) st \<and> prod st = P_lock 4
     \<and> accepted st = taken st @ q_contents (settled st) @ [4]"
proof -
  let ?st = "(pool_init (replicate 16 0))\<lparr>prod := P_lock 4, accepted := [4]\<rparr>"
  have "accepted ?st = taken ?st @ q_contents (settled ?st) @ pending (prod ?st)"
    using pool_serves_each_client_once [OF _ pool_run_example [of "replicate 16 0"]] by simp
  then show ?thesis using pool_run_example [of "replicate 16 0"] by (intro exI [of _ ?st]) simp
qed

text \<open>
  Claim C11. The pool does not deadlock and loses no wake-up: in every reachable state in which a client
  waits in the ring, or the main thread is inside \<^verbatim>\<open>queue_push\<close>, some thread can take a step of its own,
  that is, a step that needs neither a new connection nor a spurious wake-up of a sleeping thread.
\<close>

theorem pool_never_stuck:
  assumes "length data = 16" "pool_step\<^sup>*\<^sup>* (pool_init data) st"
    and "q_count (queue st) > 0 \<or> prod st \<noteq> P_accept"
  shows "(\<exists>st'. main_step st st' \<and> \<not> (\<exists>s. prod st = P_wait s))
    \<or> (\<exists>i<length (works st). works st ! i \<noteq> W_wait \<and> (\<exists>st'. work_step i st st'))"
  using pool_reach_inv [OF assms(1,2)] assms(3) by (rule not_stuck)

theorem pool_never_stuck_witness:
  "\<exists>st. pool_step\<^sup>*\<^sup>* (pool_init (replicate 16 0)) st \<and> prod st = P_lock 4
     \<and> ((\<exists>st'. main_step st st' \<and> \<not> (\<exists>s. prod st = P_wait s))
        \<or> (\<exists>i<length (works st). works st ! i \<noteq> W_wait \<and> (\<exists>st'. work_step i st st')))"
proof -
  let ?st = "(pool_init (replicate 16 0))\<lparr>prod := P_lock 4, accepted := [4]\<rparr>"
  show ?thesis
    using pool_never_stuck [OF _ pool_run_example [of "replicate 16 0"]] pool_run_example [of "replicate 16 0"]
    by (intro exI [of _ ?st]) simp
qed

end
