(* ===== verification/WorkerPool.thy ===== *)
theory WorkerPool
  imports CPrelude
begin

text \<open>
  The server with a pool of worker processes,
  \<^verbatim>\<open>hw16_sockets/p2_server_template/parallel_server_with_pool_servers/server.c\<close>: the table of workers, the
  body of the accepting loop, the loop of a worker, and the control message that carries a descriptor
  over the socket pair. The results of the system calls an iteration makes are its inputs.
\<close>

abbreviation WORKER_MAX :: nat where "WORKER_MAX \<equiv> 5"

record worker_t =
  w_pid :: int
  w_comm_fd :: int
  w_busy :: bool

record workers_state =
  workers :: "worker_t list"
  worker_count :: nat

datatype wp_out =
    Close_fd int | Send_fd int int | Rejected | Spawn_error | Send_error | Accept_error
  | Time_to int string | Status_free int | Worker_exit

section \<open>Descriptor passing\<close>

text \<open>
  A message as \<^verbatim>\<open>sendmsg\<close> takes it: one dummy byte and a control message with its level, type, length
  (the header's 16 bytes and the data, as \<^verbatim>\<open>CMSG_LEN\<close> gives on 64 bits) and the descriptor.
\<close>

record cmsg =
  cmsg_rights :: bool
  cmsg_len :: nat
  cmsg_fd :: int

record msg =
  msg_data :: string
  msg_control :: "cmsg option"
  msg_controllen :: nat

definition send_fd_msg :: "int \<Rightarrow> msg" where
  "send_fd_msg fd_to_send =
     (let c = \<lparr>cmsg_rights = True, cmsg_len = 16 + 4, cmsg_fd = fd_to_send\<rparr>
      in \<lparr>msg_data = ''*'', msg_control = Some c, msg_controllen = cmsg_len c\<rparr>)"

text \<open>\<open>None\<close> is a negative result of \<^verbatim>\<open>recvmsg\<close>. A message without a control message, or with another type, gives -1.\<close>

definition recv_fd :: "msg option \<Rightarrow> int" where
  "recv_fd received =
     (case received of None \<Rightarrow> -1
      | Some m \<Rightarrow> (case msg_control m of None \<Rightarrow> -1
          | Some c \<Rightarrow> if cmsg_rights c then cmsg_fd c else -1))"

section \<open>The worker process\<close>

text \<open>
  The loop of a worker on the messages it receives, with the text \<^verbatim>\<open>get_time\<close> writes for each: it answers
  and closes each client and reports itself free, until \<^verbatim>\<open>recv_fd\<close> fails.
\<close>

fun worker_loop :: "int \<Rightarrow> (msg option \<times> string) list \<Rightarrow> wp_out list" where
  "worker_loop comm_fd [] = []"
| "worker_loop comm_fd ((m, now) # rest) =
     (let client_fd = recv_fd m
      in if client_fd < 0 then [Close_fd comm_fd, Worker_exit]
         else [Time_to client_fd now, Close_fd client_fd, Status_free comm_fd] @ worker_loop comm_fd rest)"

section \<open>The server\<close>

definition find_free_worker :: "workers_state \<Rightarrow> int" where
  "find_free_worker st = c_index (first_index (\<lambda>w. \<not> w_busy w) (take (worker_count st) (workers st)))"

datatype spawn_result = Socketpair_failed | Fork_failed int int | Forked int int int

text \<open>The state, what was done, and whether the result is 0.\<close>

definition spawn_worker :: "workers_state \<Rightarrow> nat \<Rightarrow> spawn_result \<Rightarrow> workers_state \<times> wp_out list \<times> bool" where
  "spawn_worker st index r =
     (case r of
        Socketpair_failed \<Rightarrow> (st, [Spawn_error], False)
      | Fork_failed sv0 sv1 \<Rightarrow> (st, [Spawn_error, Close_fd sv0, Close_fd sv1], False)
      | Forked pid sv0 sv1 \<Rightarrow>
          (st\<lparr>workers := (workers st)[index := \<lparr>w_pid = pid, w_comm_fd = sv0, w_busy = False\<rparr>],
              worker_count := worker_count st + 1\<rparr>, [Close_fd sv1], True))"

definition set_busy :: "workers_state \<Rightarrow> nat \<Rightarrow> bool \<Rightarrow> workers_state" where
  "set_busy st i b = st\<lparr>workers := (workers st)[i := (workers st ! i)\<lparr>w_busy := b\<rparr>]\<rparr>"

text \<open>
  The loop at line 132: each busy worker is read; \<open>reads i\<close> is the byte of a \<^verbatim>\<open>read\<close> that returned 1,
  \<open>None\<close> for any other result.
\<close>

definition check_workers :: "(nat \<Rightarrow> char option) \<Rightarrow> workers_state \<Rightarrow> workers_state" where
  "check_workers reads st =
     fold (\<lambda>i st. if w_busy (workers st ! i) \<and> reads i = Some (CHR ''1'') then set_busy st i False else st)
          [0..<worker_count st] st"

text \<open>One iteration: \<^verbatim>\<open>accept\<close>'s result, the result of \<^verbatim>\<open>spawn_worker\<close>'s calls if it is called, of \<^verbatim>\<open>sendmsg\<close>, and the reads.\<close>

definition accept_client ::
  "workers_state \<Rightarrow> int \<Rightarrow> spawn_result \<Rightarrow> bool \<Rightarrow> (nat \<Rightarrow> char option) \<Rightarrow> workers_state \<times> wp_out list" where
  "accept_client st client_fd spawned sent reads =
     (if client_fd < 0 then (st, [Accept_error])
      else
        (let idx = find_free_worker st;
             (st, out, idx, ok) =
               (if idx < 0 \<and> worker_count st < WORKER_MAX
                then (let i = worker_count st; (st', out, ok) = spawn_worker st i spawned
                      in (st', out, int i, ok))
                else (st, [], idx, True))
         in if \<not> ok then (st, out @ [Close_fd client_fd])
            else if idx < 0 then (st, out @ [Rejected, Close_fd client_fd])
            else
              (let i = nat idx
               in if \<not> sent
                  then (set_busy st i False, out @ [Send_error, Close_fd client_fd])
                  else (check_workers reads (set_busy st i True),
                        out @ [Send_fd (w_comm_fd (workers st ! i)) client_fd, Close_fd client_fd]))))"

text \<open>The start: the table is zeroed memory and two workers are spawned; \<open>None\<close> is \<^verbatim>\<open>exit(EXIT_FAILURE)\<close>.\<close>

definition workers_start :: "spawn_result \<Rightarrow> spawn_result \<Rightarrow> workers_state option" where
  "workers_start r0 r1 =
     (let st = \<lparr>workers = replicate WORKER_MAX \<lparr>w_pid = 0, w_comm_fd = 0, w_busy = False\<rparr>, worker_count = 0\<rparr>;
          (st, _, ok0) = spawn_worker st 0 r0
      in if \<not> ok0 then None
         else (let (st, _, ok1) = spawn_worker st 1 r1 in if ok1 then Some st else None))"

definition workers_inv :: "workers_state \<Rightarrow> bool" where
  "workers_inv st \<longleftrightarrow> length (workers st) = WORKER_MAX \<and> worker_count st \<le> WORKER_MAX"

abbreviation live :: "workers_state \<Rightarrow> worker_t list" where
  "live st \<equiv> take (worker_count st) (workers st)"

section \<open>Lemmas\<close>

lemma set_busy_simps [simp]:
  "worker_count (set_busy st i b) = worker_count st" "length (workers (set_busy st i b)) = length (workers st)"
  by (simp_all add: set_busy_def)

lemma check_fold:
  assumes "worker_count st \<le> length (workers st)" "n \<le> worker_count st"
  shows "let st' = fold (\<lambda>i st. if w_busy (workers st ! i) \<and> reads i = Some (CHR ''1'') then set_busy st i False else st) [0..<n] st
    in worker_count st' = worker_count st \<and> length (workers st') = length (workers st)
      \<and> (\<forall>i<length (workers st). w_comm_fd (workers st' ! i) = w_comm_fd (workers st ! i)
          \<and> w_busy (workers st' ! i) = (w_busy (workers st ! i) \<and> (i < n \<longrightarrow> reads i \<noteq> Some (CHR ''1''))))"
  using assms(2)
proof (induction n)
  case (Suc n)
  then show ?case
    using assms(1) by (auto simp: Let_def set_busy_def nth_list_update less_Suc_eq)
qed simp

lemma check_workers_effect:
  assumes "worker_count st \<le> length (workers st)"
  shows "worker_count (check_workers reads st) = worker_count st"
    "length (workers (check_workers reads st)) = length (workers st)"
    "i < length (workers st) \<Longrightarrow> w_comm_fd (workers (check_workers reads st) ! i) = w_comm_fd (workers st ! i)"
    "i < worker_count st \<Longrightarrow> w_busy (workers (check_workers reads st) ! i)
       = (w_busy (workers st ! i) \<and> reads i \<noteq> Some (CHR ''1''))"
  using check_fold [OF assms, of "worker_count st" reads] assms by (auto simp: check_workers_def Let_def)

lemma find_free_worker_Some:
  assumes "0 \<le> find_free_worker st" "workers_inv st"
  shows "nat (find_free_worker st) < worker_count st" "\<not> w_busy (workers st ! nat (find_free_worker st))"
  using assms first_index_SomeD [of "\<lambda>w. \<not> w_busy w" "live st"]
  by (auto simp: find_free_worker_def workers_inv_def c_index_def split: option.splits)

lemma find_free_worker_None:
  assumes "find_free_worker st < 0" "i < worker_count st" "workers_inv st"
  shows "w_busy (workers st ! i)"
proof -
  have "workers st ! i \<in> set (live st)" using assms(2,3) by (auto simp: in_set_conv_nth workers_inv_def)
  then show ?thesis
    using assms(1) by (auto simp: find_free_worker_def first_index_None_iff)
qed

fun spawn_fds :: "spawn_result \<Rightarrow> int set" where
  "spawn_fds Socketpair_failed = {}"
| "spawn_fds (Fork_failed sv0 sv1) = {sv0, sv1}"
| "spawn_fds (Forked _ sv0 sv1) = {sv0, sv1}"

text \<open>The iteration by cases: a free worker, a new worker, a failed one, or none left.\<close>

lemma accept_client_free:
  assumes "0 \<le> client_fd" "find_free_worker st = int i"
  shows "accept_client st client_fd sp sent reads =
    (if sent then (check_workers reads (set_busy st i True), [Send_fd (w_comm_fd (workers st ! i)) client_fd, Close_fd client_fd])
     else (set_busy st i False, [Send_error, Close_fd client_fd]))"
  using assms by (simp add: accept_client_def Let_def)

lemma accept_client_full:
  assumes "0 \<le> client_fd" "find_free_worker st < 0" "worker_count st \<ge> WORKER_MAX"
  shows "accept_client st client_fd sp sent reads = (st, [Rejected, Close_fd client_fd])"
  using assms by (simp add: accept_client_def Let_def)

lemma accept_client_spawn:
  assumes "0 \<le> client_fd" "find_free_worker st < 0" "worker_count st < WORKER_MAX"
    and "spawn_worker st (worker_count st) sp = (st1, out, ok)"
  shows "accept_client st client_fd sp sent reads =
    (if \<not> ok then (st1, out @ [Close_fd client_fd])
     else if sent then (check_workers reads (set_busy st1 (worker_count st) True),
       out @ [Send_fd (w_comm_fd (workers st1 ! worker_count st)) client_fd, Close_fd client_fd])
     else (set_busy st1 (worker_count st) False, out @ [Send_error, Close_fd client_fd]))"
  using assms by (simp add: accept_client_def Let_def)

lemma inv_steps:
  "workers_inv st \<Longrightarrow> workers_inv (set_busy st i b)"
  "workers_inv st \<Longrightarrow> workers_inv (check_workers reads st)"
  using check_workers_effect(1,2) [of st reads] by (simp_all add: workers_inv_def)

section \<open>Properties\<close>


text \<open>The two workers of the start, both free.\<close>

definition two_workers :: workers_state where
  "two_workers = \<lparr>workers = [\<lparr>w_pid = 10, w_comm_fd = 4, w_busy = False\<rparr>, \<lparr>w_pid = 11, w_comm_fd = 6, w_busy = False\<rparr>]
     @ replicate 3 \<lparr>w_pid = 0, w_comm_fd = 0, w_busy = False\<rparr>, worker_count = 2\<rparr>"

lemma two_workers_start: "workers_start (Forked 10 4 5) (Forked 11 6 7) = Some two_workers"
  by (simp add: workers_start_def spawn_worker_def two_workers_def numeral_eq_Suc)


fun serve_all :: "workers_state \<Rightarrow> int list \<Rightarrow> workers_state \<times> wp_out list" where
  "serve_all st [] = (st, [])"
| "serve_all st (fd # fds) =
     (let (st1, out1) = accept_client st fd Socketpair_failed True (\<lambda>_. Some (CHR ''1''));
          (st2, out2) = serve_all st1 fds
      in (st2, out1 @ out2))"

definition idle :: "workers_state \<Rightarrow> bool" where
  "idle st \<longleftrightarrow> workers_inv st \<and> worker_count st = 2 \<and> (\<forall>i<2. \<not> w_busy (workers st ! i))"

lemma accept_client_idle:
  assumes "idle st" "0 \<le> fd"
  shows "\<exists>st'. accept_client st fd sp True (\<lambda>_. Some (CHR ''1'')) = (st', [Send_fd (w_comm_fd (workers st ! 0)) fd, Close_fd fd])
    \<and> idle st' \<and> w_comm_fd (workers st' ! 0) = w_comm_fd (workers st ! 0)"
proof -
  have "first_index (\<lambda>w. \<not> w_busy w) (live st) = Some 0"
    using assms(1) by (auto simp: first_index_Some_iff idle_def workers_inv_def)
  then have f: "find_free_worker st = int 0" by (simp add: find_free_worker_def)
  have l: "worker_count (set_busy st 0 True) \<le> length (workers (set_busy st 0 True))" "length (workers st) = WORKER_MAX"
    using assms(1) by (auto simp: idle_def workers_inv_def)
  show ?thesis
    using assms(1) l(2) check_workers_effect [OF l(1), where reads = "\<lambda>_. Some (CHR ''1'')"]
    unfolding accept_client_free [OF assms(2) f]
    by (auto simp: idle_def workers_inv_def set_busy_def)
qed

lemma serve_all_idle:
  "idle st \<Longrightarrow> \<forall>fd\<in>set fds. 0 \<le> fd \<Longrightarrow> \<exists>st'. idle st' \<and> serve_all st fds
     = (st', concat (map (\<lambda>fd. [Send_fd (w_comm_fd (workers st ! 0)) fd, Close_fd fd]) fds))"
proof (induction fds arbitrary: st)
  case (Cons fd fds)
  then obtain st1 where "accept_client st fd Socketpair_failed True (\<lambda>_. Some (CHR ''1''))
      = (st1, [Send_fd (w_comm_fd (workers st ! 0)) fd, Close_fd fd])" "idle st1"
      "w_comm_fd (workers st1 ! 0) = w_comm_fd (workers st ! 0)"
    using accept_client_idle [of st fd Socketpair_failed] by auto
  then show ?case using Cons.IH [of st1] Cons.prems by auto
qed simp

text \<open>
  The pool serves one client at a time: the status bytes are read with a blocking \<^verbatim>\<open>read\<close>
  right after a client was handed out, so as long as the workers answer with \<^verbatim>\<open>'1'\<close> every worker is free
  again before the next \<^verbatim>\<open>accept\<close>. Every client of a run then goes to worker 0, no worker is ever added
  to the first two, and no client is refused.
\<close>

theorem pool_serves_one_at_a_time:
  assumes "workers_start (Forked p0 c0 e0) (Forked p1 c1 e1) = Some st" "\<forall>fd\<in>set fds. 0 \<le> fd"
  shows "\<exists>st'. serve_all st fds = (st', concat (map (\<lambda>fd. [Send_fd c0 fd, Close_fd fd]) fds)) \<and> worker_count st' = 2"
proof -
  have s: "st = \<lparr>workers = [\<lparr>w_pid = p0, w_comm_fd = c0, w_busy = False\<rparr>, \<lparr>w_pid = p1, w_comm_fd = c1, w_busy = False\<rparr>]
     @ replicate 3 \<lparr>w_pid = 0, w_comm_fd = 0, w_busy = False\<rparr>, worker_count = 2\<rparr>"
    using assms(1) by (simp add: workers_start_def spawn_worker_def numeral_eq_Suc)
  have "idle st" "w_comm_fd (workers st ! 0) = c0" by (auto simp: s idle_def workers_inv_def less_2_cases_iff)
  then show ?thesis using serve_all_idle [OF _ assms(2), of st] by (auto simp: idle_def)
qed

theorem pool_serves_one_at_a_time_witness:
  "\<exists>st'. serve_all two_workers [8, 9] = (st', [Send_fd 4 8, Close_fd 8, Send_fd 4 9, Close_fd 9]) \<and> worker_count st' = 2"
  using pool_serves_one_at_a_time [OF two_workers_start, of "[8, 9]"] by simp

text \<open>
  A descriptor survives the trip to the worker: \<^verbatim>\<open>recv_fd\<close> reads from the control message
  that \<^verbatim>\<open>send_fd\<close> builds the descriptor that was put in, so a worker that receives a list of clients
  sends the time to each, closes each, and reports itself free after each, until \<^verbatim>\<open>recvmsg\<close> fails.
\<close>

theorem worker_serves_sent_clients:
  assumes "\<forall>(fd, now)\<in>set clients. 0 \<le> fd"
  shows "worker_loop comm_fd (map (\<lambda>(fd, now). (Some (send_fd_msg fd), now)) clients @ [(None, [])])
    = concat (map (\<lambda>(fd, now). [Time_to fd now, Close_fd fd, Status_free comm_fd]) clients) @ [Close_fd comm_fd, Worker_exit]"
  using assms by (induction clients) (auto simp: recv_fd_def send_fd_msg_def Let_def)

theorem worker_serves_sent_clients_witness:
  "worker_loop 5 [(Some (send_fd_msg 8), ''now''), (None, [])]
    = [Time_to 8 ''now'', Close_fd 8, Status_free 5, Close_fd 5, Worker_exit]"
  using worker_serves_sent_clients [of "[(8, ''now'')]" 5] by simp

end
