(* ===== verification/ShmChat.thy ===== *)
theory ShmChat
  imports CPrelude
begin

text \<open>
  The chat over shared memory of \<^verbatim>\<open>hw14_shmemory/part2\<close>: the room with its ten client slots and its ring
  of the last fifty messages, the operations of \<^verbatim>\<open>server.c\<close>, and what \<^verbatim>\<open>client.c\<close> does to the room when it
  joins, sends a message, leaves and refreshes its windows. Each of these runs between \<^verbatim>\<open>sem_wait\<close> and
  \<^verbatim>\<open>sem_post\<close> and is one step here; any number of clients interleave.
\<close>

abbreviation MAX_CLIENTS :: nat where "MAX_CLIENTS \<equiv> 10"
abbreviation MAX_MESSAGES :: nat where "MAX_MESSAGES \<equiv> 50"
abbreviation MAX_NAME_LEN :: nat where "MAX_NAME_LEN \<equiv> 32"
abbreviation MAX_MSG_LEN :: nat where "MAX_MSG_LEN \<equiv> 256"

record chat_message =
  msg_name :: string
  msg_text :: string

record chat_client =
  client_name :: string
  client_active :: bool

record chat_room =
  room_clients :: "chat_client list"
  room_client_count :: int
  messages :: "chat_message list"
  msg_start :: nat
  msg_count :: nat

section \<open>The server's operations\<close>

definition free_slot :: "chat_room \<Rightarrow> nat option" where
  "free_slot r = first_index (\<lambda>c. \<not> client_active c) (room_clients r)"

definition occupy :: "nat \<Rightarrow> string \<Rightarrow> chat_room \<Rightarrow> chat_room" where
  "occupy i name r =
     r\<lparr>room_clients := (room_clients r)[i :=
         \<lparr>client_name = copy_field MAX_NAME_LEN (client_name (room_clients r ! i)) name, client_active = True\<rparr>],
       room_client_count := room_client_count r + 1\<rparr>"

definition vacate :: "nat \<Rightarrow> chat_room \<Rightarrow> chat_room" where
  "vacate i r =
     r\<lparr>room_clients := (room_clients r)[i := (room_clients r ! i)\<lparr>client_active := False\<rparr>],
       room_client_count := room_client_count r - 1\<rparr>"

definition add_client :: "string \<Rightarrow> chat_room \<Rightarrow> chat_room \<times> int" where
  "add_client name r =
     (if room_client_count r \<ge> int MAX_CLIENTS then (r, -1)
      else (case free_slot r of Some i \<Rightarrow> (occupy i name r, int i) | None \<Rightarrow> (r, -1)))"

definition remove_client :: "int \<Rightarrow> chat_room \<Rightarrow> chat_room" where
  "remove_client client_index r =
     (if client_index \<ge> 0 \<and> client_index < int MAX_CLIENTS \<and> client_active (room_clients r ! nat client_index)
      then vacate (nat client_index) r else r)"

definition add_message :: "string \<Rightarrow> string \<Rightarrow> chat_room \<Rightarrow> chat_room" where
  "add_message name text r =
     (let pos = (msg_start r + msg_count r) mod MAX_MESSAGES;
          m = messages r ! pos;
          m = m\<lparr>msg_name := copy_field MAX_NAME_LEN (msg_name m) name\<rparr>;
          m = m\<lparr>msg_text := copy_field MAX_MSG_LEN (msg_text m) text\<rparr>;
          r = r\<lparr>messages := (messages r)[pos := m]\<rparr>
      in if msg_count r < MAX_MESSAGES then r\<lparr>msg_count := msg_count r + 1\<rparr>
         else r\<lparr>msg_start := (msg_start r + 1) mod MAX_MESSAGES\<rparr>)"

text \<open>The lines \<^verbatim>\<open>print_clients\<close> of the server prints after the count.\<close>

definition server_print_clients :: "chat_room \<Rightarrow> string list" where
  "server_print_clients r = map (\<lambda>c. cstr (client_name c)) (filter client_active (room_clients r))"

text \<open>The initialisation in \<^verbatim>\<open>main\<close>, over whatever the mapped memory holds.\<close>

definition room_init :: "chat_room \<Rightarrow> chat_room" where
  "room_init r = r\<lparr>room_client_count := 0, msg_start := 0, msg_count := 0,
     room_clients := map (\<lambda>c. \<lparr>client_name = (client_name c)[0 := 0], client_active = False\<rparr>) (room_clients r)\<rparr>"

section \<open>The client's operations\<close>

text \<open>Lines 143 to 157: the first inactive slot, without the test of the counter.\<close>

definition client_join :: "string \<Rightarrow> chat_room \<Rightarrow> chat_room \<times> int" where
  "client_join name r =
     (case free_slot r of Some i \<Rightarrow> (occupy i name r, int i) | None \<Rightarrow> (r, -1))"

text \<open>Lines 217 to 227.\<close>

definition client_say :: "string \<Rightarrow> string \<Rightarrow> chat_room \<Rightarrow> chat_room" where
  "client_say name input r =
     (let pos = (msg_start r + msg_count r) mod MAX_MESSAGES;
          m = messages r ! pos;
          m = m\<lparr>msg_name := copy_field MAX_NAME_LEN (msg_name m) name,
                msg_text := copy_field MAX_MSG_LEN (msg_text m) input\<rparr>;
          r = r\<lparr>messages := (messages r)[pos := m]\<rparr>
      in if msg_count r < MAX_MESSAGES then r\<lparr>msg_count := msg_count r + 1\<rparr>
         else r\<lparr>msg_start := (msg_start r + 1) mod MAX_MESSAGES\<rparr>)"

text \<open>Lines 231 to 234.\<close>

definition client_leave :: "nat \<Rightarrow> chat_room \<Rightarrow> chat_room" where
  "client_leave client_idx r = vacate client_idx r"

text \<open>
  What \<^verbatim>\<open>print_messages\<close> draws in a window of \<open>maxy\<close> rows: it stops after the line \<open>i\<close> with \<open>i + 2 >= maxy\<close>.
\<close>

fun draw_from :: "int \<Rightarrow> nat \<Rightarrow> chat_room \<Rightarrow> nat \<Rightarrow> (string \<times> string) list" where
  "draw_from maxy 0 r i = []"
| "draw_from maxy (Suc n) r i =
     (let m = messages r ! ((msg_start r + i) mod MAX_MESSAGES); line = (cstr (msg_name m), cstr (msg_text m))
      in if int i + 2 \<ge> maxy then [line] else line # draw_from maxy n r (i + 1))"

definition print_messages :: "int \<Rightarrow> chat_room \<Rightarrow> (string \<times> string) list" where
  "print_messages maxy r = draw_from maxy (msg_count r) r 0"

text \<open>\<^verbatim>\<open>print_clients\<close> of the client: the active names, at most \<open>maxy - 2\<close> rows.\<close>

definition print_clients :: "int \<Rightarrow> chat_room \<Rightarrow> string list" where
  "print_clients maxy r = take (nat (maxy - 2)) (server_print_clients r)"

text \<open>The windows of a client and the counters its \<^verbatim>\<open>receive_thread\<close> remembers.\<close>

record viewer =
  last_msg_count :: nat
  last_client_count :: int
  win_chat :: "(string \<times> string) list"
  win_users :: "string list"

definition poll :: "int \<Rightarrow> int \<Rightarrow> chat_room \<Rightarrow> viewer \<Rightarrow> viewer" where
  "poll chat_rows user_rows r v =
     (let v = (if msg_count r \<noteq> last_msg_count v
               then v\<lparr>win_chat := print_messages chat_rows r, last_msg_count := msg_count r\<rparr> else v)
      in if room_client_count r \<noteq> last_client_count v
         then v\<lparr>win_users := print_clients user_rows r, last_client_count := room_client_count r\<rparr> else v)"

section \<open>Clients and the room\<close>

text \<open>
  The room with the clients that are inside: each has its name and its \<^verbatim>\<open>client_idx\<close>. \<open>said\<close> is
  everything sent so far, as the strings that were typed.
\<close>

record chat_sys =
  room :: chat_room
  inside :: "(string \<times> nat) list"
  said :: "(string \<times> string) list"

inductive chat_step :: "chat_sys \<Rightarrow> chat_sys \<Rightarrow> bool" where
  join: "client_join name (room s) = (r, idx) \<Longrightarrow> idx \<noteq> -1 \<Longrightarrow>
    chat_step s (s\<lparr>room := r, inside := inside s @ [(name, nat idx)]\<rparr>)"
| join_full: "client_join name (room s) = (r, -1) \<Longrightarrow> chat_step s (s\<lparr>room := r\<rparr>)"
| say: "(name, idx) \<in> set (inside s) \<Longrightarrow> cstr input \<noteq> ''q'' \<Longrightarrow>
    chat_step s (s\<lparr>room := client_say name input (room s), said := said s @ [(name, input)]\<rparr>)"
| leave: "inside s = a @ (name, idx) # b \<Longrightarrow>
    chat_step s (s\<lparr>room := client_leave idx (room s), inside := a @ b\<rparr>)"

section \<open>The last fifty messages\<close>

definition last_n :: "nat \<Rightarrow> 'a list \<Rightarrow> 'a list" where
  "last_n k xs = drop (length xs - k) xs"

lemma last_n_append: "last_n k (last_n k xs @ ys) = last_n k (xs @ ys)"
  by (cases "length xs \<le> k") (simp_all add: last_n_def add.commute)

lemma length_last_n [simp]: "length (last_n k xs) = min k (length xs)"
  by (simp add: last_n_def)

text \<open>
  A store that keeps the last \<open>cap\<close> entries: the law of one addition, and what any sequence of
  additions leaves.
\<close>

locale bounded_history =
  fixes inv :: "'s \<Rightarrow> bool" and view :: "'s \<Rightarrow> 'b list" and add :: "'a \<Rightarrow> 's \<Rightarrow> 's"
    and entry :: "'a \<Rightarrow> 'b" and cap :: nat
  assumes add_inv: "inv s \<Longrightarrow> inv (add x s)"
    and add_view: "inv s \<Longrightarrow> view (add x s) = last_n cap (view s @ [entry x])"
begin

lemma fold_add:
  "inv s \<Longrightarrow> view s = last_n cap ys \<Longrightarrow>
     inv (fold add xs s) \<and> view (fold add xs s) = last_n cap (ys @ map entry xs)"
proof (induction xs arbitrary: s ys)
  case (Cons x xs)
  have "view (add x s) = last_n cap (ys @ [entry x])"
    using Cons.prems add_view by (simp add: last_n_append)
  then show ?case using Cons.IH [of "add x s" "ys @ [entry x]"] Cons.prems add_inv by simp
qed simp

end

section \<open>The invariant of the room\<close>

definition actives :: "chat_room \<Rightarrow> nat set" where
  "actives r = {i. i < length (room_clients r) \<and> client_active (room_clients r ! i)}"

definition ring_inv :: "chat_room \<Rightarrow> bool" where
  "ring_inv r \<longleftrightarrow> length (messages r) = MAX_MESSAGES
     \<and> (\<forall>m\<in>set (messages r). length (msg_name m) = MAX_NAME_LEN \<and> length (msg_text m) = MAX_MSG_LEN)
     \<and> msg_start r < MAX_MESSAGES \<and> msg_count r \<le> MAX_MESSAGES \<and> (msg_count r < MAX_MESSAGES \<longrightarrow> msg_start r = 0)"

definition slots_inv :: "chat_room \<Rightarrow> bool" where
  "slots_inv r \<longleftrightarrow> length (room_clients r) = MAX_CLIENTS
     \<and> (\<forall>c\<in>set (room_clients r). length (client_name c) = MAX_NAME_LEN)
     \<and> room_client_count r = int (card (actives r))"

definition room_inv :: "chat_room \<Rightarrow> bool" where
  "room_inv r \<longleftrightarrow> ring_inv r \<and> slots_inv r"

definition line_of :: "chat_message \<Rightarrow> string \<times> string" where
  "line_of m = (cstr (msg_name m), cstr (msg_text m))"

definition history :: "chat_room \<Rightarrow> (string \<times> string) list" where
  "history r = map (\<lambda>i. line_of (messages r ! ((msg_start r + i) mod MAX_MESSAGES))) [0..<msg_count r]"

text \<open>What the fields keep of a name and a text.\<close>

definition entry :: "string \<times> string \<Rightarrow> string \<times> string" where
  "entry = (\<lambda>(name, text). (take (MAX_NAME_LEN - 1) (cstr name), take (MAX_MSG_LEN - 1) (cstr text)))"

lemma client_say_is_add_message: "client_say = add_message"
  by (intro ext) (simp add: client_say_def add_message_def Let_def)

definition stored :: "string \<Rightarrow> string \<Rightarrow> chat_message \<Rightarrow> chat_message" where
  "stored name text m = m\<lparr>msg_name := copy_field MAX_NAME_LEN (msg_name m) name,
     msg_text := copy_field MAX_MSG_LEN (msg_text m) text\<rparr>"

lemma add_message_stored:
  "add_message name text r =
     (let pos = (msg_start r + msg_count r) mod MAX_MESSAGES;
          r' = r\<lparr>messages := (messages r)[pos := stored name text (messages r ! pos)]\<rparr>
      in if msg_count r < MAX_MESSAGES then r'\<lparr>msg_count := msg_count r + 1\<rparr>
         else r'\<lparr>msg_start := (msg_start r + 1) mod MAX_MESSAGES\<rparr>)"
  by (simp add: add_message_def stored_def Let_def)

lemma line_of_stored:
  "length (msg_name m) = MAX_NAME_LEN \<Longrightarrow> length (msg_text m) = MAX_MSG_LEN \<Longrightarrow>
     line_of (stored name text m) = entry (name, text)"
  by (simp add: line_of_def stored_def entry_def cstr_copy_field)

lemma add_message_ring:
  assumes "ring_inv r"
  shows "ring_inv (add_message name text r)"
proof -
  let ?pos = "(msg_start r + msg_count r) mod MAX_MESSAGES"
  have "messages r ! ?pos \<in> set (messages r)" using assms by (simp add: ring_inv_def)
  then have "length (msg_name (stored name text (messages r ! ?pos))) = MAX_NAME_LEN"
    "length (msg_text (stored name text (messages r ! ?pos))) = MAX_MSG_LEN"
    using assms by (auto simp: ring_inv_def stored_def)
  then show ?thesis
    using assms by (auto simp: ring_inv_def add_message_stored Let_def dest!: in_set_updateD)
qed

lemma add_message_history:
  assumes inv: "ring_inv r"
  shows "history (add_message name text r) = last_n MAX_MESSAGES (history r @ [entry (name, text)])"
proof -
  let ?pos = "(msg_start r + msg_count r) mod MAX_MESSAGES"
  let ?m = "stored name text (messages r ! ?pos)"
  have len: "length (messages r) = MAX_MESSAGES" using inv by (simp add: ring_inv_def)
  have "messages r ! ?pos \<in> set (messages r)" using len by simp
  then have new: "line_of ?m = entry (name, text)" using inv by (intro line_of_stored) (auto simp: ring_inv_def)
  show ?thesis
  proof (cases "msg_count r < MAX_MESSAGES")
    case True
    have "(messages r)[?pos := ?m] ! ((msg_start r + i) mod MAX_MESSAGES) = messages r ! ((msg_start r + i) mod MAX_MESSAGES)"
      if "i < msg_count r" for i
      using ring_distinct [OF that True, of "msg_start r"] by simp
    then show ?thesis
      using True new len by (simp add: history_def add_message_stored last_n_def Let_def)
  next
    case False
    then have c: "msg_count r = MAX_MESSAGES" and s: "?pos = msg_start r"
      using inv by (auto simp: ring_inv_def)
    have old: "(messages r)[?pos := ?m] ! ((msg_start r + Suc i) mod MAX_MESSAGES) = messages r ! ((msg_start r + Suc i) mod MAX_MESSAGES)"
      if "i < 49" for i
      using ring_distinct [of 0 "Suc i" MAX_MESSAGES "msg_start r"] that s inv by (simp add: ring_inv_def)
    have u: "[0..<MAX_MESSAGES] = [0..<49] @ [49]" "[0..<MAX_MESSAGES] = 0 # map Suc [0..<49]"
      using upt_Suc_append [of 0 49] by (simp_all add: map_Suc_upt upt_conv_Cons)
    have st: "msg_start r < MAX_MESSAGES" using inv by (simp add: ring_inv_def)
    have "history (add_message name text r) = map (\<lambda>i. line_of (messages r ! ((msg_start r + Suc i) mod MAX_MESSAGES))) [0..<49] @ [entry (name, text)]"
      using c new len old s st by (simp add: history_def add_message_stored u(1) Let_def mod_simps)
    moreover have "last_n MAX_MESSAGES (history r @ [entry (name, text)]) = tl (history r) @ [entry (name, text)]"
      using c by (simp add: last_n_def history_def drop_Suc)
    moreover have "tl (history r) = map (\<lambda>i. line_of (messages r ! ((msg_start r + Suc i) mod MAX_MESSAGES))) [0..<49]"
      unfolding history_def c u(2) by (simp add: comp_def)
    ultimately show ?thesis by simp
  qed
qed

lemma add_message_slots:
  "slots_inv (add_message name text r) = slots_inv r" "room_clients (add_message name text r) = room_clients r"
  "actives (add_message name text r) = actives r" "room_client_count (add_message name text r) = room_client_count r"
  by (simp_all add: slots_inv_def actives_def add_message_def Let_def)

interpretation ring: bounded_history ring_inv history "\<lambda>(name, text). add_message name text" entry MAX_MESSAGES
  using add_message_ring add_message_history by unfold_locales auto

lemma actives_occupy: "i < length (room_clients r) \<Longrightarrow> actives (occupy i name r) = insert i (actives r)"
  by (auto simp: actives_def occupy_def nth_list_update split: if_splits)

lemma actives_vacate: "i < length (room_clients r) \<Longrightarrow> actives (vacate i r) = actives r - {i}"
  by (auto simp: actives_def vacate_def nth_list_update split: if_splits)

lemma finite_actives [simp]: "finite (actives r)"
  by (simp add: actives_def)

lemma occupy_slots:
  assumes "slots_inv r" "i < MAX_CLIENTS" "\<not> client_active (room_clients r ! i)"
  shows "slots_inv (occupy i name r)"
proof -
  have "length (client_name (room_clients r ! i)) = MAX_NAME_LEN" using assms by (simp add: slots_inv_def)
  moreover have "i \<notin> actives r" using assms(3) by (simp add: actives_def)
  moreover have "actives (occupy i name r) = insert i (actives r)"
    using assms by (intro actives_occupy) (simp add: slots_inv_def)
  ultimately show ?thesis
    using assms by (auto simp: slots_inv_def occupy_def dest!: in_set_updateD)
qed

lemma vacate_slots:
  assumes "slots_inv r" "i < MAX_CLIENTS" "client_active (room_clients r ! i)"
  shows "slots_inv (vacate i r)"
proof -
  have "length (client_name (room_clients r ! i)) = MAX_NAME_LEN" using assms by (simp add: slots_inv_def)
  moreover have i: "i \<in> actives r" using assms by (simp add: actives_def slots_inv_def)
  then have "card (actives r) > 0" by (auto simp: card_gt_0_iff)
  moreover have "actives (vacate i r) = actives r - {i}"
    using assms by (intro actives_vacate) (simp add: slots_inv_def)
  ultimately show ?thesis
    using assms i by (auto simp: slots_inv_def vacate_def of_nat_diff dest!: in_set_updateD)
qed

lemma free_slot_Some:
  assumes "slots_inv r" "free_slot r = Some i"
  shows "i < MAX_CLIENTS" "\<not> client_active (room_clients r ! i)"
  using first_index_SomeD [OF assms(2) [unfolded free_slot_def]] assms(1) by (auto simp: slots_inv_def)

lemma free_slot_None:
  assumes "slots_inv r"
  shows "free_slot r = None \<longleftrightarrow> actives r = {..<MAX_CLIENTS}"
  using assms by (auto simp: free_slot_def first_index_None_iff actives_def slots_inv_def all_set_conv_all_nth)

lemma occupy_name:
  assumes "slots_inv r" "i < MAX_CLIENTS"
  shows "cstr (client_name (room_clients (occupy i name r) ! i)) = take 31 (cstr name)"
  using assms by (simp add: occupy_def slots_inv_def cstr_copy_field)

lemma room_ops_ring [simp]:
  "ring_inv (occupy i name r) = ring_inv r" "ring_inv (vacate i r) = ring_inv r"
  "history (occupy i name r) = history r" "history (vacate i r) = history r"
  by (simp_all add: ring_inv_def history_def occupy_def vacate_def)

lemma client_join_Some:
  assumes "slots_inv r" "client_join name r = (r', idx)" "idx \<noteq> -1"
  obtains i where "idx = int i" "i < MAX_CLIENTS" "\<not> client_active (room_clients r ! i)" "r' = occupy i name r"
  using assms free_slot_Some [OF assms(1)] by (auto simp: client_join_def split: option.splits)

lemma client_join_full:
  assumes "client_join name r = (r', -1)"
  shows "r' = r" "free_slot r = None"
  using assms by (auto simp: client_join_def split: option.splits)

text \<open>The server's own operations keep the invariant too.\<close>

lemma server_ops_inv:
  "room_inv r \<Longrightarrow> room_inv (fst (add_client name r))" "room_inv r \<Longrightarrow> room_inv (remove_client k r)"
  "room_inv r \<Longrightarrow> room_inv (add_message name text r)"
  using free_slot_Some [of r] occupy_slots [of r] vacate_slots [of r "nat k"]
  by (auto simp: room_inv_def add_client_def remove_client_def add_message_slots add_message_ring split: option.splits)

section \<open>The invariant of the chat\<close>

definition chat_inv :: "chat_sys \<Rightarrow> bool" where
  "chat_inv s \<longleftrightarrow> room_inv (room s) \<and> distinct (map snd (inside s)) \<and> snd ` set (inside s) = actives (room s)
     \<and> (\<forall>(name, i)\<in>set (inside s). cstr (client_name (room_clients (room s) ! i)) = take 31 (cstr name))
     \<and> history (room s) = last_n MAX_MESSAGES (map entry (said s))"

definition mapped_memory :: "chat_room \<Rightarrow> bool" where
  "mapped_memory r \<longleftrightarrow> length (room_clients r) = MAX_CLIENTS \<and> length (messages r) = MAX_MESSAGES
     \<and> (\<forall>c\<in>set (room_clients r). length (client_name c) = MAX_NAME_LEN)
     \<and> (\<forall>m\<in>set (messages r). length (msg_name m) = MAX_NAME_LEN \<and> length (msg_text m) = MAX_MSG_LEN)"

definition chat_start :: "chat_room \<Rightarrow> chat_sys" where
  "chat_start r = \<lparr>room = room_init r, inside = [], said = []\<rparr>"

lemma chat_start_inv: "mapped_memory r \<Longrightarrow> chat_inv (chat_start r)"
  by (auto simp: mapped_memory_def chat_start_def chat_inv_def room_inv_def ring_inv_def slots_inv_def
      room_init_def actives_def history_def last_n_def)

lemma chat_step_inv:
  assumes inv: "chat_inv s" and step: "chat_step s t"
  shows "chat_inv t"
  using step
proof cases
  case (join name r idx)
  then obtain i where i: "idx = int i" "i < MAX_CLIENTS" "\<not> client_active (room_clients (room s) ! i)"
    "r = occupy i name (room s)"
    using client_join_Some inv by (metis chat_inv_def room_inv_def)
  have sl: "slots_inv (room s)" using inv by (simp add: chat_inv_def room_inv_def)
  have l: "i < length (room_clients (room s))" using sl i(2) by (simp add: slots_inv_def)
  have n: "i \<notin> actives (room s)" using i(3) by (simp add: actives_def)
  have nm: "j \<noteq> i \<Longrightarrow> client_name (room_clients r ! j) = client_name (room_clients (room s) ! j)" for j
    by (simp add: i(4) occupy_def)
  have ne: "j \<noteq> i" if "(m, j) \<in> set (inside s)" for m j
    using inv n that by (force simp: chat_inv_def)
  have "cstr (client_name (room_clients r ! j)) = take 31 (cstr m)" if "(m, j) \<in> set (inside s)" for m j
    using nm [OF ne [OF that]] inv that by (auto simp: chat_inv_def)
  then show ?thesis
    using inv join(1) i n occupy_slots [OF sl i(2,3), of name] occupy_name [OF sl i(2)] actives_occupy [OF l]
    by (auto simp: chat_inv_def room_inv_def)
next
  case (join_full name r)
  then show ?thesis using inv client_join_full(1) [OF join_full(2)] by simp
next
  case (say name idx input)
  have "room_inv (add_message name input (room s))"
    using inv server_ops_inv(3) by (simp add: chat_inv_def)
  moreover have "history (add_message name input (room s)) = last_n MAX_MESSAGES (map entry (said s @ [(name, input)]))"
    using inv ring.fold_add [of "room s" "map entry (said s)" "[(name, input)]"] by (simp add: chat_inv_def room_inv_def)
  ultimately show ?thesis
    using inv say(1) by (simp add: chat_inv_def client_say_is_add_message add_message_slots)
next
  case (leave a name i b)
  have sl: "slots_inv (room s)" using inv by (simp add: chat_inv_def room_inv_def)
  have "i \<in> actives (room s)" using inv leave by (force simp: chat_inv_def)
  then have i: "i < MAX_CLIENTS" "client_active (room_clients (room s) ! i)" "i < length (room_clients (room s))"
    using sl by (auto simp: actives_def slots_inv_def)
  have "client_name (room_clients (vacate i (room s)) ! j) = client_name (room_clients (room s) ! j)" for j
    using i(3) by (cases "j = i") (simp_all add: vacate_def)
  then show ?thesis
    using inv leave vacate_slots [OF sl i(1,2)] actives_vacate [OF i(3)]
    by (auto simp: chat_inv_def room_inv_def client_leave_def)
qed

interpretation chat: transition_system "\<lambda>s. \<exists>r. mapped_memory r \<and> s = chat_start r" chat_step chat_inv
  using chat_start_inv chat_step_inv by unfold_locales auto

section \<open>Properties\<close>

lemma chat_reach_inv: "mapped_memory r \<Longrightarrow> chat_step\<^sup>*\<^sup>* (chat_start r) s \<Longrightarrow> chat_inv s"
  using chat.steps_inv chat_start_inv by blast

definition blank_room :: chat_room where
  "blank_room = \<lparr>room_clients = replicate MAX_CLIENTS \<lparr>client_name = replicate MAX_NAME_LEN 0, client_active = False\<rparr>,
     room_client_count = 0,
     messages = replicate MAX_MESSAGES \<lparr>msg_name = replicate MAX_NAME_LEN 0, msg_text = replicate MAX_MSG_LEN 0\<rparr>,
     msg_start = 0, msg_count = 0\<rparr>"

lemma blank_room_mapped: "mapped_memory blank_room"
  by (simp add: mapped_memory_def blank_room_def)

lemma ann_joins:
  "\<exists>s. chat_step\<^sup>*\<^sup>* (chat_start blank_room) s \<and> inside s = [(''ann'', 0)] \<and> said s = [(''ann'', ''hi'')]"
proof -
  let ?s = "chat_start blank_room"
  have f: "free_slot (room ?s) = Some 0"
    by (simp add: free_slot_def chat_start_def blank_room_def room_init_def first_index_Some_iff)
  have j: "client_join ''ann'' (room ?s) = (occupy 0 ''ann'' (room ?s), 0)" by (simp add: client_join_def f)
  let ?t = "?s\<lparr>room := occupy 0 ''ann'' (room ?s), inside := inside ?s @ [(''ann'', nat 0)]\<rparr>"
  have a: "chat_step ?s ?t" using chat_step.join [OF j] by simp
  have "cstr ''hi'' \<noteq> ''q''" by (simp add: cstr_Cons zero_char_def)
  then have "chat_step ?t (?t\<lparr>room := client_say ''ann'' ''hi'' (room ?t), said := said ?t @ [(''ann'', ''hi'')]\<rparr>)"
    by (intro chat_step.say [of _ 0]) simp_all
  then obtain u where b: "chat_step ?t u" "inside u = inside ?t" "said u = said ?t @ [(''ann'', ''hi'')]" by auto
  have "chat_step\<^sup>*\<^sup>* ?s u" using a b(1) by (meson converse_rtranclp_into_rtranclp r_into_rtranclp)
  then show ?thesis using b(2,3) by (auto simp: chat_start_def)
qed

text \<open>
  Claim C19. The room is the chat it promises to be: in every state that any number of clients can reach,
  whatever the shared memory held at the start, the ring contains exactly the last fifty messages that
  were sent, oldest first, each with its sender's name and its text cut to 31 and 255 characters.
\<close>

theorem shm_history_is_last_50:
  assumes "mapped_memory r" "chat_step\<^sup>*\<^sup>* (chat_start r) s"
  shows "history (room s) = last_n MAX_MESSAGES (map entry (said s))"
  using chat_reach_inv [OF assms] by (simp add: chat_inv_def)

theorem shm_history_is_last_50_witness:
  "\<exists>s. chat_step\<^sup>*\<^sup>* (chat_start blank_room) s \<and> history (room s) = [(''ann'', ''hi'')]"
proof -
  obtain s where s: "chat_step\<^sup>*\<^sup>* (chat_start blank_room) s" "said s = [(''ann'', ''hi'')]"
    using ann_joins by blast
  have "history (room s) = [(''ann'', ''hi'')]"
    using shm_history_is_last_50 [OF blank_room_mapped s(1)] s(2)
    by (simp add: entry_def last_n_def cstr_Cons zero_char_def)
  then show ?thesis using s(1) by blast
qed

text \<open>
  Claim C20. Slots are never shared: in every reachable state the clients inside have pairwise different
  slots, which are exactly the active ones and carry their names, \<^verbatim>\<open>client_count\<close> is their number, and a
  new client is turned away exactly when ten are inside.
\<close>

theorem shm_slots_are_exclusive:
  assumes "mapped_memory r" "chat_step\<^sup>*\<^sup>* (chat_start r) s"
  shows "distinct (map snd (inside s)) \<and> snd ` set (inside s) = actives (room s)
    \<and> (\<forall>(name, i)\<in>set (inside s). cstr (client_name (room_clients (room s) ! i)) = take 31 (cstr name))
    \<and> room_client_count (room s) = int (length (inside s)) \<and> length (inside s) \<le> MAX_CLIENTS
    \<and> (snd (client_join name (room s)) = -1 \<longleftrightarrow> length (inside s) = MAX_CLIENTS)"
proof -
  have inv: "chat_inv s" using chat_reach_inv [OF assms] .
  have sl: "slots_inv (room s)" using inv by (simp add: chat_inv_def room_inv_def)
  have d: "distinct (map snd (inside s))" "snd ` set (inside s) = actives (room s)"
    using inv by (auto simp: chat_inv_def)
  have c: "card (actives (room s)) = length (inside s)"
    using distinct_card [OF d(1)] d(2) by simp
  have sub: "actives (room s) \<subseteq> {..<MAX_CLIENTS}" using sl by (auto simp: actives_def slots_inv_def)
  then have le: "length (inside s) \<le> MAX_CLIENTS" using c card_mono [OF _ sub] by simp
  have "actives (room s) = {..<MAX_CLIENTS} \<longleftrightarrow> length (inside s) = MAX_CLIENTS"
  proof
    assume "actives (room s) = {..<MAX_CLIENTS}"
    then show "length (inside s) = MAX_CLIENTS" using c by simp
  next
    assume "length (inside s) = MAX_CLIENTS"
    then have "card (actives (room s)) = card {..<MAX_CLIENTS}" using c by simp
    then show "actives (room s) = {..<MAX_CLIENTS}" using sub by (intro card_subset_eq) simp_all
  qed
  moreover have "snd (client_join name (room s)) = -1 \<longleftrightarrow> free_slot (room s) = None"
    by (auto simp: client_join_def split: option.splits)
  ultimately show ?thesis
    using inv d c le sl free_slot_None [OF sl] by (simp add: chat_inv_def slots_inv_def)
qed

theorem shm_slots_are_exclusive_witness:
  "\<exists>s. chat_step\<^sup>*\<^sup>* (chat_start blank_room) s \<and> room_client_count (room s) = 1"
proof -
  obtain s where s: "chat_step\<^sup>*\<^sup>* (chat_start blank_room) s" "inside s = [(''ann'', 0)]"
    using ann_joins by blast
  then show ?thesis using shm_slots_are_exclusive [OF blank_room_mapped s(1)] by auto
qed

lemma draw_from_all:
  assumes "n + i = msg_count r" "int (msg_count r) + 1 \<le> maxy"
  shows "draw_from maxy n r i = map (\<lambda>j. line_of (messages r ! ((msg_start r + j) mod MAX_MESSAGES))) [i..<msg_count r]"
  using assms(1)
proof (induction n arbitrary: i)
  case (Suc n)
  then show ?case
    using Suc.IH [of "Suc i"] assms(2) by (cases n) (auto simp: line_of_def upt_conv_Cons Let_def)
qed simp

text \<open>
  Claim C21. The window of a client follows the room only while the room fills up. After a poll of
  \<^verbatim>\<open>receive_thread\<close> that saw a changed counter, a window high enough shows exactly the ring. But once the
  ring is full the counter stays at fifty, so however many messages arrive, further polls redraw
  nothing and the window keeps the old lines.
\<close>

theorem shm_viewer_follows_until_full:
  assumes "ring_inv r"
  shows "(msg_count r \<noteq> last_msg_count v \<and> int (msg_count r) + 1 \<le> chat_rows
            \<longrightarrow> win_chat (poll chat_rows user_rows r v) = history r)
    \<and> (msg_count r = MAX_MESSAGES \<and> last_msg_count v = MAX_MESSAGES
         \<longrightarrow> win_chat (poll chat_rows user_rows (fold (\<lambda>(name, text). client_say name text) msgs r) v) = win_chat v)"
proof -
  have "msg_count (fold (\<lambda>(name, text). client_say name text) msgs r) = MAX_MESSAGES" if "msg_count r = MAX_MESSAGES"
    using that by (induction msgs arbitrary: r) (auto simp: client_say_def Let_def)
  then show ?thesis
    using draw_from_all [of "msg_count r" 0 r chat_rows]
    by (auto simp: poll_def print_messages_def history_def Let_def)
qed

definition full_room :: chat_room where
  "full_room = blank_room\<lparr>msg_count := MAX_MESSAGES\<rparr>"

theorem shm_viewer_follows_until_full_witness:
  "let v = \<lparr>last_msg_count = MAX_MESSAGES, last_client_count = 0, win_chat = [], win_users = []\<rparr>;
       r = client_say ''ann'' ''hi'' full_room
   in history r \<noteq> [] \<and> win_chat (poll 60 20 r v) = []"
proof -
  have i: "ring_inv full_room" by (simp add: ring_inv_def full_room_def blank_room_def)
  have "history (client_say ''ann'' ''hi'' full_room) \<noteq> []"
    using add_message_history [OF i, of "''ann''" "''hi''"] by (simp add: client_say_is_add_message last_n_def)
  then show ?thesis
    using shm_viewer_follows_until_full [OF i, of _ 60 20 "[(''ann'', ''hi'')]"] by (simp add: full_room_def)
qed

end
