(* ===== verification/MqChat.thy ===== *)
theory MqChat
  imports CText
begin

text \<open>
  The chat over POSIX message queues of \<^verbatim>\<open>hw13_mqueue/part2\<close>: the server's table of clients, the
  registration and the two broadcasts, and the messages that \<^verbatim>\<open>client.c\<close> sends and shows. What
  \<^verbatim>\<open>mq_open\<close> returns is an input; messages that are sent are outputs. \<open>None\<close> is a store outside
  \<^verbatim>\<open>msg.text\<close>.
\<close>

abbreviation MQ_TEXT :: nat where "MQ_TEXT \<equiv> 256"
abbreviation MQ_CLIENTS :: nat where "MQ_CLIENTS \<equiv> 10"

record mq_message =
  mq_type :: int
  mq_name :: string
  mq_queue_name :: string
  mq_text :: string

record client_info =
  ci_name :: string
  ci_queue_name :: string
  ci_dqueue :: int

record mq_state =
  mq_clients :: "client_info list"
  mq_client_count :: nat

text \<open>\<^verbatim>\<open>chat_message_t msg = {0};\<close>\<close>

definition zero_msg :: mq_message where
  "zero_msg = \<lparr>mq_type = 0, mq_name = replicate 32 0, mq_queue_name = replicate 64 0, mq_text = replicate MQ_TEXT 0\<rparr>"

definition mq_start :: mq_state where
  "mq_start = \<lparr>mq_clients = replicate MQ_CLIENTS
     \<lparr>ci_name = replicate 32 0, ci_queue_name = replicate 64 0, ci_dqueue = 0\<rparr>, mq_client_count = 0\<rparr>"

section \<open>The server\<close>

definition add_mq_client :: "string \<Rightarrow> string \<Rightarrow> int \<Rightarrow> mq_state \<Rightarrow> mq_state \<times> int" where
  "add_mq_client name queue_name qd st =
     (if mq_client_count st \<ge> MQ_CLIENTS then (st, -1)
      else if qd = -1 then (st, -1)
      else
        (let i = mq_client_count st; c = mq_clients st ! i;
             c = \<lparr>ci_name = c_strncpy (ci_name c) name (32 - 1),
                  ci_queue_name = c_strncpy (ci_queue_name c) queue_name (64 - 1), ci_dqueue = qd\<rparr>
         in (st\<lparr>mq_clients := (mq_clients st)[i := c], mq_client_count := i + 1\<rparr>, 0)))"

text \<open>\<^verbatim>\<open>size_t\<close> subtraction, modulo \<open>2\<^sup>6\<^sup>4\<close>.\<close>

definition size_diff :: "nat \<Rightarrow> nat \<Rightarrow> nat" where
  "size_diff a b = (2 ^ 64 + a - b) mod 2 ^ 64"

text \<open>The loop at line 67: every name and a newline, appended with \<^verbatim>\<open>strncat\<close>.\<close>

fun append_names :: "string list \<Rightarrow> string \<Rightarrow> string option" where
  "append_names [] text = Some text"
| "append_names (name # names) text =
     (case c_strncat text name (size_diff MQ_TEXT (strlen text + 2)) of
        None \<Rightarrow> None
      | Some text \<Rightarrow>
        (case c_strncat text [CHR 0x0A] (size_diff MQ_TEXT (strlen text + 1)) of
           None \<Rightarrow> None
         | Some text \<Rightarrow> append_names names text))"

definition registered :: "mq_state \<Rightarrow> client_info list" where
  "registered st = take (mq_client_count st) (mq_clients st)"

definition send_all :: "mq_state \<Rightarrow> mq_message \<Rightarrow> (int \<times> mq_message) list" where
  "send_all st msg = map (\<lambda>c. (ci_dqueue c, msg)) (registered st)"

definition broadcast_new_clients :: "mq_state \<Rightarrow> (int \<times> mq_message) list option" where
  "broadcast_new_clients st =
     (let msg = zero_msg\<lparr>mq_type := 2\<rparr>
      in case append_names (map ci_name (registered st)) ((mq_text msg)[0 := 0]) of
           None \<Rightarrow> None
         | Some text \<Rightarrow>
           Some (send_all st (msg\<lparr>mq_text := text, mq_name := c_strncpy (mq_name msg) ''Server'' (32 - 1)\<rparr>)))"

definition broadcast_message :: "mq_state \<Rightarrow> string \<Rightarrow> string \<Rightarrow> (int \<times> mq_message) list" where
  "broadcast_message st sender text =
     (let msg = zero_msg\<lparr>mq_type := 1\<rparr>;
          msg = msg\<lparr>mq_name := c_strncpy (mq_name msg) sender (32 - 1)\<rparr>;
          msg = msg\<lparr>mq_text := c_strncpy (mq_text msg) text (MQ_TEXT - 1)\<rparr>
      in send_all st msg)"

text \<open>One iteration of the server's loop for a received message; \<open>qd\<close> is what \<^verbatim>\<open>mq_open\<close> gives for its queue.\<close>

definition mq_server :: "mq_state \<Rightarrow> mq_message \<Rightarrow> int \<Rightarrow> (mq_state \<times> (int \<times> mq_message) list) option" where
  "mq_server st msg qd =
     (if mq_type msg = 0 then
        (case add_mq_client (mq_name msg) (mq_queue_name msg) qd st of (st', r) \<Rightarrow>
           if r = 0 then map_option (\<lambda>out. (st', out)) (broadcast_new_clients st') else Some (st', []))
      else if mq_type msg = 1 then Some (st, broadcast_message st (mq_name msg) (mq_text msg))
      else Some (st, []))"

section \<open>The client\<close>

text \<open>\<^verbatim>\<open>snprintf(client_queue_name, 64, "/%s_queue", client_name)\<close>.\<close>

definition queue_name_of :: "string \<Rightarrow> string" where
  "queue_name_of name = take 63 (''/'' @ cstr name @ ''_queue'')"

definition register_msg :: "string \<Rightarrow> mq_message" where
  "register_msg name =
     (let reg = zero_msg\<lparr>mq_type := 0\<rparr>
      in reg\<lparr>mq_name := c_strncpy (mq_name reg) name (32 - 1),
             mq_queue_name := c_strncpy (mq_queue_name reg) (queue_name_of name) (64 - 1)\<rparr>)"

definition say_msg :: "string \<Rightarrow> string \<Rightarrow> mq_message" where
  "say_msg name input =
     (let msg = zero_msg\<lparr>mq_type := 1\<rparr>
      in msg\<lparr>mq_name := c_strncpy (mq_name msg) name (32 - 1),
             mq_text := c_strncpy (mq_text msg) input (MQ_TEXT - 1)\<rparr>)"

text \<open>The user window and the lines of the chat window.\<close>

record mq_windows =
  users :: "string list"
  chat :: "(string \<times> string) list"

definition client_shows :: "int \<Rightarrow> mq_message \<Rightarrow> mq_windows \<Rightarrow> mq_windows" where
  "client_shows max_y msg w =
     (if mq_type msg = 2
      then (let temp_msg = copy_field MQ_TEXT (replicate MQ_TEXT 0) (mq_text msg)
            in w\<lparr>users := take (nat (max_y - 2)) (strtok_all (CHR 0x0A) (cstr temp_msg))\<rparr>)
      else w\<lparr>chat := chat w @ [(cstr (mq_name msg), cstr (mq_text msg))]\<rparr>)"

section \<open>The table\<close>

definition mq_inv :: "mq_state \<Rightarrow> bool" where
  "mq_inv st \<longleftrightarrow> length (mq_clients st) = MQ_CLIENTS \<and> mq_client_count st \<le> MQ_CLIENTS
     \<and> (\<forall>c\<in>set (mq_clients st). length (ci_name c) = 32 \<and> ci_name c ! 31 = 0
          \<and> length (ci_queue_name c) = 64 \<and> ci_queue_name c ! 63 = 0)"

definition names :: "mq_state \<Rightarrow> string list" where
  "names st = map (\<lambda>c. cstr (ci_name c)) (registered st)"

lemma strncpy_field:
  assumes "length dst = Suc n" "dst ! n = 0"
  shows "length (c_strncpy dst src n) = Suc n" "c_strncpy dst src n ! n = 0"
proof -
  have l: "length (take n (cstr src @ replicate n 0)) = n" by simp
  show "length (c_strncpy dst src n) = Suc n" using assms by simp
  show "c_strncpy dst src n ! n = 0" unfolding c_strncpy_def nth_append l using assms by simp
qed

lemma add_mq_client_effect:
  assumes inv: "mq_inv st" and add: "add_mq_client name queue_name qd st = (st', r)"
  shows "mq_inv st'" and "r = 0 \<or> r = -1" and "r = -1 \<Longrightarrow> st' = st"
    and "r = 0 \<longleftrightarrow> mq_client_count st < MQ_CLIENTS \<and> qd \<noteq> -1"
    and "r = 0 \<Longrightarrow> names st' = names st @ [take 31 (cstr name)]"
    and "r = 0 \<Longrightarrow> map ci_dqueue (registered st') = map ci_dqueue (registered st) @ [qd]"
proof -
  let ?n = "mq_client_count st"
  let ?c = "mq_clients st ! ?n"
  let ?d = "\<lparr>ci_name = c_strncpy (ci_name ?c) name (32 - 1),
    ci_queue_name = c_strncpy (ci_queue_name ?c) queue_name (64 - 1), ci_dqueue = qd\<rparr>"
  show "r = 0 \<or> r = -1" "r = -1 \<Longrightarrow> st' = st" "r = 0 \<longleftrightarrow> ?n < MQ_CLIENTS \<and> qd \<noteq> -1"
    using add by (auto simp: add_mq_client_def Let_def split: if_splits)
  have main: "mq_inv st' \<and> registered st' = registered st @ [?d] \<and> cstr (ci_name ?d) = take 31 (cstr name)" if "r = 0"
  proof -
    have n: "?n < MQ_CLIENTS" and st': "st' = st\<lparr>mq_clients := (mq_clients st)[?n := ?d], mq_client_count := Suc ?n\<rparr>"
      using add that by (auto simp: add_mq_client_def Let_def split: if_splits)
    have "?c \<in> set (mq_clients st)" using n inv by (simp add: mq_inv_def)
    then have c: "length (ci_name ?c) = 32" "ci_name ?c ! 31 = 0" "length (ci_queue_name ?c) = 64" "ci_queue_name ?c ! 63 = 0"
      using inv by (auto simp: mq_inv_def)
    have "mq_inv st'"
      using inv n c strncpy_field [of "ci_name ?c" 31] strncpy_field [of "ci_queue_name ?c" 63]
      by (auto simp: mq_inv_def st' dest!: in_set_updateD)
    moreover have "registered st' = registered st @ [?d]"
      using inv n by (simp add: registered_def st' mq_inv_def take_Suc_conv_app_nth)
    ultimately show ?thesis using strncpy_zero_last [of "ci_name ?c" 31] c by simp
  qed
  show "r = 0 \<Longrightarrow> names st' = names st @ [take 31 (cstr name)]"
    "r = 0 \<Longrightarrow> map ci_dqueue (registered st') = map ci_dqueue (registered st) @ [qd]"
    using main by (simp_all add: names_def)
  show "mq_inv st'" using main inv \<open>r = 0 \<or> r = -1\<close> \<open>r = -1 \<Longrightarrow> st' = st\<close> by auto
qed

lemma mq_server_inv: "mq_inv st \<Longrightarrow> mq_server st msg qd = Some (st', out) \<Longrightarrow> mq_inv st'"
  by (auto simp: mq_server_def split: prod.splits if_splits dest: add_mq_client_effect(1))

section \<open>The list of names\<close>

definition listing :: "string list \<Rightarrow> string" where
  "listing ns = concat (map (\<lambda>n. n @ [CHR 0x0A]) ns)"

lemma listing_simps [simp]: "listing [] = []" "listing (n # ns) = n @ CHR 0x0A # listing ns"
  by (simp_all add: listing_def)

lemma size_diff_small: "b \<le> a \<Longrightarrow> a < 2 ^ 64 \<Longrightarrow> size_diff a b = a - b"
  unfolding size_diff_def by (metis add_diff_assoc less_imp_diff_less mod_add_self1 mod_less)

lemma newline_cstr [simp]: "cstr [CHR 0x0A] = [CHR 0x0A]"
  by (simp add: cstr_Cons zero_char_def)
lemma strncat_fits:
  assumes "length text = MQ_TEXT" "strlen text + length (take n (cstr src)) \<le> 255"
  obtains text' where "c_strncat text src n = Some text'" "cstr text' = cstr text @ take n (cstr src)" "length text' = MQ_TEXT"
proof -
  obtain text' where t: "c_strncat text src n = Some text'"
    using assms by (simp add: c_strncat_def Let_def)
  then show ?thesis using that [OF t] cstr_strncat [OF t] length_strncat [OF t] assms(1) by simp
qed

text \<open>One name while at most 254 characters are used.\<close>

lemma append_names_step:
  assumes "length text = MQ_TEXT" "strlen text \<le> 254"
  obtains text' where "append_names (name # ns) text = append_names ns text'" "length text' = MQ_TEXT"
    "cstr text' = cstr text @ take (254 - strlen text) (cstr name) @ [CHR 0x0A]"
proof -
  have d: "size_diff MQ_TEXT (strlen text + 2) = 254 - strlen text"
    using assms(2) by (simp add: size_diff_small)
  obtain t1 where t1: "c_strncat text name (254 - strlen text) = Some t1"
    "cstr t1 = cstr text @ take (254 - strlen text) (cstr name)" "length t1 = MQ_TEXT"
    by (rule strncat_fits [OF assms(1), of "254 - strlen text" name]) (use assms(2) in auto)
  have l: "strlen t1 \<le> 254" using t1(2) assms(2) by auto
  have d2: "size_diff MQ_TEXT (strlen t1 + 1) = Suc (254 - strlen t1)"
    using l by (simp add: size_diff_small)
  obtain t2 where t2: "c_strncat t1 [CHR 0x0A] (Suc (254 - strlen t1)) = Some t2"
    "cstr t2 = cstr t1 @ [CHR 0x0A]" "length t2 = MQ_TEXT"
    by (rule strncat_fits [OF t1(3), of "Suc (254 - strlen t1)" "[CHR 0x0A]"]) (use l in auto)
  have "append_names (name # ns) text = append_names ns t2"
    by (simp only: append_names.simps d d2 t1(1) t2(1) option.simps)
  then show ?thesis
    using that [of t2] t1 t2 by simp
qed

lemma append_names_fits:
  assumes "length buf = MQ_TEXT" "strlen buf + length (listing (map cstr ns)) \<le> 255"
  shows "\<exists>buf'. append_names ns buf = Some buf' \<and> cstr buf' = cstr buf @ listing (map cstr ns) \<and> length buf' = MQ_TEXT"
  using assms
proof (induction ns arbitrary: buf)
  case (Cons n ns)
  have le: "strlen buf \<le> 254" using Cons.prems by simp
  obtain t where t: "append_names (n # ns) buf = append_names ns t" "length t = MQ_TEXT"
    "cstr t = cstr buf @ take (254 - strlen buf) (cstr n) @ [CHR 0x0A]"
    using append_names_step [OF Cons.prems(1) le] .
  have "cstr t = cstr buf @ cstr n @ [CHR 0x0A]" using t(3) Cons.prems by simp
  then show ?case using Cons.IH [OF t(2)] Cons.prems t(1) by auto
qed simp

lemma append_names_full:
  assumes "length buf = MQ_TEXT" "strlen buf = 255"
  shows "append_names ns buf = None \<longleftrightarrow> (\<exists>n\<in>set ns. cstr n \<noteq> [])"
  using assms
proof (induction ns arbitrary: buf)
  case (Cons n ns)
  have d: "size_diff MQ_TEXT (strlen buf + 2) = Suc 18446744073709551614"
    using Cons.prems by (simp add: size_diff_def)
  show ?case
  proof (cases "cstr n = []")
    case True
    then obtain t1 where t1: "c_strncat buf n (Suc 18446744073709551614) = Some t1" "cstr t1 = cstr buf" "length t1 = MQ_TEXT"
      using strncat_fits [OF Cons.prems(1), of "Suc 18446744073709551614" n] Cons.prems(2) by auto
    have d2: "size_diff MQ_TEXT (strlen t1 + 1) = 0"
      using t1(2) Cons.prems(2) by (simp add: size_diff_small)
    obtain t2 where "c_strncat t1 [CHR 0x0A] 0 = Some t2" "cstr t2 = cstr t1" "length t2 = MQ_TEXT"
      using strncat_fits [OF t1(3), of 0 "[CHR 0x0A]"] t1(2) Cons.prems(2) by auto
    then show ?thesis
      using True t1 d d2 Cons.IH [of t2] Cons.prems by simp
  next
    case False
    then have "c_strncat buf n (Suc 18446744073709551614) = None"
      using Cons.prems by (cases "cstr n") (simp_all add: c_strncat_def Let_def)
    then show ?thesis using d False by simp
  qed
qed simp

lemma split_after_first:
  assumes "\<not> Q []"
  shows "(\<exists>a m b. n # ns = a @ m # b \<and> P m \<and> Q a) \<longleftrightarrow> (\<exists>a m b. ns = a @ m # b \<and> P m \<and> Q (n # a))"
proof
  assume "\<exists>a m b. n # ns = a @ m # b \<and> P m \<and> Q a"
  then obtain a m b where s: "n # ns = a @ m # b" "P m" "Q a" by blast
  then obtain a' where "a = n # a'" "ns = a' @ m # b" using assms by (cases a) auto
  then show "\<exists>a m b. ns = a @ m # b \<and> P m \<and> Q (n # a)" using s by blast
next
  assume "\<exists>a m b. ns = a @ m # b \<and> P m \<and> Q (n # a)"
  then show "\<exists>a m b. n # ns = a @ m # b \<and> P m \<and> Q a" by (metis append_Cons)
qed

lemma append_names_None_iff:
  assumes "length buf = MQ_TEXT" "strlen buf \<le> 255"
  shows "append_names ns buf = None \<longleftrightarrow>
    (\<exists>a n b. ns = a @ n # b \<and> cstr n \<noteq> [] \<and> 255 \<le> strlen buf + length (listing (map cstr a)))"
  using assms
proof (induction ns arbitrary: buf)
  case (Cons n ns)
  show ?case
  proof (cases "strlen buf = 255")
    case True
    have "(\<exists>m\<in>set (n # ns). cstr m \<noteq> []) \<longleftrightarrow> (\<exists>a m b. n # ns = a @ m # b \<and> cstr m \<noteq> [])"
      by (metis in_set_conv_decomp)
    then show ?thesis
      unfolding append_names_full [OF Cons.prems(1) True] using True by simp
  next
    case False
    then have le: "strlen buf \<le> 254" using Cons.prems by simp
    obtain t where t: "append_names (n # ns) buf = append_names ns t" "length t = MQ_TEXT"
      "cstr t = cstr buf @ take (254 - strlen buf) (cstr n) @ [CHR 0x0A]"
      using append_names_step [OF Cons.prems(1) le] .
    have lt: "strlen t = min 255 (strlen buf + strlen n + 1)" using t(3) le by simp
    have e: "255 \<le> strlen t + k \<longleftrightarrow> 255 \<le> strlen buf + (strlen n + 1 + k)" for k using lt by auto
    show ?thesis (is "_ \<longleftrightarrow> ?R")
    proof -
      have "?R \<longleftrightarrow> (\<exists>a m b. ns = a @ m # b \<and> cstr m \<noteq> [] \<and> 255 \<le> strlen buf + length (listing (map cstr (n # a))))"
        using le by (intro split_after_first) simp
      moreover have "append_names (n # ns) buf = None \<longleftrightarrow>
          (\<exists>a m b. ns = a @ m # b \<and> cstr m \<noteq> [] \<and> 255 \<le> strlen t + length (listing (map cstr a)))"
        unfolding t(1) by (rule Cons.IH [OF t(2)]) (use lt in simp)
      moreover have "length (listing (map cstr (n # a))) = strlen n + 1 + length (listing (map cstr a))" for a
        by simp
      ultimately show ?thesis by (simp only: e)
    qed
  qed
qed simp

lemma strtok_listing:
  "\<forall>n\<in>set ns. n \<noteq> [] \<and> CHR 0x0A \<notin> set n \<Longrightarrow> strtok_all (CHR 0x0A) (listing ns) = ns"
proof (induction ns)
  case Nil
  then show ?case by (simp add: strtok_all_Nil)
next
  case (Cons n ns)
  then obtain c cs where n: "n = c # cs" "CHR 0x0A \<notin> set n" by (cases n) auto
  let ?s = "n @ CHR 0x0A # listing ns"
  have t: "dropWhile (\<lambda>c. c = CHR 0x0A) ?s = ?s" using n by auto
  have w: "takeWhile (\<lambda>c. c \<noteq> CHR 0x0A) ?s = n" "dropWhile (\<lambda>c. c \<noteq> CHR 0x0A) ?s = CHR 0x0A # listing ns"
    using n(2) by (auto simp: takeWhile_append dropWhile_append)
  have r: "strtok_all (CHR 0x0A) (CHR 0x0A # listing ns) = strtok_all (CHR 0x0A) (listing ns)"
    by (subst (1 2) strtok_all.simps) simp
  have "strtok_all (CHR 0x0A) ?s = n # strtok_all (CHR 0x0A) (CHR 0x0A # listing ns)"
    using strtok_all_Cons [OF t] unfolding w by simp
  then show ?case using Cons r by simp
qed

text \<open>The server's own mailbox: every reachable table is well formed.\<close>

interpretation mq: transition_system "\<lambda>st. st = mq_start" "\<lambda>st st'. \<exists>msg qd out. mq_server st msg qd = Some (st', out)" mq_inv
proof
  show "mq_inv st" if "st = mq_start" for st using that by (auto simp: mq_start_def mq_inv_def)
  show "mq_inv t" if "mq_inv s" "\<exists>msg qd out. mq_server s msg qd = Some (t, out)" for s t
    using that mq_server_inv by blast
qed

lemma registered_names [simp]: "map (cstr \<circ> ci_name) (registered st) = names st"
  by (simp add: names_def comp_def)

lemma split_map:
  "(\<exists>a n b. xs = a @ n # b \<and> P (f n) \<and> Q (map f a)) \<longleftrightarrow> (\<exists>a n b. map f xs = a @ n # b \<and> P n \<and> Q a)"
proof
  assume "\<exists>a n b. xs = a @ n # b \<and> P (f n) \<and> Q (map f a)"
  then show "\<exists>a n b. map f xs = a @ n # b \<and> P n \<and> Q a" by force
next
  assume "\<exists>a n b. map f xs = a @ n # b \<and> P n \<and> Q a"
  then obtain a n b where m: "map f xs = a @ n # b" "P n" "Q a" by blast
  then obtain a' r where s: "xs = a' @ r" "map f a' = a" "map f r = n # b"
    by (auto simp: map_eq_append_conv)
  then obtain n' b' where "r = n' # b'" "f n' = n" by (auto simp: map_eq_Cons_conv)
  then show "\<exists>a n b. xs = a @ n # b \<and> P (f n) \<and> Q (map f a)" using m s by blast
qed

lemma zero_text: "strlen (mq_text zero_msg) = 0" "length (mq_text zero_msg) = MQ_TEXT"
  "(mq_text zero_msg)[0 := 0] = mq_text zero_msg"
  by (simp_all add: zero_msg_def cstr_def list_update_same_conv)

lemma msg_fields:
  "cstr (mq_name (say_msg name input)) = take 31 (cstr name)"
  "cstr (mq_text (say_msg name input)) = take 255 (cstr input)"
  "cstr (mq_name (register_msg name)) = take 31 (cstr name)"
  by (simp_all add: say_msg_def register_msg_def zero_msg_def Let_def strncpy_zero_last)

section \<open>Properties\<close>

text \<open>
  Registration: in a table with room, a registration whose queue opens is appended under the
  name cut to 31 characters. If the names with their newlines fit 255 characters the server sends the
  list to every registered queue, the new one included, and a client whose user window is high enough
  shows exactly the registered names in the order of registration.
\<close>

theorem mq_registration_lists_names:
  assumes inv: "mq_inv st" and room: "mq_client_count st < MQ_CLIENTS" "qd \<noteq> -1"
    and fits: "length (listing (names st @ [take 31 (cstr name)])) \<le> 255"
    and clean: "\<forall>n\<in>set (names st @ [take 31 (cstr name)]). n \<noteq> [] \<and> CHR 0x0A \<notin> set n"
    and rows: "int (mq_client_count st) + 3 \<le> max_y"
  shows "\<exists>st' msg. mq_server st (register_msg name) qd
           = Some (st', map (\<lambda>c. (ci_dqueue c, msg)) (registered st'))
    \<and> names st' = names st @ [take 31 (cstr name)]
    \<and> map ci_dqueue (registered st') = map ci_dqueue (registered st) @ [qd]
    \<and> users (client_shows max_y msg w) = names st'"
proof -
  obtain st' r where add: "add_mq_client (mq_name (register_msg name)) (mq_queue_name (register_msg name)) qd st = (st', r)"
    by fastforce
  note E = add_mq_client_effect [OF inv add]
  have r: "r = 0" using E(4) room by simp
  have nm: "names st' = names st @ [take 31 (cstr name)]" using E(5) r msg_fields(3) [of name] by simp
  let ?ns = "map ci_name (registered st')"
  obtain buf where b: "append_names ?ns (mq_text zero_msg) = Some buf" "cstr buf = listing (names st')" "length buf = MQ_TEXT"
    using append_names_fits [OF zero_text(2), of ?ns] zero_text(1) fits nm
    by (auto simp: registered_names)
  define msg where "msg = zero_msg\<lparr>mq_type := 2, mq_text := buf, mq_name := c_strncpy (mq_name zero_msg) ''Server'' 31\<rparr>"
  have s: "mq_server st (register_msg name) qd = Some (st', map (\<lambda>c. (ci_dqueue c, msg)) (registered st'))"
    using add r b(1) by (simp add: mq_server_def broadcast_new_clients_def register_msg_def zero_msg_def [symmetric]
        zero_text Let_def send_all_def msg_def)
  have "cstr (copy_field MQ_TEXT (replicate MQ_TEXT 0) buf) = listing (names st')"
    using b fits nm by (simp add: cstr_copy_field)
  moreover have "length (names st') \<le> nat (max_y - 2)"
    using rows nm inv by (simp add: names_def registered_def mq_inv_def)
  ultimately have "users (client_shows max_y msg w) = names st'"
    using strtok_listing [of "names st'"] clean nm by (simp add: client_shows_def msg_def Let_def)
  then show ?thesis using s nm E(6) r by blast
qed

lemma mq_start_facts: "mq_inv mq_start" "names mq_start = []" "mq_client_count mq_start = 0"
  by (auto simp: mq_start_def mq_inv_def names_def registered_def)

theorem mq_registration_lists_names_witness:
  "\<exists>st' msg. mq_server mq_start (register_msg ''ann'') 3 = Some (st', map (\<lambda>c. (ci_dqueue c, msg)) (registered st'))
     \<and> users (client_shows 20 msg \<lparr>users = [], chat = []\<rparr>) = [''ann'']"
proof -
  have n: "take 31 (cstr ''ann'') = ''ann''" by (simp add: cstr_Cons zero_char_def)
  show ?thesis
    using mq_registration_lists_names [OF mq_start_facts(1), of 3 "''ann''" 20 "\<lparr>users = [], chat = []\<rparr>"]
    unfolding n mq_start_facts by auto
qed

text \<open>
  A message reaches everyone: the message a client builds for a line it typed leaves the
  server's table unchanged and is sent once to every registered queue in the order of registration, and
  every client shows the sender's name and the text, cut to 31 and 255 characters.
\<close>

theorem mq_message_reaches_all:
  "\<exists>msg. mq_server st (say_msg name input) qd = Some (st, map (\<lambda>c. (ci_dqueue c, msg)) (registered st))
    \<and> chat (client_shows max_y msg w) = chat w @ [(take 31 (cstr name), take 255 (cstr input))]"
proof -
  define msg where "msg = zero_msg\<lparr>mq_type := 1, mq_name := c_strncpy (mq_name zero_msg) (mq_name (say_msg name input)) 31,
    mq_text := c_strncpy (mq_text zero_msg) (mq_text (say_msg name input)) 255\<rparr>"
  have "mq_server st (say_msg name input) qd = Some (st, map (\<lambda>c. (ci_dqueue c, msg)) (registered st))"
    by (simp add: mq_server_def broadcast_message_def send_all_def say_msg_def zero_msg_def msg_def Let_def)
  moreover have "cstr (mq_name msg) = take 31 (cstr name)" "cstr (mq_text msg) = take 255 (cstr input)"
    using msg_fields(1,2) [of name input] by (simp_all add: msg_def zero_msg_def strncpy_zero_last)
  moreover have "mq_type msg \<noteq> 2" by (simp add: msg_def)
  ultimately show ?thesis by (intro exI [of _ msg]) (simp add: client_shows_def)
qed

text \<open>
  The limit of the list: the length \<^verbatim>\<open>sizeof(msg.text) - strlen(msg.text) - 2\<close> wraps around to a
  huge \<^verbatim>\<open>size_t\<close> when the text is full, so an accepted registration makes \<^verbatim>\<open>strncat\<close> write outside
  \<^verbatim>\<open>msg.text\<close> exactly when a non-empty name follows names that, with their newlines, take 255 characters
  or more; the ten clients the table admits can do that.
\<close>

theorem mq_name_list_overflow:
  assumes inv: "mq_inv st" and reg: "mq_type msg = 0" and room: "mq_client_count st < MQ_CLIENTS" "qd \<noteq> -1"
  shows "mq_server st msg qd = None \<longleftrightarrow>
    (\<exists>a n b. names st @ [take 31 (cstr (mq_name msg))] = a @ n # b \<and> n \<noteq> [] \<and> 255 \<le> length (listing a))"
proof -
  obtain st' r where add: "add_mq_client (mq_name msg) (mq_queue_name msg) qd st = (st', r)" by fastforce
  note E = add_mq_client_effect [OF inv add]
  have r: "r = 0" using E(4) room by simp
  let ?ns = "map ci_name (registered st')"
  have "mq_server st msg qd = None \<longleftrightarrow> append_names ?ns (mq_text zero_msg) = None"
    using reg add r by (simp add: mq_server_def broadcast_new_clients_def Let_def zero_text split: option.splits)
  also have "\<dots> \<longleftrightarrow> (\<exists>a n b. ?ns = a @ n # b \<and> cstr n \<noteq> [] \<and> 255 \<le> length (listing (map cstr a)))"
    using append_names_None_iff [OF zero_text(2), of ?ns] zero_text(1) by simp
  also have "\<dots> \<longleftrightarrow> (\<exists>a n b. map cstr ?ns = a @ n # b \<and> n \<noteq> [] \<and> 255 \<le> length (listing a))"
    by (rule split_map)
  finally show ?thesis
    using E(5) r by (simp add: registered_names)
qed

definition eight_clients :: mq_state where
  "eight_clients = \<lparr>mq_clients = replicate MQ_CLIENTS
     \<lparr>ci_name = replicate 31 (CHR ''a'') @ [0], ci_queue_name = replicate 64 0, ci_dqueue = 0\<rparr>, mq_client_count = 8\<rparr>"

theorem mq_name_list_overflow_witness:
  "mq_server eight_clients (register_msg ''bob'') 9 = None"
proof -
  have i: "mq_inv eight_clients" by (auto simp: eight_clients_def mq_inv_def nth_append)
  have c: "cstr (replicate 31 (CHR ''a'') @ [0]) = replicate 31 (CHR ''a'')"
    by (rule cstr_append_zero) (simp add: zero_char_def)
  have n: "names eight_clients = replicate 8 (replicate 31 (CHR ''a''))"
    by (simp add: names_def registered_def eight_clients_def c)
  have m: "take 31 (cstr (mq_name (register_msg ''bob''))) = ''bob''"
    by (simp add: msg_fields cstr_Cons zero_char_def)
  have l: "length (listing (replicate 8 (replicate 31 (CHR ''a'')))) = 256"
    by (simp add: listing_def sum_list_replicate length_concat)
  have "\<exists>a n b. names eight_clients @ [take 31 (cstr (mq_name (register_msg ''bob'')))] = a @ n # b \<and> n \<noteq> []
      \<and> 255 \<le> length (listing a)"
    unfolding n m using l by (intro exI [of _ "replicate 8 (replicate 31 (CHR ''a''))"] exI [of _ "''bob''"] exI [of _ "[]"]) simp
  then show ?thesis
    using mq_name_list_overflow [OF i, of "register_msg ''bob''" 9]
    by (simp add: eight_clients_def register_msg_def zero_msg_def)
qed

end
