(* ===== verification/Shop.thy ===== *)
theory Shop
  imports CPrelude
begin

text \<open>
  The shops of \<^verbatim>\<open>hw11_thread/main.c\<close>: three buyer threads and a loader thread over five shops, each shop
  behind its mutex. One step of a thread is one critical section or one test; the order of the steps is
  arbitrary. \<open>bought\<close> and \<open>delivered\<close> count what went through, and are not part of the program.
\<close>

abbreviation SHOP_COUNT :: nat where "SHOP_COUNT \<equiv> 5"
abbreviation BUYER_COUNT :: nat where "BUYER_COUNT \<equiv> 3"

text \<open>
  The points of \<^verbatim>\<open>buyer_func\<close>: the test of the \<^verbatim>\<open>while\<close>, the iteration \<open>i\<close> of the \<^verbatim>\<open>for\<close> (5 is its end
  without a purchase), the sleep, the final critical section and the end.
\<close>

datatype buyer_pc = B_while | B_shop nat | B_asleep | B_finish | B_done

datatype loader_pc = L_check | L_shop nat | L_done

record shop_state =
  shop :: "int list"
  demand :: "int list"
  buyers_finished :: nat
  buyer_at :: "buyer_pc list"
  loader_at :: loader_pc
  bought :: "int list"
  delivered :: "nat list"

definition shop_init :: "int list \<Rightarrow> int list \<Rightarrow> shop_state" where
  "shop_init stock demands =
     \<lparr>shop = stock, demand = demands, buyers_finished = 0, buyer_at = replicate BUYER_COUNT B_while,
      loader_at = L_check, bought = replicate BUYER_COUNT 0, delivered = replicate SHOP_COUNT 0\<rparr>"

text \<open>What \<^verbatim>\<open>main\<close> draws with \<^verbatim>\<open>rand()\<close>.\<close>

definition drawn :: "int list \<Rightarrow> int list \<Rightarrow> bool" where
  "drawn stock demands \<longleftrightarrow> length stock = SHOP_COUNT \<and> length demands = BUYER_COUNT
     \<and> (\<forall>n\<in>set stock. 400 \<le> n \<and> n \<le> 600) \<and> (\<forall>n\<in>set demands. 9000 \<le> n \<and> n \<le> 11000)"

section \<open>The threads\<close>

definition go :: "nat \<Rightarrow> buyer_pc \<Rightarrow> shop_state \<Rightarrow> shop_state" where
  "go b pc s = s\<lparr>buyer_at := (buyer_at s)[b := pc]\<rparr>"

text \<open>The body of the \<^verbatim>\<open>if (shop[i] > 0)\<close> at line 94.\<close>

definition buy :: "nat \<Rightarrow> nat \<Rightarrow> shop_state \<Rightarrow> shop_state" where
  "buy b i s =
     (let can_buy = shop s ! i;
          can_buy = (if demand s ! b < can_buy then demand s ! b else can_buy)
      in s\<lparr>shop := (shop s)[i := shop s ! i - can_buy], demand := (demand s)[b := demand s ! b - can_buy],
           bought := (bought s)[b := bought s ! b + can_buy]\<rparr>)"

definition buyer_step :: "nat \<Rightarrow> shop_state \<Rightarrow> shop_state option" where
  "buyer_step b s =
     (case buyer_at s ! b of
        B_while \<Rightarrow> Some (if demand s ! b > 0 then go b (B_shop 0) s else go b B_finish s)
      | B_shop i \<Rightarrow>
          (if i < SHOP_COUNT
           then (if shop s ! i > 0 then Some (go b B_asleep (buy b i s)) else Some (go b (B_shop (i + 1)) s))
           else Some (go b B_asleep s))
      | B_asleep \<Rightarrow> Some (go b B_while s)
      | B_finish \<Rightarrow> Some (go b B_done (s\<lparr>buyers_finished := buyers_finished s + 1\<rparr>))
      | B_done \<Rightarrow> None)"

definition loader_step :: "shop_state \<Rightarrow> shop_state option" where
  "loader_step s =
     (case loader_at s of
        L_check \<Rightarrow> Some (if buyers_finished s = BUYER_COUNT then s\<lparr>loader_at := L_done\<rparr> else s\<lparr>loader_at := L_shop 0\<rparr>)
      | L_shop i \<Rightarrow>
          (if i < SHOP_COUNT
           then Some (s\<lparr>shop := (shop s)[i := shop s ! i + 500], loader_at := L_shop (i + 1),
                        delivered := (delivered s)[i := delivered s ! i + 1]\<rparr>)
           else Some (s\<lparr>loader_at := L_check\<rparr>))
      | L_done \<Rightarrow> None)"

definition shop_step :: "shop_state \<Rightarrow> shop_state \<Rightarrow> bool" where
  "shop_step s t \<longleftrightarrow> (\<exists>b<BUYER_COUNT. buyer_step b s = Some t) \<or> loader_step s = Some t"

text \<open>A schedule: thread numbers 0 to 2 are the buyers, any other is the loader; a finished thread is skipped.\<close>

fun run_schedule :: "nat list \<Rightarrow> shop_state \<Rightarrow> shop_state" where
  "run_schedule [] s = s"
| "run_schedule (k # ks) s =
     run_schedule ks (case (if k < BUYER_COUNT then buyer_step k s else loader_step s) of None \<Rightarrow> s | Some t \<Rightarrow> t)"

lemma run_schedule_steps: "shop_step\<^sup>*\<^sup>* s (run_schedule ks s)"
proof (induction ks arbitrary: s)
  case (Cons k ks)
  let ?t = "case (if k < BUYER_COUNT then buyer_step k s else loader_step s) of None \<Rightarrow> s | Some t \<Rightarrow> t"
  have "?t = s \<or> shop_step s ?t"
    by (auto simp: shop_step_def split: option.splits)
  then have "shop_step\<^sup>*\<^sup>* s ?t" by auto
  then show ?case using Cons [of ?t] by simp
qed simp

section \<open>The invariant\<close>

definition counts_inv :: "shop_state \<Rightarrow> bool" where
  "counts_inv s \<longleftrightarrow> length (shop s) = SHOP_COUNT \<and> length (demand s) = BUYER_COUNT \<and> length (buyer_at s) = BUYER_COUNT
     \<and> length (bought s) = BUYER_COUNT \<and> length (delivered s) = SHOP_COUNT
     \<and> (\<forall>i<SHOP_COUNT. 0 \<le> shop s ! i \<and> shop s ! i \<le> 600 + 500 * int (delivered s ! i))
     \<and> (\<forall>b<BUYER_COUNT. 0 \<le> demand s ! b)"

definition finish_inv :: "shop_state \<Rightarrow> bool" where
  "finish_inv s \<longleftrightarrow> buyers_finished s = length (filter (\<lambda>pc. pc = B_done) (buyer_at s))
     \<and> (\<forall>b<BUYER_COUNT. buyer_at s ! b \<in> {B_finish, B_done} \<longrightarrow> demand s ! b = 0)
     \<and> (loader_at s = L_done \<longrightarrow> (\<forall>b<BUYER_COUNT. buyer_at s ! b = B_done))"

definition goods_inv :: "int list \<Rightarrow> int list \<Rightarrow> shop_state \<Rightarrow> bool" where
  "goods_inv stock demands s \<longleftrightarrow>
     sum_list (shop s) + sum_list (bought s) = sum_list stock + 500 * int (sum_list (delivered s))
     \<and> (\<forall>b<BUYER_COUNT. demand s ! b + bought s ! b = demands ! b)"

definition shop_inv :: "int list \<Rightarrow> int list \<Rightarrow> shop_state \<Rightarrow> bool" where
  "shop_inv stock demands s \<longleftrightarrow> counts_inv s \<and> finish_inv s \<and> goods_inv stock demands s"

lemma sum_list_update_int: "i < length xs \<Longrightarrow> sum_list (xs[i := y]) = sum_list xs - xs ! i + (y :: int)"
  by (induction xs arbitrary: i) (auto split: nat.splits)

lemma sum_list_update_Suc: "i < length xs \<Longrightarrow> sum_list (xs[i := Suc (xs ! i)]) = Suc (sum_list xs)"
  by (induction xs arbitrary: i) (auto split: nat.splits)

lemma count_done_update:
  assumes "b < length pcs"
  shows "length (filter (\<lambda>pc. pc = B_done) (pcs[b := pc])) + (if pcs ! b = B_done then 1 else 0)
    = length (filter (\<lambda>pc. pc = B_done) pcs) + (if pc = B_done then 1 else 0)"
proof -
  obtain x y where p: "pcs = x @ pcs ! b # y" and u: "\<And>q. pcs[b := q] = x @ q # y"
    using assms by (rule list_update_split) blast
  have e: "length (filter (\<lambda>pc. pc = B_done) (x @ q # y)) = length (filter (\<lambda>pc. pc = B_done) x)
    + (if q = B_done then 1 else 0) + length (filter (\<lambda>pc. pc = B_done) y)" for q by simp
  have "length (filter (\<lambda>pc. pc = B_done) pcs) = length (filter (\<lambda>pc. pc = B_done) x)
    + (if pcs ! b = B_done then 1 else 0) + length (filter (\<lambda>pc. pc = B_done) y)"
    using e [of "pcs ! b"] p by simp
  then show ?thesis using e [of pc] by (simp add: u)
qed

lemma all_done_count:
  "length pcs = n \<Longrightarrow> length (filter (\<lambda>pc. pc = B_done) pcs) = n \<longleftrightarrow> (\<forall>b<n. pcs ! b = B_done)"
  by (metis (mono_tags, lifting) all_set_conv_all_nth filter_True length_filter_less less_irrefl)

text \<open>Moving a buyer's program point.\<close>

lemma go_simps [simp]:
  "shop (go b pc s) = shop s" "demand (go b pc s) = demand s" "bought (go b pc s) = bought s"
  "delivered (go b pc s) = delivered s" "loader_at (go b pc s) = loader_at s"
  "buyers_finished (go b pc s) = buyers_finished s" "buyer_at (go b pc s) = (buyer_at s)[b := pc]"
  by (simp_all add: go_def)

lemma go_inv:
  assumes "shop_inv st dm s" "b < BUYER_COUNT" "buyer_at s ! b \<noteq> B_done" "pc \<noteq> B_done"
    and "pc = B_finish \<longrightarrow> demand s ! b = 0"
  shows "shop_inv st dm (go b pc s)"
proof -
  have l: "b < length (buyer_at s)" using assms(1,2) by (simp add: shop_inv_def counts_inv_def)
  have up: "(buyer_at s)[b := pc] ! j = (if j = b then pc else buyer_at s ! j)" for j
    using l by simp
  have "finish_inv (go b pc s)"
    using assms count_done_update [OF l, of pc] by (auto simp: shop_inv_def finish_inv_def up)
  then show ?thesis using assms(1) by (simp add: shop_inv_def counts_inv_def goods_inv_def)
qed

lemma buy_inv:
  assumes inv: "shop_inv st dm s" and b: "b < BUYER_COUNT" and i: "i < SHOP_COUNT" and pos: "shop s ! i > 0"
    and at: "buyer_at s ! b = B_shop i"
  shows "shop_inv st dm (buy b i s)"
proof -
  define c where "c = (if demand s ! b < shop s ! i then demand s ! b else shop s ! i)"
  have c: "0 \<le> c" "c \<le> shop s ! i" "c \<le> demand s ! b"
    using inv b i pos by (auto simp: c_def shop_inv_def counts_inv_def)
  have e: "buy b i s = s\<lparr>shop := (shop s)[i := shop s ! i - c], demand := (demand s)[b := demand s ! b - c],
           bought := (bought s)[b := bought s ! b + c]\<rparr>"
    by (simp add: buy_def c_def Let_def)
  have "counts_inv (buy b i s)"
    using inv b i c unfolding e by (auto simp: shop_inv_def counts_inv_def nth_list_update)
  moreover have "finish_inv (buy b i s)"
    using inv b at unfolding e by (auto simp: shop_inv_def counts_inv_def finish_inv_def nth_list_update)
  moreover have "goods_inv st dm (buy b i s)"
    using inv b i unfolding e by (auto simp: shop_inv_def counts_inv_def goods_inv_def nth_list_update sum_list_update_int)
  ultimately show ?thesis by (simp add: shop_inv_def)
qed

lemma buyer_step_inv:
  assumes inv: "shop_inv st dm s" and b: "b < BUYER_COUNT" and step: "buyer_step b s = Some t"
  shows "shop_inv st dm t"
proof (cases "buyer_at s ! b")
  case B_while
  have "0 \<le> demand s ! b" using inv b by (simp add: shop_inv_def counts_inv_def)
  then show ?thesis
    using step inv b B_while by (auto simp: buyer_step_def intro!: go_inv split: if_splits)
next
  case (B_shop i)
  show ?thesis
  proof (cases "i < SHOP_COUNT \<and> shop s ! i > 0")
    case True
    then have "shop_inv st dm (buy b i s)" "buyer_at (buy b i s) = buyer_at s"
      using buy_inv [OF inv b _ _ B_shop] by (simp_all add: buy_def Let_def)
    moreover have "t = go b B_asleep (buy b i s)" using step B_shop True by (simp add: buyer_step_def)
    ultimately show ?thesis using b B_shop by (auto intro!: go_inv)
  next
    case False
    then show ?thesis using step inv b B_shop by (auto simp: buyer_step_def intro!: go_inv split: if_splits)
  qed
next
  case B_asleep
  then show ?thesis using step inv b by (auto simp: buyer_step_def intro!: go_inv)
next
  case B_finish
  have l: "b < length (buyer_at s)" using inv b by (simp add: shop_inv_def counts_inv_def)
  have up: "(buyer_at s)[b := B_done] ! j = (if j = b then B_done else buyer_at s ! j)" for j
    using l by simp
  have "t = go b B_done (s\<lparr>buyers_finished := buyers_finished s + 1\<rparr>)"
    using step B_finish by (simp add: buyer_step_def)
  then show ?thesis
    using inv b B_finish count_done_update [OF l, of B_done]
    by (auto simp: shop_inv_def counts_inv_def finish_inv_def goods_inv_def up)
next
  case B_done
  then show ?thesis using step by (simp add: buyer_step_def)
qed

lemma loader_step_inv:
  assumes inv: "shop_inv st dm s" and step: "loader_step s = Some t"
  shows "shop_inv st dm t"
proof (cases "loader_at s")
  case L_check
  have "length (buyer_at s) = BUYER_COUNT" using inv by (simp add: shop_inv_def counts_inv_def)
  then show ?thesis
    using step inv L_check all_done_count [of "buyer_at s" BUYER_COUNT]
    by (auto simp: loader_step_def shop_inv_def counts_inv_def finish_inv_def goods_inv_def split: if_splits)
next
  case (L_shop i)
  show ?thesis
  proof (cases "i < SHOP_COUNT")
    case True
    then have t: "t = s\<lparr>shop := (shop s)[i := shop s ! i + 500], loader_at := L_shop (i + 1),
        delivered := (delivered s)[i := delivered s ! i + 1]\<rparr>"
      using step L_shop by (simp add: loader_step_def)
    have l: "length (shop s) = SHOP_COUNT" "length (delivered s) = SHOP_COUNT"
      using inv by (simp_all add: shop_inv_def counts_inv_def)
    have up: "(shop s)[i := v] ! j = (if j = i then v else shop s ! j)"
      "(delivered s)[i := d] ! j = (if j = i then d else delivered s ! j)" for j v d
      using True l by simp_all
    have bd: "\<forall>j<SHOP_COUNT. 0 \<le> shop s ! j \<and> shop s ! j \<le> 600 + 500 * int (delivered s ! j)"
      using inv by (simp add: shop_inv_def counts_inv_def)
    then have "counts_inv t"
      using inv True unfolding t shop_inv_def counts_inv_def by (auto simp: up)
    then show ?thesis
      using inv L_shop True l
      by (simp add: shop_inv_def finish_inv_def goods_inv_def t sum_list_update_int sum_list_update_Suc algebra_simps)
  next
    case False
    then show ?thesis
      using step inv L_shop by (auto simp: loader_step_def shop_inv_def counts_inv_def finish_inv_def goods_inv_def)
  qed
next
  case L_done
  then show ?thesis using step by (simp add: loader_step_def)
qed

lemma shop_init_inv:
  assumes "drawn stock demands"
  shows "shop_inv stock demands (shop_init stock demands)"
proof -
  have l: "length stock = SHOP_COUNT" "length demands = BUYER_COUNT" using assms by (simp_all add: drawn_def)
  have "400 \<le> stock ! i \<and> stock ! i \<le> 600" if "i < SHOP_COUNT" for i
    using assms that nth_mem [of i stock] by (auto simp: drawn_def)
  moreover have "9000 \<le> demands ! b" if "b < BUYER_COUNT" for b
    using assms that nth_mem [of b demands] by (auto simp: drawn_def)
  ultimately have "counts_inv (shop_init stock demands)"
    using l by (simp add: counts_inv_def shop_init_def) (meson order_trans zero_le_numeral)
  moreover have "finish_inv (shop_init stock demands)" "goods_inv stock demands (shop_init stock demands)"
    by (simp_all add: finish_inv_def goods_inv_def shop_init_def sum_list_replicate)
  ultimately show ?thesis by (simp add: shop_inv_def)
qed

interpretation sh: transition_system "\<lambda>s. drawn stock demands \<and> s = shop_init stock demands" shop_step "shop_inv stock demands"
  for stock demands
proof
  show "shop_inv stock demands s" if "drawn stock demands \<and> s = shop_init stock demands" for s
    using that shop_init_inv by blast
  show "shop_inv stock demands t" if "shop_inv stock demands s" "shop_step s t" for s t
    using that buyer_step_inv loader_step_inv unfolding shop_step_def by blast
qed

section \<open>Properties\<close>

lemma shop_reach_inv:
  "drawn stock demands \<Longrightarrow> shop_step\<^sup>*\<^sup>* (shop_init stock demands) s \<Longrightarrow> shop_inv stock demands s"
  using sh.steps_inv shop_init_inv by blast



text \<open>
  Claim C23. The program ends exactly when everybody is served: in every reachable state some thread can
  take a step unless the loader has ended, and the loader ends only after every buyer has, each having
  bought its whole demand.
\<close>

theorem shop_ends_when_all_served:
  assumes "drawn stock demands" "shop_step\<^sup>*\<^sup>* (shop_init stock demands) s"
  shows "((\<nexists>t. shop_step s t) \<longleftrightarrow> loader_at s = L_done)
    \<and> (loader_at s = L_done \<longrightarrow>
        (\<forall>b<BUYER_COUNT. buyer_at s ! b = B_done \<and> demand s ! b = 0 \<and> bought s ! b = demands ! b))"
proof -
  have inv: "shop_inv stock demands s" using shop_reach_inv [OF assms] .
  have fin: "buyer_at s ! b = B_done \<and> demand s ! b = 0" if "loader_at s = L_done" "b < BUYER_COUNT" for b
    using inv that by (auto simp: shop_inv_def finish_inv_def)
  have "loader_step s \<noteq> None" if "loader_at s \<noteq> L_done"
    using that by (auto simp: loader_step_def split: loader_pc.splits)
  moreover have "\<not> shop_step s t" if "loader_at s = L_done" for t
    using fin that by (auto simp: shop_step_def buyer_step_def loader_step_def)
  ultimately have "(\<nexists>t. shop_step s t) \<longleftrightarrow> loader_at s = L_done"
    by (auto simp: shop_step_def)
  moreover have "bought s ! b = demands ! b" if "loader_at s = L_done" "b < BUYER_COUNT" for b
    using fin [OF that] inv that by (auto simp: shop_inv_def goods_inv_def)
  ultimately show ?thesis using fin by blast
qed

theorem shop_ends_when_all_served_witness:
  "\<exists>t. shop_step (shop_init [400, 400, 400, 400, 600] [9000, 9000, 9500]) t"
proof -
  have d: "drawn [400, 400, 400, 400, 600] [9000, 9000, 9500]" by (simp add: drawn_def)
  show ?thesis using shop_ends_when_all_served [OF d rtranclp.rtrancl_refl] by (auto simp: shop_init_def)
qed

end
