(* ===== verification/FileManager.thy ===== *)
theory FileManager
  imports CText "HOL-Library.Multiset"
begin

text \<open>
  The two-panel file manager of \<^verbatim>\<open>hw9_vfs/file_manager\<close>: loading and sorting a directory, the path of a
  panel, the moving selection with its scrolling, drawing, and the key loop of \<^verbatim>\<open>main.c\<close>. The contents
  of directories, \<^verbatim>\<open>realpath\<close> and \<^verbatim>\<open>qsort\<close> are arguments; \<open>None\<close> in drawing is a read outside
  \<^verbatim>\<open>files\<close>.
\<close>

abbreviation MAX_FILES :: nat where "MAX_FILES \<equiv> 1024"
abbreviation PATH_MAX :: nat where "PATH_MAX \<equiv> 4096"

record file_entry =
  fe_name :: string
  fe_is_dir :: bool

text \<open>\<open>files\<close> is the used part of the array, so \<^verbatim>\<open>count\<close> is its length.\<close>

record file_list =
  fl_path :: string
  files :: "file_entry list"
  selected :: int
  start_line :: int

abbreviation fl_count :: "file_list \<Rightarrow> nat" where "fl_count fl \<equiv> length (files fl)"

section \<open>Order of entries\<close>

text \<open>\<^verbatim>\<open>tolower\<close> in the C locale, and \<^verbatim>\<open>strcasecmp\<close>.\<close>

definition lower :: "char \<Rightarrow> nat" where
  "lower c = (let k = of_char c :: nat in if 65 \<le> k \<and> k \<le> 90 then k + 32 else k)"

fun strcasecmp :: "string \<Rightarrow> string \<Rightarrow> int" where
  "strcasecmp [] [] = 0"
| "strcasecmp [] (b # bs) = - int (lower b)"
| "strcasecmp (a # as) [] = int (lower a)"
| "strcasecmp (a # as) (b # bs) =
     (if lower a = lower b then strcasecmp as bs else int (lower a) - int (lower b))"

definition compare_entries :: "file_entry \<Rightarrow> file_entry \<Rightarrow> int" where
  "compare_entries fa fb =
     (if fe_is_dir fa \<noteq> fe_is_dir fb
      then (if fe_is_dir fb then 1 else 0) - (if fe_is_dir fa then 1 else 0)
      else strcasecmp (fe_name fa) (fe_name fb))"

section \<open>Loading a directory\<close>

text \<open>
  The loop at line 37 over what \<^verbatim>\<open>readdir\<close> returns: each name with whether \<^verbatim>\<open>stat\<close> succeeds on the joined
  path and calls it a directory. \<^verbatim>\<open>snprintf\<close> into \<^verbatim>\<open>fullpath[PATH_MAX]\<close> must not be cut.
\<close>

fun read_entries :: "string \<Rightarrow> (string \<times> bool) list \<Rightarrow> file_entry list \<Rightarrow> file_entry list" where
  "read_entries path [] acc = acc"
| "read_entries path ((name, dir) # rest) acc =
     (if length acc \<ge> MAX_FILES then acc
      else if name = ''.'' then read_entries path rest acc
      else if length path + 1 + length name \<ge> PATH_MAX then read_entries path rest acc
      else read_entries path rest (acc @ [\<lparr>fe_name = name, fe_is_dir = dir\<rparr>]))"

text \<open>\<open>None\<close> for the listing is a failed \<^verbatim>\<open>opendir\<close>: the count is zeroed and the rest of the panel stays.\<close>

definition load_directory ::
  "((file_entry \<Rightarrow> file_entry \<Rightarrow> int) \<Rightarrow> file_entry list \<Rightarrow> file_entry list)
    \<Rightarrow> (string \<times> bool) list option \<Rightarrow> file_list \<Rightarrow> file_list" where
  "load_directory qsort listing fl =
     (case listing of
        None \<Rightarrow> fl\<lparr>files := []\<rparr>
      | Some entries \<Rightarrow> fl\<lparr>files := qsort compare_entries (read_entries (fl_path fl) entries []),
                          selected := 0, start_line := 0\<rparr>)"

section \<open>Paths\<close>

text \<open>The index of the last slash: \<^verbatim>\<open>strrchr(path, '/')\<close>.\<close>

definition strrchr_slash :: "string \<Rightarrow> nat option" where
  "strrchr_slash path =
     map_option (\<lambda>i. length path - 1 - i) (first_index (\<lambda>c. c = CHR ''/'') (rev path))"

text \<open>
  \<^verbatim>\<open>update_path\<close>. \<open>junk\<close> is the string that the uninitialised \<^verbatim>\<open>newpath\<close> happens to hold: the branch for a
  parent that is the root cuts \<^verbatim>\<open>flist->path\<close> and leaves \<^verbatim>\<open>newpath\<close> alone.
\<close>

definition update_path :: "(string \<Rightarrow> string option) \<Rightarrow> string \<Rightarrow> string \<Rightarrow> file_list \<Rightarrow> file_list" where
  "update_path realpath junk subdir fl =
     (let (path, newpath) =
        (if subdir = ''..'' then
           (if fl_path fl = ''/'' then (fl_path fl, ''/'')
            else (case strrchr_slash (fl_path fl) of
                    Some i \<Rightarrow> if i = 0 then (take 1 (fl_path fl), junk) else (fl_path fl, take i (fl_path fl))
                  | None \<Rightarrow> (fl_path fl, ''/'')))
         else (let p = fl_path fl @ ''/'' @ subdir
               in (fl_path fl, if length p \<ge> PATH_MAX then fl_path fl else p)))
      in case realpath newpath of
           Some resolved \<Rightarrow> fl\<lparr>fl_path := take (PATH_MAX - 1) resolved\<rparr>
         | None \<Rightarrow> fl\<lparr>fl_path := path\<rparr>)"

section \<open>Selection and drawing\<close>

definition move_selection :: "int \<Rightarrow> int \<Rightarrow> file_list \<Rightarrow> file_list" where
  "move_selection delta height fl =
     (let max_visible = height - 2;
          new_sel = selected fl + delta;
          new_sel = (if new_sel < 0 then 0 else new_sel);
          new_sel = (if new_sel \<ge> int (fl_count fl) then int (fl_count fl) - 1 else new_sel);
          fl = fl\<lparr>selected := new_sel\<rparr>
      in if selected fl < start_line fl then fl\<lparr>start_line := selected fl\<rparr>
         else if selected fl \<ge> start_line fl + max_visible
              then fl\<lparr>start_line := selected fl - max_visible + 1\<rparr> else fl)"

text \<open>The rows drawn: the entry and whether it is highlighted.\<close>

fun draw_rows :: "file_list \<Rightarrow> bool \<Rightarrow> nat \<Rightarrow> int \<Rightarrow> (file_entry \<times> bool) list option" where
  "draw_rows fl active 0 idx = Some []"
| "draw_rows fl active (Suc n) idx =
     (if idx \<ge> int (fl_count fl) then Some []
      else if idx < 0 then None
      else map_option (Cons (files fl ! nat idx, active \<and> idx = selected fl)) (draw_rows fl active n (idx + 1)))"

definition draw_filelist :: "int \<Rightarrow> bool \<Rightarrow> file_list \<Rightarrow> (file_entry \<times> bool) list option" where
  "draw_filelist height active fl = draw_rows fl active (nat (height - 2)) (start_line fl)"

section \<open>The key loop\<close>

record panels =
  left :: file_list
  right :: file_list
  right_active :: bool

datatype key = Tab | Key_up | Key_down | Enter | Other_key

definition fl_now :: "panels \<Rightarrow> file_list" where
  "fl_now p = (if right_active p then right p else left p)"

definition set_now :: "panels \<Rightarrow> file_list \<Rightarrow> panels" where
  "set_now p fl = (if right_active p then p\<lparr>right := fl\<rparr> else p\<lparr>left := fl\<rparr>)"

text \<open>The world an Enter meets: \<^verbatim>\<open>realpath\<close>, the junk of \<^verbatim>\<open>newpath\<close>, and the listing of each path.\<close>

record fs =
  fs_realpath :: "string \<Rightarrow> string option"
  fs_junk :: string
  fs_listing :: "string \<Rightarrow> (string \<times> bool) list option"

definition press ::
  "((file_entry \<Rightarrow> file_entry \<Rightarrow> int) \<Rightarrow> file_entry list \<Rightarrow> file_entry list)
    \<Rightarrow> int \<Rightarrow> fs \<Rightarrow> key \<Rightarrow> panels \<Rightarrow> panels" where
  "press qsort height w k p =
     (let fl = fl_now p
      in case k of
           Tab \<Rightarrow> p\<lparr>right_active := \<not> right_active p\<rparr>
         | Key_up \<Rightarrow> set_now p (move_selection (-1) height fl)
         | Key_down \<Rightarrow> set_now p (move_selection 1 height fl)
         | Enter \<Rightarrow>
             (if fl_count fl > 0 \<and> fe_is_dir (files fl ! nat (selected fl))
              then (let fl = update_path (fs_realpath w) (fs_junk w) (fe_name (files fl ! nat (selected fl))) fl
                    in set_now p (load_directory qsort (fs_listing w (fl_path fl)) fl))
              else p)
         | Other_key \<Rightarrow> p)"

definition redraw :: "int \<Rightarrow> panels \<Rightarrow> ((file_entry \<times> bool) list \<times> (file_entry \<times> bool) list) option" where
  "redraw height p =
     (case (draw_filelist height (\<not> right_active p) (left p), draw_filelist height (right_active p) (right p)) of
        (Some l, Some r) \<Rightarrow> Some (l, r) | _ \<Rightarrow> None)"

section \<open>\<open>main\<close>\<close>

text \<open>
  The panels are not initialised: \<open>uninit\<close> has what their memory holds. A first load that can open its directory
  frees the names of the old list, so it is undefined unless that list happens to be empty (\<^verbatim>\<open>count\<close> is zero).
\<close>

definition first_load ::
  "((file_entry \<Rightarrow> file_entry \<Rightarrow> int) \<Rightarrow> file_entry list \<Rightarrow> file_entry list)
    \<Rightarrow> fs \<Rightarrow> string \<Rightarrow> file_list \<Rightarrow> file_list option" where
  "first_load qsort w dir uninit =
     (let fl = uninit\<lparr>fl_path := (case fs_realpath w dir of None \<Rightarrow> ''/'' | Some r \<Rightarrow> r)\<rparr>;
          listing = fs_listing w (fl_path fl)
      in if listing \<noteq> None \<and> files fl \<noteq> [] then None else Some (load_directory qsort listing fl))"

definition fm_start ::
  "((file_entry \<Rightarrow> file_entry \<Rightarrow> int) \<Rightarrow> file_entry list \<Rightarrow> file_entry list)
    \<Rightarrow> fs \<Rightarrow> file_list \<times> file_list \<Rightarrow> panels option" where
  "fm_start qsort w uninit =
     (case (first_load qsort w ''.'' (fst uninit), first_load qsort w ''..'' (snd uninit)) of
        (Some l, Some r) \<Rightarrow> Some \<lparr>left = l, right = r, right_active = False\<rparr> | _ \<Rightarrow> None)"

type_synonym frame = "(file_entry \<times> bool) list \<times> (file_entry \<times> bool) list"

text \<open>The keys before \<^verbatim>\<open>q\<close>, each with the file system it meets; the frames that are drawn, or \<open>None\<close>.\<close>

fun fm_loop ::
  "((file_entry \<Rightarrow> file_entry \<Rightarrow> int) \<Rightarrow> file_entry list \<Rightarrow> file_entry list)
    \<Rightarrow> int \<Rightarrow> (key \<times> fs) list \<Rightarrow> panels \<Rightarrow> frame list option" where
  "fm_loop qsort height [] p = Some []"
| "fm_loop qsort height ((k, w) # ks) p =
     (let p = press qsort height w k p
      in case redraw height p of None \<Rightarrow> None | Some f \<Rightarrow> map_option (Cons f) (fm_loop qsort height ks p))"

definition fm_main ::
  "((file_entry \<Rightarrow> file_entry \<Rightarrow> int) \<Rightarrow> file_entry list \<Rightarrow> file_entry list)
    \<Rightarrow> bool \<Rightarrow> int \<Rightarrow> fs \<Rightarrow> file_list \<times> file_list \<Rightarrow> (key \<times> fs) list \<Rightarrow> (int \<times> frame list) option" where
  "fm_main qsort has_colors height w uninit ks =
     (if \<not> has_colors then Some (1, [])
      else case fm_start qsort w uninit of
             None \<Rightarrow> None
           | Some p \<Rightarrow>
             (case redraw height p of
                None \<Rightarrow> None
              | Some f \<Rightarrow> map_option (\<lambda>fs. (0, f # fs)) (fm_loop qsort height ks p)))"

section \<open>The order is a total preorder\<close>

text \<open>The comparison as an order on keys: directories first, then the lower-cased names, lexicographically.\<close>

fun lex_le :: "nat list \<Rightarrow> nat list \<Rightarrow> bool" where
  "lex_le [] ys = True"
| "lex_le (x # xs) [] = False"
| "lex_le (x # xs) (y # ys) = (x < y \<or> x = y \<and> lex_le xs ys)"

lemma lex_le_refl: "lex_le xs xs"
  by (induction xs) auto

lemma lex_le_trans: "lex_le xs ys \<Longrightarrow> lex_le ys zs \<Longrightarrow> lex_le xs zs"
  by (induction xs ys arbitrary: zs rule: lex_le.induct) (case_tac zs; auto)+

lemma lex_le_total: "lex_le xs ys \<or> lex_le ys xs"
  by (induction xs ys rule: lex_le.induct) auto

lemma lower_pos: "c \<noteq> CHR 0x00 \<Longrightarrow> 0 < lower c"
  using of_char_eq_iff [of c "CHR 0x00", where 'a = nat] by (auto simp: lower_def Let_def)

lemma strcasecmp_le:
  "CHR 0x00 \<notin> set a \<Longrightarrow> CHR 0x00 \<notin> set b \<Longrightarrow> strcasecmp a b \<le> 0 \<longleftrightarrow> lex_le (map lower a) (map lower b)"
proof (induction a b rule: strcasecmp.induct)
  case (3 a as)
  then have "0 < lower a" by (intro lower_pos) auto
  then show ?case by simp
qed auto

definition entry_le :: "file_entry \<Rightarrow> file_entry \<Rightarrow> bool" where
  "entry_le a b \<longleftrightarrow> fe_is_dir a \<and> \<not> fe_is_dir b
     \<or> fe_is_dir a = fe_is_dir b \<and> lex_le (map lower (fe_name a)) (map lower (fe_name b))"

definition named :: "file_entry \<Rightarrow> bool" where
  "named e \<longleftrightarrow> CHR 0x00 \<notin> set (fe_name e)"

lemma compare_entries_le: "named a \<Longrightarrow> named b \<Longrightarrow> compare_entries a b \<le> 0 \<longleftrightarrow> entry_le a b"
  by (auto simp: compare_entries_def entry_le_def named_def strcasecmp_le)

text \<open>
  What the C standard promises of \<^verbatim>\<open>qsort\<close>: the same elements, in an order in which no element compares
  greater than a later one, provided the comparison is consistent on them.
\<close>

definition consistent :: "('a \<Rightarrow> 'a \<Rightarrow> int) \<Rightarrow> 'a set \<Rightarrow> bool" where
  "consistent cmp X \<longleftrightarrow> (\<forall>a\<in>X. \<forall>b\<in>X. cmp a b \<le> 0 \<or> cmp b a \<le> 0)
     \<and> (\<forall>a\<in>X. \<forall>b\<in>X. \<forall>c\<in>X. cmp a b \<le> 0 \<longrightarrow> cmp b c \<le> 0 \<longrightarrow> cmp a c \<le> 0)"

lemma consistent_mono: "consistent cmp X \<Longrightarrow> Y \<subseteq> X \<Longrightarrow> consistent cmp Y"
  unfolding consistent_def by (meson subsetD)

lemma consistent_total: "consistent cmp X \<Longrightarrow> a \<in> X \<Longrightarrow> b \<in> X \<Longrightarrow> \<not> cmp a b \<le> 0 \<Longrightarrow> cmp b a \<le> 0"
  unfolding consistent_def by meson

lemma consistent_trans:
  "consistent cmp X \<Longrightarrow> a \<in> X \<Longrightarrow> b \<in> X \<Longrightarrow> c \<in> X \<Longrightarrow> cmp a b \<le> 0 \<Longrightarrow> cmp b c \<le> 0 \<Longrightarrow> cmp a c \<le> 0"
  unfolding consistent_def by meson

definition qsort_spec :: "((file_entry \<Rightarrow> file_entry \<Rightarrow> int) \<Rightarrow> file_entry list \<Rightarrow> file_entry list) \<Rightarrow> bool" where
  "qsort_spec qsort \<longleftrightarrow> (\<forall>cmp xs. mset (qsort cmp xs) = mset xs
     \<and> (consistent cmp (set xs) \<longrightarrow> sorted_wrt (\<lambda>a b. cmp a b \<le> 0) (qsort cmp xs)))"

text \<open>One such function: insertion sort.\<close>

fun insert_by :: "('a \<Rightarrow> 'a \<Rightarrow> int) \<Rightarrow> 'a \<Rightarrow> 'a list \<Rightarrow> 'a list" where
  "insert_by cmp x [] = [x]"
| "insert_by cmp x (y # ys) = (if cmp x y \<le> 0 then x # y # ys else y # insert_by cmp x ys)"

definition insertion_qsort :: "('a \<Rightarrow> 'a \<Rightarrow> int) \<Rightarrow> 'a list \<Rightarrow> 'a list" where
  "insertion_qsort cmp xs = foldr (insert_by cmp) xs []"

lemma mset_insert_by: "mset (insert_by cmp x ys) = add_mset x (mset ys)"
  by (induction ys) auto

lemma set_insert_by [simp]: "set (insert_by cmp x ys) = insert x (set ys)"
  by (metis mset_insert_by set_mset_add_mset_insert set_mset_mset)

lemma sorted_insert_by:
  assumes "consistent cmp (insert x (set ys))" and "sorted_wrt (\<lambda>a b. cmp a b \<le> (0::int)) ys"
  shows "sorted_wrt (\<lambda>a b. cmp a b \<le> 0) (insert_by cmp x ys)"
  using assms
proof (induction ys)
  case (Cons y ys)
  note c = Cons.prems(1)
  show ?case
  proof (cases "cmp x y \<le> 0")
    case True
    have "cmp x z \<le> 0" if "z \<in> set ys" for z
      by (rule consistent_trans [OF c, of x y z]) (use True that Cons.prems(2) in simp_all)
    then show ?thesis using True Cons.prems(2) by simp
  next
    case False
    then have "cmp y x \<le> 0" by (intro consistent_total [OF c]) simp_all
    moreover have "sorted_wrt (\<lambda>a b. cmp a b \<le> 0) (insert_by cmp x ys)"
      using Cons.prems(2) by (intro Cons.IH consistent_mono [OF c]) auto
    ultimately show ?thesis using False Cons.prems(2) by simp
  qed
qed simp

lemma insertion_qsort_spec: "qsort_spec insertion_qsort"
proof -
  have m: "mset (insertion_qsort cmp xs) = mset xs" for cmp and xs :: "file_entry list"
    by (induction xs) (simp_all add: insertion_qsort_def mset_insert_by)
  have "sorted_wrt (\<lambda>a b. cmp a b \<le> 0) (insertion_qsort cmp xs)" if "consistent cmp (set xs)"
    for cmp :: "file_entry \<Rightarrow> file_entry \<Rightarrow> int" and xs
    using that
  proof (induction xs)
    case (Cons x xs)
    have s: "set (insertion_qsort cmp xs) = set xs" by (metis m set_mset_mset)
    have "sorted_wrt (\<lambda>a b. cmp a b \<le> 0) (insertion_qsort cmp xs)"
      using Cons.prems by (intro Cons.IH consistent_mono [OF Cons.prems]) auto
    then have "sorted_wrt (\<lambda>a b. cmp a b \<le> 0) (insert_by cmp x (insertion_qsort cmp xs))"
      using Cons.prems by (intro sorted_insert_by) (simp_all add: s)
    then show ?case by (simp add: insertion_qsort_def)
  qed (simp add: insertion_qsort_def)
  then show ?thesis using m by (simp add: qsort_spec_def)
qed

lemma compare_consistent:
  assumes "\<forall>e\<in>X. named e"
  shows "consistent compare_entries X"
proof -
  have "entry_le a b \<or> entry_le b a" for a b using lex_le_total by (auto simp: entry_le_def)
  moreover have "entry_le a b \<Longrightarrow> entry_le b c \<Longrightarrow> entry_le a c" for a b c
    using lex_le_trans by (auto simp: entry_le_def)
  ultimately show ?thesis
    using assms unfolding consistent_def by (simp add: compare_entries_le)
qed

section \<open>Lemmas on the operations\<close>

definition listable :: "string \<Rightarrow> string \<times> bool \<Rightarrow> bool" where
  "listable path = (\<lambda>(name, dir). name \<noteq> ''.'' \<and> length path + 1 + length name < PATH_MAX)"

lemma read_entries_take:
  "length acc \<le> MAX_FILES \<Longrightarrow> read_entries path es acc
     = take MAX_FILES (acc @ map (\<lambda>(n, d). \<lparr>fe_name = n, fe_is_dir = d\<rparr>) (filter (listable path) es))"
  by (induction path es acc rule: read_entries.induct) (auto simp: listable_def not_less)

lemma load_files:
  assumes "qsort_spec qsort"
  shows "mset (files (load_directory qsort (Some es) fl)) = mset (read_entries (fl_path fl) es [])"
    "set (files (load_directory qsort (Some es) fl)) = set (read_entries (fl_path fl) es [])"
    "length (files (load_directory qsort (Some es) fl)) = length (read_entries (fl_path fl) es [])"
proof -
  show m: "mset (files (load_directory qsort (Some es) fl)) = mset (read_entries (fl_path fl) es [])"
    using assms by (simp add: load_directory_def qsort_spec_def)
  show "set (files (load_directory qsort (Some es) fl)) = set (read_entries (fl_path fl) es [])"
    "length (files (load_directory qsort (Some es) fl)) = length (read_entries (fl_path fl) es [])"
    using m by (metis set_mset_mset, metis size_mset)
qed

lemma draw_rows_map:
  "0 \<le> i \<Longrightarrow> draw_rows fl active n i
     = Some (map (\<lambda>j. (files fl ! j, active \<and> int j = selected fl)) [nat i..<min (nat i + n) (fl_count fl)])"
proof (induction n arbitrary: i)
  case (Suc n)
  show ?case
  proof (cases "i \<ge> int (fl_count fl)")
    case False
    then have "nat (i + 1) = Suc (nat i)" "nat i < min (nat i + Suc n) (fl_count fl)" "int (nat i) = i"
      using Suc.prems by auto
    then show ?thesis using False Suc by (simp add: upt_conv_Cons)
  qed (use Suc.prems in simp)
qed simp

text \<open>The selection is on an entry and on the screen.\<close>

definition panel_ok :: "int \<Rightarrow> file_list \<Rightarrow> bool" where
  "panel_ok height fl \<longleftrightarrow> 0 \<le> start_line fl \<and> start_line fl \<le> selected fl \<and> selected fl < int (fl_count fl)
     \<and> selected fl < start_line fl + (height - 2)"

lemma move_selection_ok:
  assumes "panel_ok height fl" "3 \<le> height"
  shows "panel_ok height (move_selection delta height fl)"
  using assms by (auto simp: panel_ok_def move_selection_def Let_def)

lemma load_directory_ok:
  assumes "qsort_spec qsort" "read_entries (fl_path fl) es [] \<noteq> []" "3 \<le> height"
  shows "panel_ok height (load_directory qsort (Some es) fl)"
  using load_files(3) [OF assms(1), of es fl] assms(2,3) by (simp add: panel_ok_def load_directory_def)

lemma draw_ok:
  assumes "panel_ok height fl"
  shows "\<exists>rows. draw_filelist height active fl = Some rows
    \<and> (active \<longrightarrow> (files fl ! nat (selected fl), True) \<in> set rows)"
  using assms draw_rows_map [of "start_line fl" fl active "nat (height - 2)"]
  by (auto simp: draw_filelist_def panel_ok_def intro!: image_eqI [of _ _ "nat (selected fl)"])

lemma strrchr_append:
  assumes "CHR ''/'' \<notin> set d"
  shows "strrchr_slash (p @ ''/'' @ d) = Some (length p)"
proof -
  have "first_index (\<lambda>c. c = CHR ''/'') (rev d @ CHR ''/'' # rev p) = Some (length d)"
    using assms by (auto simp: first_index_Some_iff nth_append in_set_conv_nth rev_nth)
  then show ?thesis by (simp add: strrchr_slash_def)
qed

section \<open>Properties\<close>

text \<open>
  Claim C24. A loaded panel lists the directory: with any \<^verbatim>\<open>qsort\<close> that keeps its promise, the entries
  are the first 1024 that \<^verbatim>\<open>readdir\<close> returned, without \<^verbatim>\<open>.\<close> and without names whose joined path does
  not fit, in the order of the program's comparison: directories before files, and each group by
  lower-cased name.
\<close>

theorem load_directory_sorts:
  assumes "qsort_spec qsort" "\<forall>(name, dir)\<in>set es. CHR 0x00 \<notin> set name"
  shows "mset (files (load_directory qsort (Some es) fl))
      = mset (take MAX_FILES (map (\<lambda>(n, d). \<lparr>fe_name = n, fe_is_dir = d\<rparr>) (filter (listable (fl_path fl)) es)))
    \<and> sorted_wrt entry_le (files (load_directory qsort (Some es) fl))
    \<and> selected (load_directory qsort (Some es) fl) = 0"
proof -
  let ?r = "read_entries (fl_path fl) es []" and ?fs = "files (load_directory qsort (Some es) fl)"
  have r: "?r = take MAX_FILES (map (\<lambda>(n, d). \<lparr>fe_name = n, fe_is_dir = d\<rparr>) (filter (listable (fl_path fl)) es))"
    by (simp add: read_entries_take)
  have nm: "\<forall>e\<in>set ?r. named e"
    using assms(2) unfolding r by (fastforce simp: named_def dest!: in_set_takeD)
  have "sorted_wrt (\<lambda>a b. compare_entries a b \<le> 0) ?fs"
    using assms(1) compare_consistent [OF nm] by (simp add: qsort_spec_def load_directory_def)
  then have "sorted_wrt entry_le ?fs"
    by (rule sorted_wrt_mono_rel [rotated])
      (use nm compare_entries_le load_files(2) [OF assms(1), of es fl] in auto)
  then show ?thesis using load_files(1) [OF assms(1), of es fl] r by (simp add: load_directory_def)
qed

theorem load_directory_sorts_witness:
  "sorted_wrt entry_le (files (load_directory insertion_qsort
     (Some [(''b.c'', False), (''.'', True), (''src'', True), (''A.h'', False)])
     \<lparr>fl_path = ''/home'', files = [], selected = 0, start_line = 0\<rparr>))"
  using load_directory_sorts [OF insertion_qsort_spec,
      of "[(''b.c'', False), (''.'', True), (''src'', True), (''A.h'', False)]"
        "\<lparr>fl_path = ''/home'', files = [], selected = 0, start_line = 0\<rparr>"] by simp

text \<open>
  A set of directories in which the user stays: each can be listed and has an entry, and \<open>update_path\<close> does not lead
  out of it.
\<close>

definition explored :: "string set \<Rightarrow> fs \<Rightarrow> bool" where
  "explored D w \<longleftrightarrow> (\<forall>path\<in>D. \<exists>es. fs_listing w path = Some es \<and> read_entries path es [] \<noteq> [])
     \<and> (\<forall>fl d. fl_path fl \<in> D \<longrightarrow> fl_path (update_path (fs_realpath w) (fs_junk w) d fl) \<in> D)"

definition panels_ok :: "string set \<Rightarrow> int \<Rightarrow> panels \<Rightarrow> bool" where
  "panels_ok D height p \<longleftrightarrow> panel_ok height (left p) \<and> panel_ok height (right p) \<and> fl_path (left p) \<in> D \<and> fl_path (right p) \<in> D"

lemma path_kept [simp]: "fl_path (load_directory qsort es fl) = fl_path fl" "fl_path (move_selection delta height fl) = fl_path fl"
  by (simp_all add: load_directory_def move_selection_def Let_def split: option.split)

lemma load_explored:
  assumes "qsort_spec qsort" "3 \<le> height" "explored D w" "fl_path fl \<in> D"
  shows "panel_ok height (load_directory qsort (fs_listing w (fl_path fl)) fl)"
  using assms(3,4) load_directory_ok [OF assms(1) _ assms(2)] unfolding explored_def by metis

lemma press_ok:
  assumes "qsort_spec qsort" "3 \<le> height" "explored D w" "panels_ok D height p"
  shows "panels_ok D height (press qsort height w k p)"
proof -
  have "panel_ok height (fl_now p)" "fl_path (fl_now p) \<in> D"
    using assms(4) by (auto simp: panels_ok_def fl_now_def)
  moreover have "fl_path (update_path (fs_realpath w) (fs_junk w) d (fl_now p)) \<in> D" for d
    using assms(3) calculation(2) by (simp add: explored_def)
  ultimately have "\<exists>fl. panel_ok height fl \<and> fl_path fl \<in> D \<and> press qsort height w k p \<in> {p, p\<lparr>right_active := \<not> right_active p\<rparr>, set_now p fl}"
    using load_explored [OF assms(1-3)] move_selection_ok [OF _ assms(2)]
    by (cases k) (fastforce simp: press_def Let_def)+
  then show ?thesis using assms(4) by (auto simp: panels_ok_def set_now_def)
qed

text \<open>A frame that shows the selected entry of the active panel highlighted.\<close>

definition shows_selection :: "frame \<Rightarrow> bool" where
  "shows_selection f \<longleftrightarrow> (\<exists>e. (e, True) \<in> set (fst f) \<or> (e, True) \<in> set (snd f))"

lemma redraw_ok:
  assumes "panels_ok D height p"
  shows "\<exists>f. redraw height p = Some f \<and> shows_selection f"
  using assms draw_ok [of height "left p" "\<not> right_active p"] draw_ok [of height "right p" "right_active p"]
  by (auto simp: panels_ok_def redraw_def shows_selection_def)

lemma loop_ok:
  assumes "qsort_spec qsort" "3 \<le> height"
  shows "\<forall>(k, w)\<in>set ks. explored D w \<Longrightarrow> panels_ok D height p \<Longrightarrow>
     \<exists>fs. fm_loop qsort height ks p = Some fs \<and> length fs = length ks \<and> list_all shows_selection fs"
proof (induction ks arbitrary: p)
  case (Cons kw ks)
  obtain k w where kw: "kw = (k, w)" by (cases kw)
  have "explored D w" using Cons.prems(1) kw by simp
  then have q: "panels_ok D height (press qsort height w k p)" by (rule press_ok [OF assms _ Cons.prems(2)])
  obtain f where "redraw height (press qsort height w k p) = Some f" "shows_selection f" using redraw_ok [OF q] by blast
  moreover obtain fs where "fm_loop qsort height ks (press qsort height w k p) = Some fs" "length fs = length ks"
    "list_all shows_selection fs"
    using Cons.IH [OF _ q] Cons.prems(1) by auto
  ultimately show ?case by (simp add: kw Let_def)
qed simp


definition demo_fs :: fs where
  "demo_fs = \<lparr>fs_realpath = (\<lambda>_. Some ''/''), fs_junk = [], fs_listing = (\<lambda>_. Some [(''..'', True), (''a'', False)])\<rparr>"

definition demo_panel :: file_list where
  "demo_panel = \<lparr>fl_path = ''/tmp'', files = [\<lparr>fe_name = ''..'', fe_is_dir = True\<rparr>, \<lparr>fe_name = ''a'', fe_is_dir = False\<rparr>],
     selected = 0, start_line = 0\<rparr>"


text \<open>
  Drawing after a failed load: when a directory that is entered cannot be opened, the panel is
  left empty, and the next arrow key in that panel puts the selection and the first line at -1, so that
  the redraw reads \<^verbatim>\<open>files[-1]\<close>.
\<close>

theorem failed_load_then_arrow_reads_outside:
  assumes "panel_ok height (fl_now p)" "3 \<le> height"
    and "k = Key_up \<or> k = Key_down"
  shows "redraw height (press qsort height w k (set_now p (load_directory qsort None (fl_now p)))) = None"
proof -
  let ?fl = "load_directory qsort None (fl_now p)"
  have e: "files ?fl = []" "0 \<le> start_line ?fl"
    using assms(1) by (simp_all add: load_directory_def panel_ok_def)
  have "start_line (move_selection d height ?fl) = -1 \<and> files (move_selection d height ?fl) = []" for d
    using e by (cases "selected ?fl + d < 0") (simp_all add: move_selection_def Let_def)
  moreover have "nat (height - 2) = Suc (nat (height - 3))" using assms(2) by simp
  ultimately have d: "draw_filelist height b (move_selection d height ?fl) = None" for b d
    by (simp add: draw_filelist_def)
  have n: "fl_now (set_now p ?fl) = ?fl" by (simp add: fl_now_def set_now_def)
  obtain delta where "press qsort height w k (set_now p ?fl) = set_now (set_now p ?fl) (move_selection delta height ?fl)"
    using assms(3) by (auto simp: press_def n Let_def)
  then show ?thesis
    using d by (cases "right_active p") (simp_all add: redraw_def set_now_def split: option.split)
qed

theorem failed_load_then_arrow_reads_outside_witness:
  "redraw 10 (press insertion_qsort 10 demo_fs Key_down
     (set_now \<lparr>left = demo_panel, right = demo_panel, right_active = False\<rparr>
        (load_directory insertion_qsort None demo_panel))) = None"
  using failed_load_then_arrow_reads_outside
    [of 10 "\<lparr>left = demo_panel, right = demo_panel, right_active = False\<rparr>" Key_down insertion_qsort demo_fs]
  by (simp add: fl_now_def panel_ok_def demo_panel_def)

text \<open>
  Going down and up again: entering \<^verbatim>\<open>d\<close> and then \<^verbatim>\<open>..\<close> comes back to the same path, when
  \<^verbatim>\<open>realpath\<close> leaves the two paths as they are and the panel was not in the root. From a directory
  directly below the root \<^verbatim>\<open>..\<close> asks \<^verbatim>\<open>realpath\<close> about the uninitialised \<^verbatim>\<open>newpath\<close>: the panel goes to
  whatever path that junk resolves to, and to the root only if it resolves to nothing.
\<close>

theorem update_path_down_and_up:
  assumes "fl_path fl \<noteq> []" "d \<noteq> ''..''" "CHR ''/'' \<notin> set d" "length (fl_path fl @ ''/'' @ d) < PATH_MAX"
    and "realpath (fl_path fl @ ''/'' @ d) = Some (fl_path fl @ ''/'' @ d)" "realpath (fl_path fl) = Some (fl_path fl)"
    and "CHR ''/'' \<notin> set e" "e \<noteq> []" "fl_path fr = ''/'' @ e"
  shows "fl_path (update_path realpath junk ''..'' (update_path realpath junk d fl)) = fl_path fl
    \<and> fl_path (update_path realpath junk ''..'' fr)
        = (case realpath junk of Some r \<Rightarrow> take (PATH_MAX - 1) r | None \<Rightarrow> ''/'')"
proof
  have down: "fl_path (update_path realpath junk d fl) = fl_path fl @ ''/'' @ d"
    using assms(2,4,5) by (simp add: update_path_def)
  have ne: "fl_path fl @ ''/'' @ d \<noteq> ''/''" using assms(1) by (cases "fl_path fl") auto
  show "fl_path (update_path realpath junk ''..'' (update_path realpath junk d fl)) = fl_path fl"
    using strrchr_append [OF assms(3), of "fl_path fl"] ne assms(1,4,6)
    by (subst update_path_def) (simp add: down)
next
  show "fl_path (update_path realpath junk ''..'' fr)
        = (case realpath junk of Some r \<Rightarrow> take (PATH_MAX - 1) r | None \<Rightarrow> ''/'')"
    using strrchr_append [OF assms(7), of "[]"] assms(8,9)
    by (simp add: update_path_def split: option.splits)
qed

theorem update_path_down_and_up_witness:
  "fl_path (update_path (\<lambda>p. if p = ''junk'' then Some ''/secret'' else Some p) ''junk'' ''..''
     \<lparr>fl_path = ''/home'', files = [], selected = 0, start_line = 0\<rparr>) = ''/secret''"
  using update_path_down_and_up [of "\<lparr>fl_path = ''/home'', files = [], selected = 0, start_line = 0\<rparr>" "''src''"
      "\<lambda>p. if p = ''junk'' then Some ''/secret'' else Some p" "''home''"
      "\<lparr>fl_path = ''/home'', files = [], selected = 0, start_line = 0\<rparr>" "''junk''"]
  by simp

end
