(* ===== verification/PhoneBook.thy ===== *)
theory PhoneBook
  imports CText
begin

text \<open>
  The phone book as an array of a hundred records: \<^verbatim>\<open>hw4/hw4.c\<close> and the same program split into
  functions, \<^verbatim>\<open>hw5/func.c\<close> and \<^verbatim>\<open>hw5/hw5.c\<close>, together with the interface that this version and the
  linked list of \<^verbatim>\<open>hw6\<close> share. The input is the string still to be read; \<open>None\<close> is undefined
  behaviour: a word too long for its field, or an access behind the array.
\<close>

section \<open>The interface of a phone book\<close>

text \<open>
  An entry is a name, a second name and a number. \<open>room\<close> tells whether an addition is taken,
  \<open>removable\<close> whether a removal is safe.
\<close>

type_synonym pb_entry = "string \<times> string \<times> string"

datatype pb_cmd = Add pb_entry | Remove int

fun pb_run :: "(pb_entry \<Rightarrow> 's \<Rightarrow> 's option) \<Rightarrow> (int \<Rightarrow> 's \<Rightarrow> 's option) \<Rightarrow> pb_cmd list \<Rightarrow> 's \<Rightarrow> 's option" where
  "pb_run add del [] s = Some s"
| "pb_run add del (Add e # cs) s = Option.bind (add e s) (pb_run add del cs)"
| "pb_run add del (Remove k # cs) s = Option.bind (del k s) (pb_run add del cs)"

text \<open>The specification: a list with a capacity, entries numbered from 1.\<close>

definition remove_nth :: "nat \<Rightarrow> 'a list \<Rightarrow> 'a list" where
  "remove_nth i xs = take i xs @ drop (Suc i) xs"

fun pb_spec :: "nat option \<Rightarrow> pb_cmd list \<Rightarrow> pb_entry list \<Rightarrow> pb_entry list" where
  "pb_spec cap [] es = es"
| "pb_spec cap (Add e # cs) es =
     pb_spec cap cs (case cap of None \<Rightarrow> es @ [e] | Some n \<Rightarrow> if length es < n then es @ [e] else es)"
| "pb_spec cap (Remove k # cs) es =
     pb_spec cap cs (if 1 \<le> k \<and> k \<le> int (length es) then remove_nth (nat k - 1) es else es)"

text \<open>Every step of a sequence is within the limits under which the book is safe.\<close>

fun pb_safe :: "(pb_entry \<Rightarrow> bool) \<Rightarrow> ('s \<Rightarrow> bool) \<Rightarrow> (pb_entry \<Rightarrow> 's \<Rightarrow> 's option) \<Rightarrow> (int \<Rightarrow> 's \<Rightarrow> 's option)
    \<Rightarrow> pb_cmd list \<Rightarrow> 's \<Rightarrow> bool" where
  "pb_safe storable removable add del [] s = True"
| "pb_safe storable removable add del (Add e # cs) s =
     (storable e \<and> (\<forall>s'. add e s = Some s' \<longrightarrow> pb_safe storable removable add del cs s'))"
| "pb_safe storable removable add del (Remove k # cs) s =
     (removable s \<and> (\<forall>s'. del k s = Some s' \<longrightarrow> pb_safe storable removable add del cs s'))"

locale phone_directory =
  fixes inv :: "'s \<Rightarrow> bool" and entries :: "'s \<Rightarrow> pb_entry list"
    and add :: "pb_entry \<Rightarrow> 's \<Rightarrow> 's option" and del :: "int \<Rightarrow> 's \<Rightarrow> 's option"
    and cap :: "nat option" and storable :: "pb_entry \<Rightarrow> bool" and removable :: "'s \<Rightarrow> bool"
  assumes add_ok: "inv s \<Longrightarrow> storable e \<Longrightarrow> \<exists>s'. add e s = Some s' \<and> inv s'
        \<and> entries s' = (case cap of None \<Rightarrow> entries s @ [e] | Some n \<Rightarrow> if length (entries s) < n then entries s @ [e] else entries s)"
    and del_ok: "inv s \<Longrightarrow> removable s \<Longrightarrow> \<exists>s'. del k s = Some s' \<and> inv s'
        \<and> entries s' = (if 1 \<le> k \<and> k \<le> int (length (entries s)) then remove_nth (nat k - 1) (entries s) else entries s)"
begin

lemma run_refines:
  "inv s \<Longrightarrow> pb_safe storable removable add del cs s \<Longrightarrow>
     \<exists>s'. pb_run add del cs s = Some s' \<and> inv s' \<and> entries s' = pb_spec cap cs (entries s)"
proof (induction cs arbitrary: s)
  case (Cons c cs)
  show ?case
  proof (cases c)
    case (Add e)
    then obtain s1 where "add e s = Some s1" "inv s1" "entries s1 = (case cap of None \<Rightarrow> entries s @ [e]
        | Some n \<Rightarrow> if length (entries s) < n then entries s @ [e] else entries s)"
      using add_ok [OF Cons.prems(1), of e] Cons.prems(2) by auto
    then show ?thesis using Cons.IH [of s1] Cons.prems(2) Add by simp
  next
    case (Remove k)
    then obtain s1 where "del k s = Some s1" "inv s1"
      "entries s1 = (if 1 \<le> k \<and> k \<le> int (length (entries s)) then remove_nth (nat k - 1) (entries s) else entries s)"
      using del_ok [OF Cons.prems(1), of k] Cons.prems(2) by auto
    then show ?thesis using Cons.IH [of s1] Cons.prems(2) Remove by simp
  qed
qed simp

end

section \<open>The array\<close>

abbreviation BOOK_SIZE :: nat where "BOOK_SIZE \<equiv> 100"
abbreviation FIELD :: nat where "FIELD \<equiv> 10"

record abonent =
  ab_name :: string
  ab_second_name :: string
  ab_tel :: string

record book =
  call_book :: "abonent list"
  book_count :: nat

text \<open>\<^verbatim>\<open>while (s1[i] != '\0' || s2[i] != '\0')\<close>: \<open>None\<close> when it reads past the end of a buffer.\<close>

fun search_name :: "string \<Rightarrow> string \<Rightarrow> bool option" where
  "search_name (a # as) (b # bs) =
     (if a \<noteq> 0 \<or> b \<noteq> 0 then (if a \<noteq> b then Some False else search_name as bs) else Some True)"
| "search_name _ _ = None"

text \<open>\<^verbatim>\<open>scanf("%s", field)\<close>: at the end of the input the field stays as it is.\<close>

definition scan_field :: "string \<Rightarrow> string \<Rightarrow> (string \<times> string) option" where
  "scan_field input field =
     (case scan_s input of None \<Rightarrow> Some (field, [])
      | Some (w, rest) \<Rightarrow> map_option (\<lambda>f. (f, rest)) (store 0 (w @ [0]) field))"

text \<open>Three words into the record behind the last one, and the count.\<close>

definition put_abonent :: "pb_entry \<Rightarrow> book \<Rightarrow> book option" where
  "put_abonent = (\<lambda>(n, s, t) b.
     if book_count b \<ge> BOOK_SIZE then Some b
     else (let a = call_book b ! book_count b
           in case (store 0 (n @ [0]) (ab_name a), store 0 (s @ [0]) (ab_second_name a), store 0 (t @ [0]) (ab_tel a)) of
                (Some n', Some s', Some t') \<Rightarrow>
                  Some (b\<lparr>call_book := (call_book b)[book_count b := \<lparr>ab_name = n', ab_second_name = s', ab_tel = t'\<rparr>],
                          book_count := book_count b + 1\<rparr>)
              | _ \<Rightarrow> None))"

text \<open>\<^verbatim>\<open>addAbonent\<close> with its reads from the input; \<^verbatim>\<open>getchar()\<close> after the first two words.\<close>

definition add_abonent :: "book \<Rightarrow> string \<Rightarrow> (book \<times> string) option" where
  "add_abonent b input =
     (if book_count b \<ge> BOOK_SIZE then Some (b, input)
      else (let a = call_book b ! book_count b
            in case scan_field input (ab_name a) of None \<Rightarrow> None
               | Some (n, input) \<Rightarrow>
                 (case scan_field (tl input) (ab_second_name a) of None \<Rightarrow> None
                  | Some (s, input) \<Rightarrow>
                    (case scan_field (tl input) (ab_tel a) of None \<Rightarrow> None
                     | Some (t, input) \<Rightarrow>
                       Some (b\<lparr>call_book := (call_book b)[book_count b := \<lparr>ab_name = n, ab_second_name = s, ab_tel = t\<rparr>],
                               book_count := book_count b + 1\<rparr>, input)))))"

text \<open>The loop \<^verbatim>\<open>for (i = delete_number - 1; i < count; i++) call_book[i] = call_book[i + 1];\<close>\<close>

fun shift_down :: "abonent list \<Rightarrow> nat \<Rightarrow> nat \<Rightarrow> abonent list option" where
  "shift_down bk i 0 = Some bk"
| "shift_down bk i (Suc n) =
     (if i + 1 < length bk then shift_down (bk[i := bk ! (i + 1)]) (i + 1) n else None)"

definition delete_number :: "int \<Rightarrow> book \<Rightarrow> book option" where
  "delete_number k b =
     (if k \<le> 0 \<or> k > int (book_count b) then Some b
      else (let i = nat k - 1;
                zero = \<lparr>ab_name = replicate FIELD 0, ab_second_name = replicate FIELD 0, ab_tel = replicate FIELD 0\<rparr>
            in map_option (\<lambda>bk. b\<lparr>call_book := bk, book_count := book_count b - 1\<rparr>)
                 (shift_down ((call_book b)[i := zero]) i (book_count b - i))))"

text \<open>\<^verbatim>\<open>deleteAbonent\<close>; \<open>None\<close> also for a number that is not read or not an \<^verbatim>\<open>int\<close>.\<close>

definition delete_abonent :: "book \<Rightarrow> string \<Rightarrow> (book \<times> string) option" where
  "delete_abonent b input =
     (case scan_d input of None \<Rightarrow> None
      | Some (k, rest) \<Rightarrow> if in_int k then map_option (\<lambda>b. (b, rest)) (delete_number k b) else None)"

text \<open>The numbered lines that are printed.\<close>

definition print_abonent :: "nat \<Rightarrow> abonent \<Rightarrow> nat \<times> pb_entry" where
  "print_abonent i a = (i + 1, cstr (ab_name a), cstr (ab_second_name a), cstr (ab_tel a))"

fun find_from :: "abonent list \<Rightarrow> string \<Rightarrow> nat \<Rightarrow> (nat \<times> pb_entry) list option" where
  "find_from [] key i = Some []"
| "find_from (a # as) key i =
     (case search_name (ab_name a) key of None \<Rightarrow> None
      | Some hit \<Rightarrow> map_option (\<lambda>r. (if hit then [print_abonent i a] else []) @ r) (find_from as key (i + 1)))"

text \<open>\<^verbatim>\<open>findAbonent\<close>: \<^verbatim>\<open>scanf("%9s", find)\<close> keeps nine characters; \<^verbatim>\<open>find\<close> is indeterminate if nothing is read.\<close>

definition find_abonent :: "book \<Rightarrow> string \<Rightarrow> ((nat \<times> pb_entry) list \<times> string) option" where
  "find_abonent b input =
     (case scan_s input of None \<Rightarrow> None
      | Some (w, rest) \<Rightarrow>
        (let key = take 9 w @ replicate (FIELD - length (take 9 w)) 0
         in map_option (\<lambda>r. (r, tl (drop 9 w @ rest))) (find_from (take (book_count b) (call_book b)) key 0)))"

definition show_all :: "book \<Rightarrow> (nat \<times> pb_entry) list" where
  "show_all b = map (\<lambda>i. print_abonent i (call_book b ! i)) [0..<book_count b]"

text \<open>
  The choice that \<^verbatim>\<open>scanf("%d", &choice)\<close> leaves: a line that is not a number leaves \<^verbatim>\<open>choice\<close> and the input as they
  were, a number outside \<^verbatim>\<open>int\<close> is undefined.
\<close>

definition menu_choice :: "string \<Rightarrow> int \<Rightarrow> (int \<times> string) option" where
  "menu_choice input choice =
     (case scan_d input of None \<Rightarrow> Some (choice, input)
      | Some (k, rest) \<Rightarrow> if in_int k then Some (k, rest) else None)"

text \<open>One round of the menu: the state, the input, the lines printed, and the choice that is left in \<^verbatim>\<open>choice\<close>.\<close>

definition book_menu :: "book \<Rightarrow> string \<Rightarrow> int \<Rightarrow> (book \<times> string \<times> (nat \<times> pb_entry) list \<times> int) option" where
  "book_menu b input choice =
     (case menu_choice input choice of None \<Rightarrow> None
      | Some (choice, input) \<Rightarrow>
         if choice = 1 then map_option (\<lambda>(b, input). (b, input, [], choice)) (add_abonent b input)
         else if choice = 2 then map_option (\<lambda>(b, input). (b, input, [], choice)) (delete_abonent b input)
         else if choice = 3 then map_option (\<lambda>(r, input). (b, input, r, choice)) (find_abonent b input)
         else if choice = 4 then Some (b, input, show_all b, choice)
         else Some (b, input, [], choice))"

definition book_init :: book where
  "book_init = \<lparr>call_book = replicate BOOK_SIZE \<lparr>ab_name = replicate FIELD 0, ab_second_name = replicate FIELD 0,
     ab_tel = replicate FIELD 0\<rparr>, book_count = 0\<rparr>"

section \<open>The array implements the interface\<close>

definition field_ok :: "string \<Rightarrow> bool" where
  "field_ok f \<longleftrightarrow> length f = FIELD"

definition abonent_ok :: "abonent \<Rightarrow> bool" where
  "abonent_ok a \<longleftrightarrow> field_ok (ab_name a) \<and> field_ok (ab_second_name a) \<and> field_ok (ab_tel a)"

definition book_inv :: "book \<Rightarrow> bool" where
  "book_inv b \<longleftrightarrow> length (call_book b) = BOOK_SIZE \<and> book_count b \<le> BOOK_SIZE
     \<and> (\<forall>a\<in>set (call_book b). abonent_ok a) \<and> (\<forall>a\<in>set (take (book_count b) (call_book b)). terminated (ab_name a))"

definition entry_of :: "abonent \<Rightarrow> pb_entry" where
  "entry_of a = (cstr (ab_name a), cstr (ab_second_name a), cstr (ab_tel a))"

definition book_entries :: "book \<Rightarrow> pb_entry list" where
  "book_entries b = map entry_of (take (book_count b) (call_book b))"

definition word_ok :: "string \<Rightarrow> bool" where
  "word_ok w \<longleftrightarrow> length w < FIELD \<and> 0 \<notin> set w"

definition storable_entry :: "pb_entry \<Rightarrow> bool" where
  "storable_entry = (\<lambda>(n, s, t). word_ok n \<and> word_ok s \<and> word_ok t)"

lemma store_word:
  assumes "field_ok f" "word_ok w"
  obtains g where "store 0 (w @ [0]) f = Some g" "field_ok g" "cstr g = w" "terminated g"
proof
  show "store 0 (w @ [0]) f = Some (poke 0 (w @ [0]) f)"
    using assms by (simp add: store_def field_ok_def word_ok_def)
  show "field_ok (poke 0 (w @ [0]) f)" using assms by (simp add: field_ok_def word_ok_def)
  show "cstr (poke 0 (w @ [0]) f) = w" "terminated (poke 0 (w @ [0]) f)"
    using assms by (simp_all add: poke_def word_ok_def cstr_append_zero terminated_def)
qed

lemma put_abonent_ok:
  assumes inv: "book_inv b" and e: "storable_entry e"
  shows "\<exists>b'. put_abonent e b = Some b' \<and> book_inv b'
    \<and> book_entries b' = (if length (book_entries b) < BOOK_SIZE then book_entries b @ [e] else book_entries b)"
proof (cases "book_count b < BOOK_SIZE")
  case True
  let ?a = "call_book b ! book_count b"
  obtain n s t where nst: "e = (n, s, t)" by (cases e)
  have "?a \<in> set (call_book b)" using inv True by (simp add: book_inv_def)
  then have a: "field_ok (ab_name ?a)" "field_ok (ab_second_name ?a)" "field_ok (ab_tel ?a)"
    using inv by (auto simp: book_inv_def abonent_ok_def)
  have w: "word_ok n" "word_ok s" "word_ok t" using e nst by (simp_all add: storable_entry_def)
  obtain n' where n': "store 0 (n @ [0]) (ab_name ?a) = Some n'" "field_ok n'" "cstr n' = n" "terminated n'"
    by (rule store_word [OF a(1) w(1)])
  obtain s' where s': "store 0 (s @ [0]) (ab_second_name ?a) = Some s'" "field_ok s'" "cstr s' = s" "terminated s'"
    by (rule store_word [OF a(2) w(2)])
  obtain t' where t': "store 0 (t @ [0]) (ab_tel ?a) = Some t'" "field_ok t'" "cstr t' = t" "terminated t'"
    by (rule store_word [OF a(3) w(3)])
  let ?new = "\<lparr>ab_name = n', ab_second_name = s', ab_tel = t'\<rparr>"
  let ?b = "b\<lparr>call_book := (call_book b)[book_count b := ?new], book_count := book_count b + 1\<rparr>"
  have p: "put_abonent e b = Some ?b"
    using True nst n'(1) s'(1) t'(1) by (simp add: put_abonent_def Let_def)
  have tk: "take (book_count ?b) (call_book ?b) = take (book_count b) (call_book b) @ [?new]"
    using True inv by (simp add: book_inv_def take_Suc_conv_app_nth)
  have "book_inv ?b"
    using inv True n' s' t' tk by (auto simp: book_inv_def abonent_ok_def dest!: in_set_updateD)
  moreover have "book_entries ?b = book_entries b @ [e]"
    unfolding book_entries_def tk using n' s' t' nst by (simp add: entry_of_def)
  moreover have "length (book_entries b) = book_count b" using inv by (simp add: book_entries_def book_inv_def)
  ultimately show ?thesis using p True by auto
next
  case False
  then show ?thesis using inv by (auto simp: put_abonent_def book_entries_def book_inv_def split: prod.split)
qed

lemma shift_down_take:
  "i + n < length bk \<Longrightarrow> \<exists>bk'. shift_down bk i n = Some bk' \<and> length bk' = length bk
     \<and> take (i + n) bk' = take i bk @ take n (drop (Suc i) bk) \<and> set bk' \<subseteq> set bk"
proof (induction n arbitrary: bk i)
  case (Suc n)
  let ?b = "bk[i := bk ! (i + 1)]"
  obtain bk' where b: "shift_down ?b (i + 1) n = Some bk'" "length bk' = length bk"
    "take (i + 1 + n) bk' = take (i + 1) ?b @ take n (drop (Suc (i + 1)) ?b)" "set bk' \<subseteq> set ?b"
    using Suc.IH [of "i + 1" ?b] Suc.prems by auto
  have "take (i + 1) ?b = take i bk @ [bk ! (i + 1)]" using Suc.prems by (simp add: take_Suc_conv_app_nth)
  moreover have "take (Suc n) (drop (Suc i) bk) = bk ! (i + 1) # take n (drop (Suc (Suc i)) bk)"
    using Suc.prems by (simp add: Cons_nth_drop_Suc [symmetric])
  moreover have "set ?b \<subseteq> set bk"
    using Suc.prems set_update_subset_insert [of bk i "bk ! (i + 1)"] by auto
  ultimately show ?case using b Suc.prems by auto
qed auto
lemma shift_down_full:
  "i + n = length bk \<Longrightarrow> 0 < n \<Longrightarrow> shift_down bk i n = None"
proof (induction n arbitrary: bk i)
  case (Suc n)
  have "n = 0 \<or> shift_down (bk[i := bk ! (i + 1)]) (i + 1) n = None"
    using Suc.IH [of "i + 1" "bk[i := bk ! (i + 1)]"] Suc.prems(1) by (cases "n = 0") simp_all
  then show ?case using Suc.prems by auto
qed simp

lemma set_remove_nth: "set (remove_nth i xs) \<subseteq> set xs"
  by (auto simp: remove_nth_def dest: in_set_takeD in_set_dropD)

lemma delete_number_ok:
  assumes inv: "book_inv b" and room: "book_count b < BOOK_SIZE"
  shows "\<exists>b'. delete_number k b = Some b' \<and> book_inv b' \<and> book_entries b'
    = (if 1 \<le> k \<and> k \<le> int (length (book_entries b)) then remove_nth (nat k - 1) (book_entries b) else book_entries b)"
proof -
  have len: "length (book_entries b) = book_count b" using inv by (simp add: book_entries_def book_inv_def)
  show ?thesis
  proof (cases "1 \<le> k \<and> k \<le> int (book_count b)")
    case True
    let ?i = "nat k - 1" and ?z = "\<lparr>ab_name = replicate FIELD 0, ab_second_name = replicate FIELD 0, ab_tel = replicate FIELD 0\<rparr> :: abonent"
    let ?n = "book_count b - ?i" and ?bk = "(call_book b)[?i := ?z]"
    have i: "?i < book_count b" using True by auto
    have l: "length (call_book b) = BOOK_SIZE" using inv by (simp add: book_inv_def)
    obtain bk' where s: "shift_down ?bk ?i ?n = Some bk'" "length bk' = BOOK_SIZE"
      "take (book_count b) bk' = take ?i ?bk @ take ?n (drop (Suc ?i) ?bk)" "set bk' \<subseteq> set ?bk"
      using shift_down_take [of ?i ?n ?bk] i l room by auto
    let ?b = "b\<lparr>call_book := bk', book_count := book_count b - 1\<rparr>"
    have d: "delete_number k b = Some ?b" using True s(1) by (simp add: delete_number_def Let_def)
    have "take (book_count b - 1) bk' = take (book_count b - 1) (take (book_count b) bk')" by (simp add: min_def)
    also have "\<dots> = take ?i (call_book b) @ take (?n - 1) (drop (Suc ?i) (call_book b))"
    proof -
      obtain m where m: "book_count b = Suc (?i + m)" using i less_imp_Suc_add by blast
      have "length (take ?i ?bk) = ?i" using i l room by simp
      then have "take (?i + m) (take ?i ?bk @ take (Suc m) (drop (Suc ?i) ?bk)) = take ?i (call_book b) @ take m (drop (Suc ?i) (call_book b))"
        by (simp add: min_def)
      then show ?thesis unfolding s(3) by (simp add: m)
    qed
    also have "\<dots> = remove_nth ?i (take (book_count b) (call_book b))"
      using i by (simp add: remove_nth_def drop_take min_def)
    finally have tk: "take (book_count b - 1) bk' = remove_nth ?i (take (book_count b) (call_book b))" .
    have "set (remove_nth ?i (take (book_count b) (call_book b))) \<subseteq> set (take (book_count b) (call_book b))"
      by (rule set_remove_nth)
    moreover have "abonent_ok ?z" by (simp add: abonent_ok_def field_ok_def)
    ultimately have "book_inv ?b"
      using inv s(2,4) tk by (fastforce simp: book_inv_def dest!: in_set_updateD)
    moreover have "book_entries ?b = remove_nth ?i (book_entries b)"
      by (simp add: book_entries_def tk [simplified]) (simp add: remove_nth_def take_map drop_map)
    ultimately show ?thesis using d True len by auto
  next
    case False
    then show ?thesis using inv len by (auto simp: delete_number_def)
  qed
qed

interpretation array_book: phone_directory book_inv book_entries put_abonent delete_number "Some BOOK_SIZE"
    storable_entry "\<lambda>b. book_count b < BOOK_SIZE"
  using put_abonent_ok delete_number_ok by unfold_locales simp_all

lemma search_name_eq:
  "terminated a \<Longrightarrow> terminated b \<Longrightarrow> search_name a b = Some (cstr a = cstr b)"
  by (induction a b rule: search_name.induct) (auto simp: terminated_def cstr_Cons)

lemma find_from_hits:
  assumes "\<forall>a\<in>set as. terminated (ab_name a)" "terminated key"
  shows "find_from as key i = Some (filter (\<lambda>(j, n, s, t). n = cstr key)
    (map (\<lambda>j. print_abonent (i + j) (as ! j)) [0..<length as]))"
  using assms(1)
proof (induction as arbitrary: i)
  case (Cons a as)
  have "map (\<lambda>j. print_abonent (i + j) ((a # as) ! j)) [0..<length (a # as)]
      = print_abonent i a # map (\<lambda>j. print_abonent (Suc i + j) (as ! j)) [0..<length as]"
    unfolding length_Cons upt_conv_Cons [OF zero_less_Suc] map_Suc_upt [symmetric] by (simp add: comp_def)
  then show ?case
    using Cons search_name_eq [OF _ assms(2), of "ab_name a"] by (simp add: print_abonent_def)
qed simp

lemma book_init_inv: "book_inv book_init" "book_entries book_init = []" "book_count book_init = 0"
  by (simp_all add: book_init_def book_inv_def abonent_ok_def field_ok_def book_entries_def)

text \<open>The words of an added entry on the input, one per line.\<close>

definition no_space :: "string \<Rightarrow> bool" where
  "no_space w \<longleftrightarrow> w \<noteq> [] \<and> (\<forall>c\<in>set w. \<not> is_space c)"

lemma scan_line:
  assumes "no_space w"
  shows "scan_s (w @ CHR 0x0A # rest) = Some (w, CHR 0x0A # rest)"
proof -
  have nl: "is_space (CHR 0x0A)" by (simp add: is_space_def)
  have "dropWhile is_space (w @ CHR 0x0A # rest) = w @ CHR 0x0A # rest"
    using assms by (cases w) (auto simp: no_space_def)
  moreover have "takeWhile (\<lambda>c. \<not> is_space c) (w @ CHR 0x0A # rest) = w"
    using assms nl by (simp add: takeWhile_append no_space_def)
  ultimately show ?thesis using assms by (simp add: scan_s_def no_space_def Let_def)
qed

lemma add_abonent_reads:
  assumes "no_space n" "no_space s" "no_space t" and "book_count b < BOOK_SIZE"
  shows "add_abonent b (n @ CHR 0x0A # s @ CHR 0x0A # t @ CHR 0x0A # rest)
    = map_option (\<lambda>b. (b, CHR 0x0A # rest)) (put_abonent (n, s, t) b)"
  using assms by (simp add: add_abonent_def scan_field_def scan_line put_abonent_def Let_def split: option.splits)

section \<open>Properties\<close>

text \<open>
  Claim C26. The array implements the phone book: from a well-formed array, any sequence of additions of
  words that fit their fields and of removals, none of them on a full array, runs without undefined
  behaviour and ends with the entries of the list specification with capacity 100: additions go to the
  end, a removal takes out exactly the entry with that number, and wrong numbers change nothing. The
  three words of an addition are read from three lines of the input.
\<close>

theorem array_book_refines:
  assumes "book_inv b" "pb_safe storable_entry (\<lambda>b. book_count b < BOOK_SIZE) put_abonent delete_number cs b"
    and "no_space n" "no_space s" "no_space t" "book_count b < BOOK_SIZE"
  shows "(\<exists>b'. pb_run put_abonent delete_number cs b = Some b' \<and> book_inv b'
      \<and> book_entries b' = pb_spec (Some BOOK_SIZE) cs (book_entries b))
    \<and> add_abonent b (n @ CHR 0x0A # s @ CHR 0x0A # t @ CHR 0x0A # rest)
      = map_option (\<lambda>b. (b, CHR 0x0A # rest)) (put_abonent (n, s, t) b)"
  using array_book.run_refines [OF assms(1,2)] add_abonent_reads [OF assms(3-6)] by blast

theorem array_book_refines_witness:
  "\<exists>b. pb_run put_abonent delete_number [Add (''Ann'', ''Lee'', ''123''), Remove 7] book_init = Some b
     \<and> book_entries b = [(''Ann'', ''Lee'', ''123'')]"
proof -
  have ok: "storable_entry (''Ann'', ''Lee'', ''123'')" by (simp add: storable_entry_def word_ok_def zero_char_def)
  have "book_count b' < BOOK_SIZE" if "put_abonent (''Ann'', ''Lee'', ''123'') book_init = Some b'" for b'
  proof -
    have "book_inv b'" "length (book_entries b') = 1"
      using put_abonent_ok [OF book_init_inv(1) ok] that book_init_inv(2) by auto
    then show ?thesis by (simp add: book_entries_def book_inv_def)
  qed
  then have "pb_safe storable_entry (\<lambda>b. book_count b < BOOK_SIZE) put_abonent delete_number [Add (''Ann'', ''Lee'', ''123''), Remove 7] book_init" using ok by simp
  moreover have "no_space ''Ann''" by (simp add: no_space_def is_space_def)
  moreover have "book_count book_init < BOOK_SIZE" using book_init_inv(3) by simp
  ultimately have "\<exists>b. pb_run put_abonent delete_number [Add (''Ann'', ''Lee'', ''123''), Remove 7] book_init = Some b
    \<and> book_inv b \<and> book_entries b = pb_spec (Some BOOK_SIZE) [Add (''Ann'', ''Lee'', ''123''), Remove 7] (book_entries book_init)"
    using array_book_refines [OF book_init_inv(1), of _ "''Ann''" "''Ann''" "''Ann''"] by blast
  then obtain b where "pb_run put_abonent delete_number [Add (''Ann'', ''Lee'', ''123''), Remove 7] book_init = Some b"
    "book_entries b = pb_spec (Some BOOK_SIZE) [Add (''Ann'', ''Lee'', ''123''), Remove 7] (book_entries book_init)"
    by blast
  then show ?thesis by (intro exI [of _ b]) (simp add: book_init_inv(2))
qed

text \<open>
  Searching: on a well-formed array \<^verbatim>\<open>findAbonent\<close> never reads outside a name, and for a word
  of at most nine characters it prints exactly the entries whose name is that word, each with its number
  in the order of the book. Removing any entry of a full book, on the other hand, copies
  \<^verbatim>\<open>call_book[100]\<close>, which is outside the array.
\<close>

theorem array_book_find_and_full_delete:
  assumes "book_inv b" "no_space w" "word_ok w"
  shows "find_abonent b (w @ CHR 0x0A # rest)
      = Some (filter (\<lambda>(i, n, s, t). n = w) (show_all b), rest)
    \<and> (book_count b = BOOK_SIZE \<longrightarrow> 1 \<le> k \<longrightarrow> k \<le> 100 \<longrightarrow> delete_number k b = None)"
proof
  let ?key = "w @ replicate (FIELD - length w) 0"
  have key: "terminated ?key" "cstr ?key = w"
    using assms(3) cstr_pad [of w "FIELD - length w" "[]"] by (auto simp: terminated_def word_ok_def)
  have l: "length (take (book_count b) (call_book b)) = book_count b" using assms(1) by (simp add: book_inv_def)
  have "map (\<lambda>j. print_abonent j (take (book_count b) (call_book b) ! j)) [0..<book_count b] = show_all b"
    by (simp add: show_all_def)
  moreover have "take 9 w = w" "drop 9 w = []" using assms(3) by (simp_all add: word_ok_def)
  ultimately show "find_abonent b (w @ CHR 0x0A # rest) = Some (filter (\<lambda>(i, n, s, t). n = w) (show_all b), rest)"
    using find_from_hits [of "take (book_count b) (call_book b)" ?key 0] assms(1) key scan_line [OF assms(2), of rest]
    by (simp add: find_abonent_def book_inv_def l)
next
  show "book_count b = BOOK_SIZE \<longrightarrow> 1 \<le> k \<longrightarrow> k \<le> 100 \<longrightarrow> delete_number k b = None"
    using assms(1) by (auto simp: delete_number_def book_inv_def Let_def shift_down_full simp del: shift_down.simps)
qed

theorem array_book_find_and_full_delete_witness:
  "find_abonent book_init (''Bob'' @ CHR 0x0A # []) = Some ([], [])"
  using array_book_find_and_full_delete [OF book_init_inv(1), of "''Bob''" "[]"] book_init_inv(3)
  by (simp add: no_space_def word_ok_def is_space_def zero_char_def show_all_def)

end
