(* ===== verification/PhoneList.thy ===== *)
theory PhoneList
  imports PhoneBook
begin

text \<open>
  The phone book as a doubly linked list, \<^verbatim>\<open>hw6/struct.c\<close> and \<^verbatim>\<open>hw6/hw6.c\<close>: the nodes live in a heap,
  a map from addresses; \<^verbatim>\<open>NULL\<close> is \<open>None\<close>. Reading or writing through an address that is not allocated
  is undefined behaviour, and so are the loops that follow \<^verbatim>\<open>next\<close> on a cyclic list, which do not
  end: both are \<open>None\<close>. The list implements the same interface as the array, without its limit.
\<close>

type_synonym addr = nat

record node =
  nd_data :: abonent
  nd_prev :: "addr option"
  nd_next :: "addr option"

type_synonym heap = "addr \<rightharpoonup> node"

text \<open>\<open>brk\<close> is where the next \<^verbatim>\<open>malloc\<close> that succeeds puts its block.\<close>

record plist =
  heap :: heap
  head :: "addr option"
  brk :: addr

definition plist_init :: plist where
  "plist_init = \<lparr>heap = Map.empty, head = None, brk = 0\<rparr>"

section \<open>Pointers\<close>

definition set_next :: "addr \<Rightarrow> addr option \<Rightarrow> heap \<Rightarrow> heap option" where
  "set_next a q h = map_option (\<lambda>n. h(a \<mapsto> n\<lparr>nd_next := q\<rparr>)) (h a)"

definition set_prev :: "addr \<Rightarrow> addr option \<Rightarrow> heap \<Rightarrow> heap option" where
  "set_prev a q h = map_option (\<lambda>n. h(a \<mapsto> n\<lparr>nd_prev := q\<rparr>)) (h a)"

text \<open>\<^verbatim>\<open>if (q != NULL) q->next = r;\<close> and the same for \<^verbatim>\<open>prev\<close>.\<close>

definition set_next_if :: "addr option \<Rightarrow> addr option \<Rightarrow> heap \<Rightarrow> heap option" where
  "set_next_if q r h = (case q of None \<Rightarrow> Some h | Some a \<Rightarrow> set_next a r h)"

definition set_prev_if :: "addr option \<Rightarrow> addr option \<Rightarrow> heap \<Rightarrow> heap option" where
  "set_prev_if q r h = (case q of None \<Rightarrow> Some h | Some a \<Rightarrow> set_prev a r h)"

section \<open>Operations\<close>

text \<open>\<^verbatim>\<open>scanf("%9s", field)\<close>: nine characters at most; the rest of the word stays in the input.\<close>

definition scan_field9 :: "string \<Rightarrow> string \<Rightarrow> string \<times> string" where
  "scan_field9 input field =
     (case scan_s input of None \<Rightarrow> (field, [])
      | Some (w, rest) \<Rightarrow> (poke 0 (take 9 w @ [0]) field, drop 9 w @ rest))"

text \<open>The node \<^verbatim>\<open>CreateNode\<close> fills: \<open>junk\<close> is the record in the block that \<^verbatim>\<open>malloc\<close> returned.\<close>

definition create_node :: "string \<Rightarrow> abonent \<Rightarrow> node \<times> string" where
  "create_node input junk =
     (let (n, input) = scan_field9 input (ab_name junk);
          (s, input) = scan_field9 input (ab_second_name junk);
          (t, input) = scan_field9 input (ab_tel junk)
      in (\<lparr>nd_data = \<lparr>ab_name = n, ab_second_name = s, ab_tel = t\<rparr>, nd_prev = None, nd_next = None\<rparr>, input))"

partial_function (option) last_from :: "heap \<Rightarrow> addr \<Rightarrow> addr option" where
  "last_from h a = (case h a of None \<Rightarrow> None
     | Some n \<Rightarrow> (case nd_next n of None \<Rightarrow> Some a | Some b \<Rightarrow> last_from h b))"

text \<open>\<^verbatim>\<open>Append\<close> for the node that was created, at the address it got.\<close>

definition link_node :: "node \<Rightarrow> plist \<Rightarrow> plist option" where
  "link_node n l =
     (let a = brk l; h = (heap l)(a \<mapsto> n); l = l\<lparr>brk := a + 1\<rparr>
      in case head l of
           None \<Rightarrow> Some (l\<lparr>heap := h, head := Some a\<rparr>)
         | Some b \<Rightarrow>
           (case last_from h b of None \<Rightarrow> None
            | Some last_node \<Rightarrow>
              (case set_next last_node (Some a) h of None \<Rightarrow> None
               | Some h \<Rightarrow> (case set_prev a (Some last_node) h of None \<Rightarrow> None
                            | Some h \<Rightarrow> Some (l\<lparr>heap := h\<rparr>)))))"

definition append_abonent :: "plist \<Rightarrow> string \<Rightarrow> abonent \<Rightarrow> (plist \<times> string) option" where
  "append_abonent l input junk =
     (let (n, rest) = create_node input junk in map_option (\<lambda>l. (l, rest)) (link_node n l))"

text \<open>\<^verbatim>\<open>while (current != NULL && count < index)\<close>.\<close>

partial_function (option) seek :: "heap \<Rightarrow> addr option \<Rightarrow> int \<Rightarrow> int \<Rightarrow> addr option option" where
  "seek h current count index =
     (case current of None \<Rightarrow> Some None
      | Some a \<Rightarrow>
        if count < index
        then (case h a of None \<Rightarrow> None | Some n \<Rightarrow> seek h (nd_next n) (count + 1) index)
        else Some (Some a))"

definition unlink_node :: "addr \<Rightarrow> plist \<Rightarrow> plist option" where
  "unlink_node a l =
     (case heap l a of None \<Rightarrow> None
      | Some n \<Rightarrow>
        (if head l = Some a
         then map_option (\<lambda>h. l\<lparr>heap := h(a := None), head := nd_next n\<rparr>) (set_prev_if (nd_next n) None (heap l))
         else (case set_next_if (nd_prev n) (nd_next n) (heap l) of None \<Rightarrow> None
               | Some h \<Rightarrow> map_option (\<lambda>h. l\<lparr>heap := h(a := None)\<rparr>) (set_prev_if (nd_next n) (nd_prev n) h))))"

definition delete_node :: "int \<Rightarrow> plist \<Rightarrow> plist option" where
  "delete_node index l =
     (if head l = None \<or> index \<le> 0 then Some l
      else (case seek (heap l) (head l) 1 index of None \<Rightarrow> None
            | Some None \<Rightarrow> Some l
            | Some (Some a) \<Rightarrow> unlink_node a l))"

text \<open>\<^verbatim>\<open>ShowAll\<close> and \<^verbatim>\<open>SearchByName\<close>: the numbered lines they print.\<close>

partial_function (option) show_from :: "heap \<Rightarrow> addr option \<Rightarrow> nat \<Rightarrow> (nat \<times> pb_entry) list option" where
  "show_from h current i =
     (case current of None \<Rightarrow> Some []
      | Some a \<Rightarrow> (case h a of None \<Rightarrow> None
         | Some n \<Rightarrow> Option.bind (show_from h (nd_next n) (i + 1)) (\<lambda>r. Some ((i, entry_of (nd_data n)) # r))))"

partial_function (option) search_from :: "heap \<Rightarrow> addr option \<Rightarrow> string \<Rightarrow> nat \<Rightarrow> (nat \<times> pb_entry) list option" where
  "search_from h current key i =
     (case current of None \<Rightarrow> Some []
      | Some a \<Rightarrow> (case h a of None \<Rightarrow> None
         | Some n \<Rightarrow> Option.bind (search_from h (nd_next n) key (i + 1))
             (\<lambda>r. Some (if cstr (ab_name (nd_data n)) = key then (i, entry_of (nd_data n)) # r else r))))"

definition show_list :: "plist \<Rightarrow> (nat \<times> pb_entry) list option" where
  "show_list l = show_from (heap l) (head l) 1"

definition search_by_name :: "plist \<Rightarrow> string \<Rightarrow> (nat \<times> pb_entry) list option" where
  "search_by_name l key = search_from (heap l) (head l) key 1"

partial_function (option) free_from :: "heap \<Rightarrow> addr option \<Rightarrow> heap option" where
  "free_from h current =
     (case current of None \<Rightarrow> Some h
      | Some a \<Rightarrow> (case h a of None \<Rightarrow> None | Some n \<Rightarrow> free_from (h(a := None)) (nd_next n)))"

definition exit_program :: "plist \<Rightarrow> plist option" where
  "exit_program l = map_option (\<lambda>h. l\<lparr>heap := h, head := None\<rparr>) (free_from (heap l) (head l))"

section \<open>The shape of the list\<close>

definition at :: "addr list \<Rightarrow> nat \<Rightarrow> addr option" where
  "at xs i = (if i < length xs then Some (xs ! i) else None)"

text \<open>The addresses \<open>xs\<close> are the whole heap, linked in both directions.\<close>

definition linked :: "plist \<Rightarrow> addr list \<Rightarrow> bool" where
  "linked l xs \<longleftrightarrow> distinct xs \<and> dom (heap l) = set xs \<and> head l = at xs 0 \<and> (\<forall>x\<in>set xs. x < brk l)
     \<and> (\<forall>i<length xs. \<exists>n. heap l (xs ! i) = Some n \<and> nd_next n = at xs (i + 1)
          \<and> nd_prev n = (if i = 0 then None else Some (xs ! (i - 1))))"

definition data_of :: "plist \<Rightarrow> addr list \<Rightarrow> pb_entry list" where
  "data_of l xs = map (\<lambda>a. entry_of (nd_data (the (heap l a)))) xs"

lemma length_data_of [simp]: "length (data_of l xs) = length xs"
  by (simp add: data_of_def)

lemma linkedD:
  assumes "linked l xs" "i < length xs"
  obtains n where "heap l (xs ! i) = Some n" "nd_next n = at xs (i + 1)"
    "nd_prev n = (if i = 0 then None else Some (xs ! (i - 1)))"
  using assms by (auto simp: linked_def)

text \<open>The walks along \<^verbatim>\<open>next\<close>, from position \<open>i\<close>.\<close>

lemma show_linked:
  assumes "linked l xs" "i \<le> length xs"
  shows "show_from (heap l) (at xs i) (i + 1) = Some (map (\<lambda>j. (j + 1, data_of l xs ! j)) [i..<length xs])"
  using assms(2)
proof (induction i rule: inc_induct)
  case base
  then show ?case by (simp add: at_def show_from.simps)
next
  case (step i)
  obtain n where n: "heap l (xs ! i) = Some n" "nd_next n = at xs (i + 1)" using linkedD [OF assms(1) step(2)] .
  have a: "at xs i = Some (xs ! i)" using step(2) by (simp add: at_def)
  have d: "data_of l xs ! i = entry_of (nd_data n)" using step(2) n(1) by (simp add: data_of_def)
  show ?case
    unfolding a using step(2,3) n d by (subst show_from.simps) (simp add: upt_conv_Cons)
qed

lemma search_linked:
  assumes "linked l xs" "i \<le> length xs"
  shows "search_from (heap l) (at xs i) key (i + 1)
    = Some (filter (\<lambda>(j, e). fst e = key) (map (\<lambda>j. (j + 1, data_of l xs ! j)) [i..<length xs]))"
  using assms(2)
proof (induction i rule: inc_induct)
  case base
  then show ?case by (simp add: at_def search_from.simps)
next
  case (step i)
  obtain n where n: "heap l (xs ! i) = Some n" "nd_next n = at xs (i + 1)" using linkedD [OF assms(1) step(2)] .
  have a: "at xs i = Some (xs ! i)" using step(2) by (simp add: at_def)
  have d: "data_of l xs ! i = entry_of (nd_data n)" using step(2) n(1) by (simp add: data_of_def)
  show ?case
    unfolding a using step(2,3) n d by (subst search_from.simps) (simp add: upt_conv_Cons entry_of_def)
qed

lemma seek_linked:
  assumes "linked l xs" "i \<le> length xs" "int i < k"
  shows "seek (heap l) (at xs i) (int i + 1) k = Some (at xs (nat k - 1))"
  using assms(2,3)
proof (induction i rule: inc_induct)
  case base
  then have "\<not> nat k - 1 < length xs" by linarith
  then show ?case by (simp add: at_def seek.simps)
next
  case (step i)
  obtain n where n: "heap l (xs ! i) = Some n" "nd_next n = at xs (i + 1)" using linkedD [OF assms(1) step(2)] .
  have a: "at xs i = Some (xs ! i)" using step(2) by (simp add: at_def)
  show ?case
  proof (cases "int i + 1 < k")
    case True
    then show ?thesis unfolding a using step(3) n by (subst seek.simps) (simp add: add.commute)
  next
    case False
    then have "nat k - 1 = i" using step(4) by linarith
    then show ?thesis unfolding a using False step(2) by (subst seek.simps) (simp add: at_def)
  qed
qed

lemma last_linked:
  assumes "linked l xs" "i < length xs" "h = (heap l)(brk l \<mapsto> m)"
  shows "last_from h (xs ! i) = Some (last xs)"
proof -
  have "i \<le> length xs - 1" using assms(2) by simp
  then show ?thesis
  proof (induction i rule: inc_induct)
    case base
    have l: "length xs - 1 < length xs" "xs \<noteq> []" using assms(2) by auto
    obtain n where n: "heap l (xs ! (length xs - 1)) = Some n" "nd_next n = at xs (length xs - 1 + 1)"
      using linkedD [OF assms(1) l(1)] .
    have "xs ! (length xs - 1) \<noteq> brk l" using assms(1) nth_mem [OF l(1)] by (auto simp: linked_def)
    then show ?case using n l assms(3) by (subst last_from.simps) (auto simp: at_def last_conv_nth)
  next
    case (step i)
    then have i: "i < length xs" "Suc i < length xs" by auto
    obtain n where n: "heap l (xs ! i) = Some n" "nd_next n = at xs (i + 1)" using linkedD [OF assms(1) i(1)] .
    have "xs ! i \<noteq> brk l" using assms(1) nth_mem [OF i(1)] by (auto simp: linked_def)
    then have "h (xs ! i) = Some n" using n(1) assms(3) by simp
    then show ?case using n(2) i(2) step(3) by (subst last_from.simps) (simp add: at_def)
  qed
qed
section \<open>Linking and unlinking\<close>

lemma link_node_linked:
  assumes "linked l xs" "nd_prev n = None" "nd_next n = None"
  shows "\<exists>l'. link_node n l = Some l' \<and> linked l' (xs @ [brk l])
    \<and> data_of l' (xs @ [brk l]) = data_of l xs @ [entry_of (nd_data n)]"
proof (cases "xs = []")
  case True
  then show ?thesis
    using assms by (auto simp: linked_def link_node_def at_def data_of_def Let_def)
next
  case False
  let ?a = "brk l" and ?h = "(heap l)(brk l \<mapsto> n)" and ?k = "length xs - 1"
  have k: "?k < length xs" "last xs = xs ! ?k" using False by (simp_all add: last_conv_nth)
  have fresh: "?a \<notin> set xs" using assms(1) by (auto simp: linked_def)
  obtain m where m: "heap l (xs ! ?k) = Some m" "nd_next m = at xs (?k + 1)"
    "nd_prev m = (if ?k = 0 then None else Some (xs ! (?k - 1)))"
    using linkedD [OF assms(1) k(1)] .
  have ne: "xs ! ?k \<noteq> ?a" using fresh nth_mem [OF k(1)] by metis
  have hd: "head l = Some (xs ! 0)" using assms(1) False by (simp add: linked_def at_def)
  have la: "last_from ?h (xs ! 0) = Some (xs ! ?k)"
    using last_linked [OF assms(1) _ refl, of 0 n] False k(2) by simp
  let ?h' = "(?h(xs ! ?k \<mapsto> m\<lparr>nd_next := Some ?a\<rparr>))(?a \<mapsto> n\<lparr>nd_prev := Some (xs ! ?k)\<rparr>)"
  let ?l = "l\<lparr>heap := ?h', brk := ?a + 1\<rparr>"
  have r: "link_node n l = Some ?l"
    using hd la m(1) ne by (simp add: link_node_def set_next_def set_prev_def Let_def)
  have old: "?h' (xs ! i) = (if i = ?k then Some (m\<lparr>nd_next := Some ?a\<rparr>) else heap l (xs ! i))" if "i < length xs" for i
  proof -
    have "xs ! i \<noteq> ?a" using fresh nth_mem [OF that] by metis
    moreover have "xs ! i = xs ! ?k \<longleftrightarrow> i = ?k"
      using assms(1) that k(1) by (simp add: linked_def nth_eq_iff_index_eq)
    ultimately show ?thesis by simp
  qed
  have "\<exists>n'. ?h' ((xs @ [?a]) ! i) = Some n' \<and> nd_next n' = at (xs @ [?a]) (i + 1)
      \<and> nd_prev n' = (if i = 0 then None else Some ((xs @ [?a]) ! (i - 1)))" if "i < Suc (length xs)" for i
  proof (cases "i = length xs")
    case True
    then show ?thesis using False assms(3) by (auto simp: at_def nth_append)
  next
    case i: False
    then have il: "i < length xs" using that by simp
    obtain ni where ni: "heap l (xs ! i) = Some ni" "nd_next ni = at xs (i + 1)"
      "nd_prev ni = (if i = 0 then None else Some (xs ! (i - 1)))"
      using linkedD [OF assms(1) il] .
    show ?thesis
    proof (cases "i = ?k")
      case True
      then show ?thesis using old [OF il] il m(3) by (auto simp: at_def nth_append)
    next
      case ik: False
      then have "Suc i < length xs" using il by simp
      then show ?thesis using old [OF il] ik il ni by (auto simp: at_def nth_append)
    qed
  qed
  moreover have "dom ?h' = set (xs @ [?a])" using assms(1) nth_mem [OF k(1)] by (auto simp: linked_def)
  ultimately have "linked ?l (xs @ [?a])"
    using assms(1) fresh hd False by (auto simp: linked_def at_def nth_append less_Suc_eq)
  moreover have "data_of ?l (xs @ [?a]) = data_of l xs @ [entry_of (nd_data n)]"
  proof -
    have "nd_data (the (?h' x)) = nd_data (the (heap l x))" if "x \<in> set xs" for x
      using that fresh m(1) by auto
    then show ?thesis by (simp add: data_of_def)
  qed
  ultimately show ?thesis using r by blast
qed

lemma nth_remove_nth:
  "i < length xs \<Longrightarrow> j < length xs - 1 \<Longrightarrow> remove_nth i xs ! j = (if j < i then xs ! j else xs ! (j + 1))"
  by (simp add: remove_nth_def nth_append)

lemma length_remove_nth: "i < length xs \<Longrightarrow> length (remove_nth i xs) = length xs - 1"
  by (simp add: remove_nth_def)

text \<open>The heap after unlinking position \<open>i\<close>, node by node.\<close>

lemma unlink_node_heap:
  assumes "linked l xs" "i < length xs"
  shows "\<exists>l'. unlink_node (xs ! i) l = Some l' \<and> brk l' = brk l
    \<and> head l' = (if i = 0 then at xs 1 else head l)
    \<and> heap l' (xs ! i) = None
    \<and> (\<forall>x. x \<notin> set xs \<longrightarrow> heap l' x = None)
    \<and> (\<forall>j<length xs. j \<noteq> i \<longrightarrow> (\<exists>n n'. heap l (xs ! j) = Some n \<and> heap l' (xs ! j) = Some n' \<and> nd_data n' = nd_data n
          \<and> nd_next n' = (if j + 1 = i then at xs (i + 1) else nd_next n)
          \<and> nd_prev n' = (if j = i + 1 then (if i = 0 then None else Some (xs ! (i - 1))) else nd_prev n)))"
proof -
  obtain n where n: "heap l (xs ! i) = Some n" "nd_next n = at xs (i + 1)"
    "nd_prev n = (if i = 0 then None else Some (xs ! (i - 1)))"
    using linkedD [OF assms] .
  have idx: "xs ! j = xs ! k \<longleftrightarrow> j = k" if "j < length xs" "k < length xs" for j k
    using assms(1) that by (simp add: linked_def nth_eq_iff_index_eq)
  have hd: "head l = Some (xs ! 0)" using assms by (simp add: linked_def at_def split: if_splits)
  have out: "heap l x = None" if "x \<notin> set xs" for x using assms(1) that by (auto simp: linked_def dom_def)
  have some: "\<exists>m. heap l (xs ! j) = Some m" if "j < length xs" for j using linkedD [OF assms(1) that] by blast
  show ?thesis
  proof (cases "i = 0")
    case True
    show ?thesis
    proof (cases "1 < length xs")
      case one: True
      obtain m where m: "heap l (xs ! 1) = Some m" using some [OF one] ..
      have xs: "xs \<noteq> []" using one by auto
      let ?h = "((heap l)(xs ! 1 \<mapsto> m\<lparr>nd_prev := None\<rparr>))(xs ! 0 := None)"
      have u: "unlink_node (xs ! i) l = Some (l\<lparr>heap := ?h, head := Some (xs ! 1)\<rparr>)"
        using True n(1,2) hd one m by (simp add: unlink_node_def set_prev_if_def set_prev_def at_def)
      have "\<exists>n n'. heap l (xs ! j) = Some n \<and> ?h (xs ! j) = Some n' \<and> nd_data n' = nd_data n \<and> nd_next n' = nd_next n
          \<and> nd_prev n' = (if j = 1 then None else nd_prev n)" if "j < length xs" "j \<noteq> 0" for j
        using some [OF that(1)] m idx [of j 1] idx [of j 0] that one xs by auto
      then show ?thesis unfolding u using True one out by (auto simp: at_def)
    next
      case False
      then have "length xs = 1" using assms(2) True by linarith
      then show ?thesis
        using True n(1,2) hd out by (auto simp: unlink_node_def set_prev_if_def at_def)
    qed
  next
    case False
    have "0 < length xs" using assms(2) by linarith
    then have p: "i - 1 < length xs" "xs ! 0 \<noteq> xs ! i" using False assms(2) idx [OF _ assms(2), of 0] by auto
    obtain q where q: "heap l (xs ! (i - 1)) = Some q" using some [OF p(1)] ..
    let ?h1 = "(heap l)(xs ! (i - 1) \<mapsto> q\<lparr>nd_next := at xs (i + 1)\<rparr>)"
    have h1: "set_next_if (nd_prev n) (nd_next n) (heap l) = Some ?h1"
      using False n(2,3) q by (simp add: set_next_if_def set_next_def)
    show ?thesis
    proof (cases "i + 1 < length xs")
      case True
      obtain m where m: "heap l (xs ! (i + 1)) = Some m" using some [OF True] ..
      have ne: "xs ! (i + 1) \<noteq> xs ! (i - 1)" using idx [OF True p(1)] by simp
      let ?h = "(?h1(xs ! (i + 1) \<mapsto> m\<lparr>nd_prev := Some (xs ! (i - 1))\<rparr>))(xs ! i := None)"
      have u: "unlink_node (xs ! i) l = Some (l\<lparr>heap := ?h\<rparr>)"
        using False n hd p(2) h1 True m ne by (simp add: unlink_node_def set_prev_if_def set_prev_def at_def)
      have "\<exists>n n'. heap l (xs ! j) = Some n \<and> ?h (xs ! j) = Some n' \<and> nd_data n' = nd_data n
          \<and> nd_next n' = (if j + 1 = i then at xs (i + 1) else nd_next n)
          \<and> nd_prev n' = (if j = i + 1 then Some (xs ! (i - 1)) else nd_prev n)" if "j < length xs" "j \<noteq> i" for j
        using some [OF that(1)] m q idx [of j "i + 1"] idx [of j "i - 1"] idx [of j i] that True assms(2) p(1) False ne by auto
      then show ?thesis unfolding u using False out True by auto
    next
      case last: False
      let ?h = "?h1(xs ! i := None)"
      have u: "unlink_node (xs ! i) l = Some (l\<lparr>heap := ?h\<rparr>)"
        using False n hd p(2) h1 last by (simp add: unlink_node_def set_prev_if_def at_def)
      have "\<exists>n n'. heap l (xs ! j) = Some n \<and> ?h (xs ! j) = Some n' \<and> nd_data n' = nd_data n
          \<and> nd_next n' = (if j + 1 = i then at xs (i + 1) else nd_next n) \<and> nd_prev n' = nd_prev n" if "j < length xs" "j \<noteq> i" for j
        using some [OF that(1)] q idx [of j "i - 1"] idx [of j i] that assms(2) p(1) False by auto
      then show ?thesis unfolding u using False out last assms(2) by auto
    qed
  qed
qed

lemma unlink_node_linked:
  assumes "linked l xs" "i < length xs"
  shows "\<exists>l'. unlink_node (xs ! i) l = Some l' \<and> linked l' (remove_nth i xs)
    \<and> data_of l' (remove_nth i xs) = remove_nth i (data_of l xs)"
proof -
  from unlink_node_heap [OF assms] obtain l' where u: "unlink_node (xs ! i) l = Some l'" "brk l' = brk l"
    "head l' = (if i = 0 then at xs 1 else head l)" "heap l' (xs ! i) = None" "\<forall>x. x \<notin> set xs \<longrightarrow> heap l' x = None"
    and nodes: "\<forall>j<length xs. j \<noteq> i \<longrightarrow> (\<exists>n n'. heap l (xs ! j) = Some n \<and> heap l' (xs ! j) = Some n' \<and> nd_data n' = nd_data n
          \<and> nd_next n' = (if j + 1 = i then at xs (i + 1) else nd_next n)
          \<and> nd_prev n' = (if j = i + 1 then (if i = 0 then None else Some (xs ! (i - 1))) else nd_prev n))"
    by blast
  let ?ys = "remove_nth i xs"
  have len: "length ?ys = length xs - 1" by (rule length_remove_nth [OF assms(2)])
  have at_ys: "at ?ys k = (if k < i then at xs k else at xs (k + 1))" for k
    using assms(2) len nth_remove_nth [OF assms(2), of k] by (auto simp: at_def)
  define pos where "pos j = (if j < i then j else j + 1)" for j
  have pos: "pos j < length xs" "pos j \<noteq> i" "?ys ! j = xs ! pos j" if "j < length ?ys" for j
    using that len nth_remove_nth [OF assms(2), of j] by (auto simp: pos_def)
  have "distinct ?ys" using assms(1) by (auto simp: linked_def remove_nth_def set_take_disj_set_drop_if_distinct)
  moreover have "\<exists>n'. heap l' (?ys ! j) = Some n' \<and> nd_next n' = at ?ys (j + 1)
      \<and> nd_prev n' = (if j = 0 then None else Some (?ys ! (j - 1)))
      \<and> nd_data n' = nd_data (the (heap l (?ys ! j)))" if j: "j < length ?ys" for j
  proof -
    obtain n where n: "heap l (xs ! pos j) = Some n" "nd_next n = at xs (pos j + 1)"
      "nd_prev n = (if pos j = 0 then None else Some (xs ! (pos j - 1)))"
      using linkedD [OF assms(1) pos(1) [OF j]] .
    obtain n' where n': "heap l' (xs ! pos j) = Some n'" "nd_data n' = nd_data n"
      "nd_next n' = (if pos j + 1 = i then at xs (i + 1) else nd_next n)"
      "nd_prev n' = (if pos j = i + 1 then (if i = 0 then None else Some (xs ! (i - 1))) else nd_prev n)"
      using nodes pos(1,2) [OF j] n(1) by force
    have "nd_next n' = at ?ys (j + 1)"
      using n'(3) n(2) by (auto simp: at_ys pos_def split: if_splits)
    moreover have "nd_prev n' = (if j = 0 then None else Some (?ys ! (j - 1)))"
    proof (cases "j = 0")
      case True
      then show ?thesis using n'(4) n(3) by (auto simp: pos_def split: if_splits)
    next
      case False
      then have "j - 1 < length ?ys" using j by simp
      then have "?ys ! (j - 1) = xs ! pos (j - 1)" by (rule pos(3))
      then show ?thesis using False n'(4) n(3) by (auto simp: pos_def split: if_splits)
    qed
    ultimately show ?thesis using n'(1,2) n(1) pos(3) [OF j] by simp
  qed
  note node = this
  have sub: "set ?ys \<subseteq> set xs" by (rule set_remove_nth)
  have "dom (heap l') = set ?ys"
  proof
    show "set ?ys \<subseteq> dom (heap l')"
    proof
      fix x assume "x \<in> set ?ys"
      then obtain j where "j < length ?ys" "x = ?ys ! j" by (auto simp: in_set_conv_nth)
      then show "x \<in> dom (heap l')" using node [of j] by auto
    qed
    show "dom (heap l') \<subseteq> set ?ys"
    proof
      fix x assume x: "x \<in> dom (heap l')"
      then have "x \<in> set xs" "x \<noteq> xs ! i" using u(4,5) by auto
      then obtain k where k: "k < length xs" "x = xs ! k" "k \<noteq> i" by (auto simp: in_set_conv_nth)
      let ?j = "if k < i then k else k - 1"
      have "?j < length ?ys" "pos ?j = k" using k len assms(2) by (auto simp: pos_def)
      then show "x \<in> set ?ys" using pos(3) [of ?j] k(2) nth_mem by metis
    qed
  qed
  moreover have "head l' = at ?ys 0"
    using u(3) assms by (auto simp: at_ys linked_def)
  moreover have "\<forall>x\<in>set ?ys. x < brk l'" using assms(1) sub u(2) by (auto simp: linked_def)
  ultimately have "linked l' ?ys" using node unfolding linked_def by blast
  moreover have "data_of l' ?ys = remove_nth i (data_of l xs)"
  proof -
    have "data_of l' ?ys = map (\<lambda>a. entry_of (nd_data (the (heap l a)))) ?ys"
      unfolding data_of_def
    proof (intro map_cong refl)
      fix x assume "x \<in> set ?ys"
      then obtain j where "j < length ?ys" "x = ?ys ! j" by (auto simp: in_set_conv_nth)
      then show "entry_of (nd_data (the (heap l' x))) = entry_of (nd_data (the (heap l x)))"
        using node [of j] by auto
    qed
    then show ?thesis by (simp add: data_of_def remove_nth_def take_map drop_map)
  qed
  ultimately show ?thesis using u(1) by blast
qed

section \<open>The list implements the interface\<close>

definition list_inv :: "plist \<Rightarrow> bool" where
  "list_inv l \<longleftrightarrow> (\<exists>xs. linked l xs)"

text \<open>The entries as \<^verbatim>\<open>ShowAll\<close> prints them, without the numbers.\<close>

definition list_entries :: "plist \<Rightarrow> pb_entry list" where
  "list_entries l = (case show_list l of None \<Rightarrow> [] | Some r \<Rightarrow> map snd r)"

lemma show_list_linked:
  assumes "linked l xs"
  shows "show_list l = Some (map (\<lambda>j. (j + 1, data_of l xs ! j)) [0..<length xs])"
    and "list_entries l = data_of l xs"
proof -
  show s: "show_list l = Some (map (\<lambda>j. (j + 1, data_of l xs ! j)) [0..<length xs])"
    using show_linked [OF assms, of 0] assms by (simp add: show_list_def linked_def)
  show "list_entries l = data_of l xs"
  proof -
    have "length (data_of l xs) = length xs" by (simp add: data_of_def)
    then show ?thesis using map_nth [of "data_of l xs"] by (simp add: list_entries_def s comp_def)
  qed
qed

text \<open>A node with three words, as \<^verbatim>\<open>CreateNode\<close> fills it.\<close>

definition node_of :: "pb_entry \<Rightarrow> node" where
  "node_of = (\<lambda>(n, s, t). \<lparr>nd_data = \<lparr>ab_name = n @ [0], ab_second_name = s @ [0], ab_tel = t @ [0]\<rparr>,
     nd_prev = None, nd_next = None\<rparr>)"

lemma node_of_links: "nd_prev (node_of e) = None" "nd_next (node_of e) = None"
  by (simp_all add: node_of_def split: prod.split)

definition add_to_list :: "pb_entry \<Rightarrow> plist \<Rightarrow> plist option" where
  "add_to_list e = link_node (node_of e)"

lemma delete_node_linked:
  assumes "linked l xs"
  shows "\<exists>l'. delete_node k l = Some l' \<and> list_inv l'
    \<and> list_entries l' = (if 1 \<le> k \<and> k \<le> int (length xs) then remove_nth (nat k - 1) (data_of l xs) else data_of l xs)"
proof -
  have hd: "head l = at xs 0" using assms by (simp add: linked_def)
  have inv: "list_inv l" using assms by (auto simp: list_inv_def)
  note E = show_list_linked(2) [OF assms]
  show ?thesis
  proof (cases "xs = [] \<or> k \<le> 0")
    case True
    then have "delete_node k l = Some l" by (auto simp: delete_node_def hd at_def)
    then show ?thesis using True inv E by auto
  next
    case False
    have s: "seek (heap l) (head l) 1 k = Some (at xs (nat k - 1))"
      using seek_linked [OF assms, of 0 k] False hd by simp
    have d: "delete_node k l = (case at xs (nat k - 1) of None \<Rightarrow> Some l | Some a \<Rightarrow> unlink_node a l)"
      using False s by (simp add: delete_node_def hd at_def)
    show ?thesis
    proof (cases "nat k - 1 < length xs")
      case True
      then have k: "1 \<le> k \<and> k \<le> int (length xs)" using False by auto
      obtain l' where "unlink_node (xs ! (nat k - 1)) l = Some l'" "linked l' (remove_nth (nat k - 1) xs)"
        "data_of l' (remove_nth (nat k - 1) xs) = remove_nth (nat k - 1) (data_of l xs)"
        using unlink_node_linked [OF assms True] by blast
      then show ?thesis using d True k show_list_linked(2) by (auto simp: at_def list_inv_def)
    next
      case nk: False
      then have "\<not> k \<le> int (length xs)" using False by auto
      then show ?thesis using d nk inv E by (auto simp: at_def)
    qed
  qed
qed

lemma node_of_entry: "storable_entry e \<Longrightarrow> entry_of (nd_data (node_of e)) = e"
  by (auto simp: storable_entry_def word_ok_def entry_of_def node_of_def cstr_append_zero split: prod.splits)

interpretation linked_book: phone_directory list_inv list_entries add_to_list delete_node None storable_entry "\<lambda>l. True"
proof
  fix l e k
  assume "list_inv l"
  then obtain xs where xs: "linked l xs" by (auto simp: list_inv_def)
  note E = show_list_linked(2) [OF xs]
  show "\<exists>l'. add_to_list e l = Some l' \<and> list_inv l' \<and> list_entries l' = (case None of None \<Rightarrow> list_entries l @ [e]
      | Some n \<Rightarrow> if length (list_entries l) < n then list_entries l @ [e] else list_entries l)" if "storable_entry e"
  proof -
    obtain l' where l': "link_node (node_of e) l = Some l'" "linked l' (xs @ [brk l])"
      "data_of l' (xs @ [brk l]) = data_of l xs @ [entry_of (nd_data (node_of e))]"
      using link_node_linked [OF xs node_of_links] by blast
    then show ?thesis
      using E show_list_linked(2) [OF l'(2)] node_of_entry [OF that] by (auto simp: add_to_list_def list_inv_def)
  qed
  show "\<exists>l'. delete_node k l = Some l' \<and> list_inv l' \<and> list_entries l'
      = (if 1 \<le> k \<and> k \<le> int (length (list_entries l)) then remove_nth (nat k - 1) (list_entries l) else list_entries l)"
    using delete_node_linked [OF xs, of k] unfolding E by simp
qed

lemma free_linked:
  assumes "linked l xs" "i \<le> length xs"
  shows "free_from (heap l |` set (drop i xs)) (at xs i) = Some Map.empty"
  using assms(2)
proof (induction i rule: inc_induct)
  case base
  then show ?case by (simp add: at_def free_from.simps)
next
  case (step i)
  obtain n where n: "heap l (xs ! i) = Some n" "nd_next n = at xs (i + 1)" using linkedD [OF assms(1) step(2)] .
  have d: "drop i xs = xs ! i # drop (Suc i) xs" using step(2) by (simp add: Cons_nth_drop_Suc)
  have "distinct (drop i xs)" using assms(1) by (simp add: linked_def)
  then have "xs ! i \<notin> set (drop (Suc i) xs)" unfolding d by simp
  then have f: "(heap l |` set (drop i xs))(xs ! i := None) = heap l |` set (drop (Suc i) xs)"
    unfolding d by (auto simp: restrict_map_def fun_eq_iff)
  have a: "at xs i = Some (xs ! i)" "(heap l |` set (drop i xs)) (xs ! i) = Some n"
    using step(2) n(1) d by (simp_all add: at_def)
  show ?case
    using step(3) a n(2) f by (subst free_from.simps) simp
qed

lemma exit_linked:
  assumes "linked l xs"
  shows "\<exists>l'. exit_program l = Some l' \<and> heap l' = Map.empty \<and> head l' = None"
proof -
  have "heap l |` set (drop 0 xs) = heap l"
  proof
    fix x
    have "x \<notin> dom (heap l)" if "x \<notin> set xs" using assms that by (simp add: linked_def)
    then show "(heap l |` set (drop 0 xs)) x = heap l x"
      by (cases "x \<in> set xs") (simp_all add: domIff)
  qed
  then have "free_from (heap l) (head l) = Some Map.empty"
    using free_linked [OF assms, of 0] assms by (simp add: linked_def)
  then show ?thesis by (simp add: exit_program_def)
qed

lemma plist_init_linked: "linked plist_init []"
  by (simp add: linked_def plist_init_def at_def)

lemma plist_init_inv: "list_inv plist_init" "list_entries plist_init = []"
  using plist_init_linked show_list_linked(2) [OF plist_init_linked] by (auto simp: list_inv_def data_of_def)

text \<open>What \<^verbatim>\<open>CreateNode\<close> reads from three lines, whatever the allocated block held.\<close>

lemma create_node_entry:
  assumes "no_space n" "no_space s" "no_space t" "storable_entry (n, s, t)"
  shows "\<exists>nd. create_node (n @ CHR 0x0A # s @ CHR 0x0A # t @ CHR 0x0A # rest) junk = (nd, CHR 0x0A # rest)
    \<and> entry_of (nd_data nd) = (n, s, t) \<and> nd_prev nd = None \<and> nd_next nd = None"
proof -
  have nl: "is_space (CHR 0x0A)" by (simp add: is_space_def)
  have skip: "scan_s (CHR 0x0A # r) = scan_s r" for r using nl by (simp add: scan_s_def)
  have len: "length w < FIELD" "0 \<notin> set w" if "w \<in> {n, s, t}" for w
    using assms(4) that by (auto simp: storable_entry_def word_ok_def)
  have f: "scan_field9 (w @ CHR 0x0A # r) buf = (poke 0 (w @ [0]) buf, CHR 0x0A # r)"
    "scan_field9 (CHR 0x0A # w @ CHR 0x0A # r) buf = (poke 0 (w @ [0]) buf, CHR 0x0A # r)"
    if "w \<in> {n, s, t}" for w buf r
    using assms(1-3) that len [OF that] scan_line [of w r] by (auto simp: scan_field9_def skip)
  have c: "cstr (poke 0 (w @ [0]) buf) = w" if "w \<in> {n, s, t}" for w buf
    using len(2) [OF that] by (simp add: poke_def cstr_append_zero)
  show ?thesis
    using f c by (simp add: create_node_def entry_of_def)
qed

lemma search_linked_list:
  assumes "linked l xs"
  shows "search_by_name l key = Some (filter (\<lambda>(i, e). fst e = key) (enumerate 1 (list_entries l)))"
    and "show_list l = Some (enumerate 1 (list_entries l))"
proof -
  have e: "map (\<lambda>j. (j + 1, data_of l xs ! j)) [0..<length xs] = enumerate 1 (list_entries l)"
    by (rule nth_equalityI) (simp_all add: show_list_linked(2) [OF assms] nth_enumerate_eq)
  show "search_by_name l key = Some (filter (\<lambda>(i, e). fst e = key) (enumerate 1 (list_entries l)))"
    using search_linked [OF assms, of 0 key] assms e by (simp add: search_by_name_def linked_def)
  show "show_list l = Some (enumerate 1 (list_entries l))"
    using show_list_linked(1) [OF assms] e by simp
qed

section \<open>Properties\<close>

text \<open>
  Claim C28. The linked list implements the phone book without a limit: starting from the empty list, any
  sequence of additions of words that fit and of removals runs without touching an unallocated node and
  without a loop that does not end, keeps the list linked in both directions with every allocated node
  on it, and ends with the entries of the list specification.
\<close>

theorem linked_book_refines:
  assumes "\<forall>e. Add e \<in> set cs \<longrightarrow> storable_entry e"
  shows "\<exists>l. pb_run add_to_list delete_node cs plist_init = Some l \<and> list_inv l
    \<and> list_entries l = pb_spec None cs []"
proof -
  have "pb_safe storable_entry (\<lambda>l. True) add_to_list delete_node cs l" for l
    using assms
  proof (induction cs arbitrary: l)
    case (Cons c cs)
    then show ?case by (cases c) auto
  qed simp
  then show ?thesis using linked_book.run_refines [OF plist_init_inv(1), of cs] by (simp add: plist_init_inv(2))
qed

theorem linked_book_refines_witness:
  "\<exists>l. pb_run add_to_list delete_node [Add (''Ann'', ''Lee'', ''1''), Add (''Bob'', ''Ray'', ''2''), Remove 1] plist_init = Some l
     \<and> list_entries l = [(''Bob'', ''Ray'', ''2'')]"
  using linked_book_refines [of "[Add (''Ann'', ''Lee'', ''1''), Add (''Bob'', ''Ray'', ''2''), Remove 1]"]
  by (auto simp: storable_entry_def word_ok_def zero_char_def remove_nth_def)

text \<open>
  Reading and freeing: on a well-formed list the walks of \<^verbatim>\<open>ShowAll\<close> and \<^verbatim>\<open>SearchByName\<close> end
  and print every entry, respectively exactly those with the name, numbered from 1, and
  \<^verbatim>\<open>ExitProgram\<close> frees every node once and leaves no node allocated.
\<close>

theorem linked_book_show_search_free:
  assumes "list_inv l"
  shows "show_list l = Some (enumerate 1 (list_entries l))
    \<and> search_by_name l key = Some (filter (\<lambda>(i, e). fst e = key) (enumerate 1 (list_entries l)))
    \<and> (\<exists>l'. exit_program l = Some l' \<and> heap l' = Map.empty \<and> head l' = None)"
proof -
  obtain xs where xs: "linked l xs" using assms by (auto simp: list_inv_def)
  show ?thesis using search_linked_list [OF xs] exit_linked [OF xs] by simp
qed

theorem linked_book_show_search_free_witness:
  "show_list plist_init = Some [] \<and> (\<exists>l'. exit_program plist_init = Some l' \<and> heap l' = Map.empty)"
  using linked_book_show_search_free [OF plist_init_inv(1)] by (auto simp: plist_init_inv(2))

end
