(* ===== verification/PhoneSessions.thy ===== *)
theory PhoneSessions
  imports PhoneList
begin

text \<open>
  The phone books as programs: the menu loop of \<^verbatim>\<open>hw5/hw5.c\<close> over the array and that of \<^verbatim>\<open>hw6/hw6.c\<close> over the
  linked list, run on a typed text. The theory shows that both print the same entries for the same
  session, those of a session on a plain list. \<open>None\<close> is undefined behaviour or a loop that does not end,
  which is what the end of the input in the menu leads to.
\<close>

section \<open>The programs\<close>

text \<open>\<^verbatim>\<open>do { ... } while (choice != 5)\<close> around a round of the menu; the result is the entries printed.\<close>

partial_function (option) menu_loop :: "('s \<Rightarrow> string \<Rightarrow> int \<Rightarrow> ('s \<times> string \<times> (nat \<times> pb_entry) list \<times> int) option)
    \<Rightarrow> 's \<Rightarrow> string \<Rightarrow> int \<Rightarrow> (nat \<times> pb_entry) list option" where
  "menu_loop menu s input choice =
     (case menu s input choice of None \<Rightarrow> None
      | Some (s, input, out, choice) \<Rightarrow>
        if choice = 5 then Some out
        else Option.bind (menu_loop menu s input choice) (\<lambda>out'. Some (out @ out')))"

definition book_main :: "string \<Rightarrow> int \<Rightarrow> (nat \<times> pb_entry) list option" where
  "book_main input choice = menu_loop book_menu book_init input choice"

text \<open>
  The operations of \<^verbatim>\<open>hw6\<close> with their reads. A number or a name that is not read is indeterminate.
\<close>

definition delete_from_list :: "plist \<Rightarrow> string \<Rightarrow> (plist \<times> string) option" where
  "delete_from_list l input =
     (case scan_d input of None \<Rightarrow> None
      | Some (k, rest) \<Rightarrow> if in_int k then map_option (\<lambda>l. (l, rest)) (delete_node k l) else None)"

definition search_list :: "plist \<Rightarrow> string \<Rightarrow> ((nat \<times> pb_entry) list \<times> string) option" where
  "search_list l input =
     (case scan_s input of None \<Rightarrow> None
      | Some (w, rest) \<Rightarrow> map_option (\<lambda>r. (r, drop 9 w @ rest)) (search_by_name l (take 9 w)))"

text \<open>One round of the menu; \<open>mem\<close> is what the blocks of \<^verbatim>\<open>malloc\<close> hold when they are allocated.\<close>

definition list_menu :: "(addr \<Rightarrow> abonent) \<Rightarrow> plist \<Rightarrow> string \<Rightarrow> int
    \<Rightarrow> (plist \<times> string \<times> (nat \<times> pb_entry) list \<times> int) option" where
  "list_menu mem l input choice =
     (case menu_choice input choice of None \<Rightarrow> None
      | Some (choice, input) \<Rightarrow>
         if choice = 1 then map_option (\<lambda>(l, input). (l, input, [], choice)) (append_abonent l input (mem (brk l)))
         else if choice = 2 then map_option (\<lambda>(l, input). (l, input, [], choice)) (delete_from_list l input)
         else if choice = 3 then map_option (\<lambda>(r, input). (l, input, r, choice)) (search_list l input)
         else if choice = 4 then map_option (\<lambda>r. (l, input, r, choice)) (show_list l)
         else if choice = 5 then map_option (\<lambda>l. (l, input, [], choice)) (exit_program l)
         else Some (l, input, [], choice))"

definition list_main :: "(addr \<Rightarrow> abonent) \<Rightarrow> string \<Rightarrow> int \<Rightarrow> (nat \<times> pb_entry) list option" where
  "list_main mem input choice = menu_loop (list_menu mem) plist_init input choice"

section \<open>Sessions\<close>

datatype pb_line = Type_add pb_entry | Type_delete int | Type_find string | Type_show

abbreviation NL :: char where "NL \<equiv> CHR 0x0A"

fun typed :: "pb_line \<Rightarrow> string" where
  "typed (Type_add (n, s, t)) = show_int 1 @ NL # n @ NL # s @ NL # t @ [NL]"
| "typed (Type_delete k) = show_int 2 @ NL # show_int k @ [NL]"
| "typed (Type_find w) = show_int 3 @ NL # w @ [NL]"
| "typed Type_show = show_int 4 @ [NL]"

definition session_text :: "pb_line list \<Rightarrow> string" where
  "session_text cs = concat (map typed cs) @ show_int 5 @ [NL]"

fun line_ok :: "pb_line \<Rightarrow> bool" where
  "line_ok (Type_add (n, s, t)) \<longleftrightarrow> storable_entry (n, s, t) \<and> no_space n \<and> no_space s \<and> no_space t"
| "line_ok (Type_delete k) \<longleftrightarrow> in_int k"
| "line_ok (Type_find w) \<longleftrightarrow> word_ok w \<and> no_space w"
| "line_ok Type_show \<longleftrightarrow> True"

text \<open>The session on a plain list of entries.\<close>

fun after :: "pb_line \<Rightarrow> pb_entry list \<Rightarrow> pb_entry list" where
  "after (Type_add e) es = es @ [e]"
| "after (Type_delete k) es = (if 1 \<le> k \<and> k \<le> int (length es) then remove_nth (nat k - 1) es else es)"
| "after _ es = es"

fun shown :: "pb_line \<Rightarrow> pb_entry list \<Rightarrow> (nat \<times> pb_entry) list" where
  "shown (Type_find w) es = filter (\<lambda>(i, e). fst e = w) (enumerate 1 es)"
| "shown Type_show es = enumerate 1 es"
| "shown _ es = []"

fun session_lines :: "pb_line list \<Rightarrow> pb_entry list \<Rightarrow> (nat \<times> pb_entry) list" where
  "session_lines [] es = []"
| "session_lines (c # cs) es = shown c es @ session_lines cs (after c es)"

fun additions :: "pb_line list \<Rightarrow> nat" where
  "additions [] = 0"
| "additions (Type_add e # cs) = Suc (additions cs)"
| "additions (c # cs) = additions cs"

text \<open>
  A menu that does what a line asks for. The newline behind a word may be left for the next round, which
  skips it.
\<close>

definition left_over :: "string \<Rightarrow> bool" where
  "left_over pre \<longleftrightarrow> pre = [] \<or> pre = [NL]"

locale phone_program =
  fixes menu :: "'s \<Rightarrow> string \<Rightarrow> int \<Rightarrow> ('s \<times> string \<times> (nat \<times> pb_entry) list \<times> int) option"
    and inv :: "'s \<Rightarrow> bool" and entries :: "'s \<Rightarrow> pb_entry list" and fits :: "nat \<Rightarrow> bool"
  assumes menu_line: "inv s \<Longrightarrow> line_ok c \<Longrightarrow> fits (length (entries s)) \<Longrightarrow> left_over pre \<Longrightarrow>
      \<exists>s' pre' k. menu s (pre @ typed c @ rest) choice = Some (s', pre' @ rest, shown c (entries s), k)
        \<and> k \<noteq> 5 \<and> inv s' \<and> entries s' = after c (entries s) \<and> left_over pre'"
    and menu_exit: "inv s \<Longrightarrow> left_over pre \<Longrightarrow>
      \<exists>s' rest. menu s (pre @ show_int 5 @ [NL]) choice = Some (s', rest, [], 5)"
    and fits_less: "fits n \<Longrightarrow> m \<le> n \<Longrightarrow> fits m"
begin

lemma session:
  "inv s \<Longrightarrow> \<forall>c\<in>set cs. line_ok c \<Longrightarrow> fits (length (entries s) + additions cs) \<Longrightarrow> left_over pre \<Longrightarrow>
     menu_loop menu s (pre @ session_text cs) choice = Some (session_lines cs (entries s))"
proof (induction cs arbitrary: s pre choice)
  case Nil
  then show ?case using menu_exit [of s pre choice] by (subst menu_loop.simps) (auto simp: session_text_def)
next
  case (Cons c cs)
  have "fits (length (entries s))" by (rule fits_less [OF Cons.prems(3)]) simp
  then obtain s' pre' k where m: "menu s (pre @ typed c @ session_text cs) choice
      = Some (s', pre' @ session_text cs, shown c (entries s), k)" "k \<noteq> 5" "inv s'"
    "entries s' = after c (entries s)" "left_over pre'"
    using menu_line [OF Cons.prems(1) _ _ Cons.prems(4), of c "session_text cs" choice] Cons.prems(2) by auto
  have "length (after c (entries s)) + additions cs \<le> length (entries s) + additions (c # cs)"
    by (cases c) (auto simp: remove_nth_def)
  then have "fits (length (entries s') + additions cs)"
    using fits_less [OF Cons.prems(3)] m(4) by simp
  then show ?case
    using m Cons.IH [of s' pre' k] Cons.prems(2) by (subst menu_loop.simps) (simp add: session_text_def)
qed

end

section \<open>The input\<close>

lemma nl_space: "is_space NL"
  by (simp add: is_space_def)

lemma scan_s_nl [simp]: "scan_s (NL # r) = scan_s r"
  by (simp add: scan_s_def nl_space)

lemma scan_d_nl [simp]: "scan_d (NL # r) = scan_d r"
  by (rule scan_d_skip [OF nl_space])

lemma scan_number: "scan_d (show_int k @ NL # r) = Some (k, NL # r)"
proof (rule scan_d_show_int)
  show "\<not> starts_digit (NL # r)" by (simp add: starts_digit_def digit_val_def)
qed

lemma scan_choice: "left_over pre \<Longrightarrow> - 2147483648 \<le> k \<Longrightarrow> k \<le> 2147483647 \<Longrightarrow>
    menu_choice (pre @ show_int k @ NL # r) choice = Some (k, NL # r)"
  by (auto simp: left_over_def scan_number menu_choice_def in_int_def INT_MIN_def INT_MAX_def)

lemma left_overs [simp]: "left_over []" "left_over [NL]"
  by (simp_all add: left_over_def)

section \<open>The array\<close>

lemma show_all_entries: "book_inv b \<Longrightarrow> show_all b = enumerate 1 (book_entries b)"
  by (rule nth_equalityI)
    (auto simp: show_all_def book_entries_def book_inv_def nth_enumerate_eq print_abonent_def entry_of_def)

lemma array_line:
  assumes inv: "book_inv b" and c: "line_ok c" and room: "length (book_entries b) < BOOK_SIZE" and pre: "left_over pre"
  shows "\<exists>b' pre' k. book_menu b (pre @ typed c @ rest) choice = Some (b', pre' @ rest, shown c (book_entries b), k)
    \<and> k \<noteq> 5 \<and> book_inv b' \<and> book_entries b' = after c (book_entries b) \<and> left_over pre'"
proof -
  have cnt: "book_count b < BOOK_SIZE" using inv room by (simp add: book_entries_def book_inv_def)
  show ?thesis
  proof (cases c)
    case (Type_add e)
    obtain n s t where e: "e = (n, s, t)" by (cases e)
    have w: "no_space n" "no_space s" "no_space t" "storable_entry e" using c Type_add e by auto
    obtain b' where p: "put_abonent e b = Some b'" "book_inv b'" "book_entries b' = book_entries b @ [e]"
      using put_abonent_ok [OF inv w(4)] room by auto
    have "add_abonent b (NL # x) = add_abonent b x" for x
      using cnt by (simp add: add_abonent_def scan_field_def)
    then have "add_abonent b (NL # n @ NL # s @ NL # t @ NL # rest) = Some (b', NL # rest)"
      using add_abonent_reads [OF w(1-3) cnt] p(1) e by simp
    then have "book_menu b (pre @ typed c @ rest) choice = Some (b', [NL] @ rest, [], 1)"
      using Type_add e scan_choice [OF pre] by (simp add: book_menu_def)
    then show ?thesis using p(2,3) Type_add by (intro exI conjI) (simp, simp_all)
  next
    case (Type_delete k)
    obtain b' where d: "delete_number k b = Some b'" "book_inv b'" "book_entries b' = after c (book_entries b)"
      using delete_number_ok [OF inv cnt, of k] Type_delete by auto
    then have "book_menu b (pre @ typed c @ rest) choice = Some (b', [NL] @ rest, [], 2)"
      using Type_delete c scan_choice [OF pre] by (simp add: book_menu_def delete_abonent_def scan_number)
    then show ?thesis using d(2,3) Type_delete by (intro exI conjI) (simp, simp_all)
  next
    case (Type_find w)
    have "find_abonent b (w @ NL # rest) = Some (filter (\<lambda>(i, n, s, t). n = w) (show_all b), rest)"
      using array_book_find_and_full_delete [OF inv] c Type_find by simp
    moreover have "find_abonent b (NL # x) = find_abonent b x" for x by (simp add: find_abonent_def)
    moreover have "filter (\<lambda>(i, n, s, t). n = w) ls = filter (\<lambda>(i, e). fst e = w) ls" for ls :: "(nat \<times> pb_entry) list"
      by (rule filter_cong) auto
    ultimately have "book_menu b (pre @ typed c @ rest) choice = Some (b, [] @ rest, shown c (book_entries b), 3)"
      using Type_find scan_choice [OF pre] show_all_entries [OF inv] by (simp add: book_menu_def)
    then show ?thesis using inv Type_find by (intro exI conjI) (simp, simp_all)
  next
    case Type_show
    have "book_menu b (pre @ typed c @ rest) choice = Some (b, [NL] @ rest, shown c (book_entries b), 4)"
      using Type_show scan_choice [OF pre] show_all_entries [OF inv] by (simp add: book_menu_def)
    then show ?thesis using inv Type_show by (intro exI conjI) (simp, simp_all)
  qed
qed

interpretation array_program: phone_program book_menu book_inv book_entries "\<lambda>n. n < BOOK_SIZE"
proof
  show "\<exists>s' rest. book_menu s (pre @ show_int 5 @ [NL]) choice = Some (s', rest, [], 5)" if "left_over pre" for s pre choice
    using scan_choice [OF that, of 5 "[]"] by (simp add: book_menu_def)
qed (use array_line in auto)

section \<open>The list\<close>

lemma list_line:
  assumes inv: "list_inv l" and c: "line_ok c" and pre: "left_over pre"
  shows "\<exists>l' pre' k. list_menu mem l (pre @ typed c @ rest) choice = Some (l', pre' @ rest, shown c (list_entries l), k)
    \<and> k \<noteq> 5 \<and> list_inv l' \<and> list_entries l' = after c (list_entries l) \<and> left_over pre'"
proof -
  obtain xs where xs: "linked l xs" using inv by (auto simp: list_inv_def)
  note E = show_list_linked(2) [OF xs]
  show ?thesis
  proof (cases c)
    case (Type_add e)
    obtain n s t where e: "e = (n, s, t)" by (cases e)
    have w: "no_space n" "no_space s" "no_space t" "storable_entry (n, s, t)" using c Type_add e by auto
    obtain nd where nd: "create_node (n @ NL # s @ NL # t @ NL # rest) (mem (brk l)) = (nd, NL # rest)"
      "entry_of (nd_data nd) = (n, s, t)" "nd_prev nd = None" "nd_next nd = None"
      using create_node_entry [OF w] by blast
    have "create_node (NL # x) junk = create_node x junk" for x junk
      by (simp add: create_node_def scan_field9_def)
    then have cn: "create_node (NL # n @ NL # s @ NL # t @ NL # rest) (mem (brk l)) = (nd, NL # rest)"
      using nd(1) by simp
    obtain l' where l': "link_node nd l = Some l'" "linked l' (xs @ [brk l])"
      "data_of l' (xs @ [brk l]) = data_of l xs @ [entry_of (nd_data nd)]"
      using link_node_linked [OF xs nd(3,4)] by blast
    have "list_menu mem l (pre @ typed c @ rest) choice = Some (l', [NL] @ rest, [], 1)"
      using Type_add e scan_choice [OF pre] cn l'(1) by (simp add: list_menu_def append_abonent_def)
    moreover have "list_inv l'" using l'(2) by (auto simp: list_inv_def)
    moreover have "list_entries l' = after c (list_entries l)"
      using show_list_linked(2) [OF l'(2)] l'(3) E nd(2) e Type_add by simp
    ultimately show ?thesis using Type_add by (intro exI conjI) (simp, simp_all)
  next
    case (Type_delete k)
    obtain l' where d: "delete_node k l = Some l'" "list_inv l'" "list_entries l' = after c (list_entries l)"
      using delete_node_linked [OF xs, of k] E Type_delete by auto
    then have "list_menu mem l (pre @ typed c @ rest) choice = Some (l', [NL] @ rest, [], 2)"
      using Type_delete c scan_choice [OF pre] by (simp add: list_menu_def delete_from_list_def scan_number)
    then show ?thesis using d(2,3) Type_delete by (intro exI conjI) (simp, simp_all)
  next
    case (Type_find w)
    have "take 9 w = w" "drop 9 w = []" using c Type_find by (simp_all add: word_ok_def)
    then have "list_menu mem l (pre @ typed c @ rest) choice = Some (l, [NL] @ rest, shown c (list_entries l), 3)"
      using Type_find c scan_choice [OF pre] scan_line [of w rest] search_linked_list(1) [OF xs, of w]
      by (simp add: list_menu_def search_list_def)
    then show ?thesis using inv Type_find by (intro exI conjI) (simp, simp_all)
  next
    case Type_show
    have "list_menu mem l (pre @ typed c @ rest) choice = Some (l, [NL] @ rest, shown c (list_entries l), 4)"
      using Type_show scan_choice [OF pre] search_linked_list(2) [OF xs] by (simp add: list_menu_def)
    then show ?thesis using inv Type_show by (intro exI conjI) (simp, simp_all)
  qed
qed

interpretation list_program: phone_program "list_menu mem" list_inv list_entries "\<lambda>_. True" for mem
proof
  show "\<exists>l' rest. list_menu mem l (pre @ show_int 5 @ [NL]) choice = Some (l', rest, [], 5)"
    if "list_inv l" "left_over pre" for l pre choice
  proof -
    obtain xs where "linked l xs" using \<open>list_inv l\<close> by (auto simp: list_inv_def)
    then show ?thesis using exit_linked scan_choice [OF that(2), of 5 "[]"] by (fastforce simp: list_menu_def)
  qed
qed (use list_line in auto)

section \<open>Properties\<close>

text \<open>
  Claim C27. The two phone books are interchangeable: for every session of additions, removals (also with
  wrong numbers), searches and listings with words of at most nine characters, typed line by line and
  ended with 5, both programs end and print the same numbered entries, those that the session prints on
  a plain list. The array needs fewer than a hundred additions; the list has no limit, whatever
  the blocks that \<^verbatim>\<open>malloc\<close> returns contain. At the start of \<^verbatim>\<open>main\<close> the variable \<^verbatim>\<open>choice\<close> may have any value.
\<close>

theorem phone_books_agree:
  assumes "\<forall>c\<in>set cs. line_ok c"
  shows "list_main mem (session_text cs) choice = Some (session_lines cs [])
    \<and> (additions cs < BOOK_SIZE \<longrightarrow> book_main (session_text cs) choice' = list_main mem (session_text cs) choice)"
  using list_program.session [OF plist_init_inv(1) assms, of "[]" mem choice]
    array_program.session [OF book_init_inv(1) assms, of "[]" choice']
  by (simp add: list_main_def book_main_def plist_init_inv(2) book_init_inv(2))

theorem phone_books_agree_witness:
  "book_main (session_text [Type_add (''Ann'', ''Lee'', ''1''), Type_add (''Bob'', ''Ray'', ''2''), Type_delete 1, Type_show]) 0
   = Some [(1, (''Bob'', ''Ray'', ''2''))]"
proof -
  let ?cs = "[Type_add (''Ann'', ''Lee'', ''1''), Type_add (''Bob'', ''Ray'', ''2''), Type_delete 1, Type_show]"
  have "\<forall>c\<in>set ?cs. line_ok c"
    by (simp add: storable_entry_def word_ok_def zero_char_def no_space_def is_space_def in_int_def INT_MIN_def INT_MAX_def)
  from phone_books_agree [OF this, of "\<lambda>_. \<lparr>ab_name = [], ab_second_name = [], ab_tel = []\<rparr>" 0 0] show ?thesis
    by (simp add: remove_nth_def)
qed

end
