(* ===== verification/Exchange.thy ===== *)
theory Exchange
  imports CPrelude
begin

text \<open>
  The exercises in which two processes exchange a greeting: over POSIX and System V message queues
  (\<^verbatim>\<open>hw13_mqueue/part1\<close>), POSIX and System V shared memory (\<^verbatim>\<open>hw14_shmemory/part1\<close>), a FIFO (\<^verbatim>\<open>hw12_pipe/part2\<close>) and a
  pipe (\<^verbatim>\<open>hw12_pipe/part1\<close>). A process is its position between two system calls, a step is one call with
  what the process does with its result; a call that blocks is no step. The object they share is a record
  of the kernel's state, with what the processes have printed of the messages. \<open>bad\<close> has the calls that
  fail for reasons outside the two programs.
\<close>

section \<open>Two processes\<close>

type_synonym ('k, 'p) process = "'p \<Rightarrow> 'k \<Rightarrow> ('k \<times> 'p) option"

fun moves :: "('k, 'p) process \<Rightarrow> ('k, 'q) process \<Rightarrow> 'k \<times> 'p \<times> 'q \<Rightarrow> ('k \<times> 'p \<times> 'q) list" where
  "moves sv cl (k, p, q) =
     (case sv p k of None \<Rightarrow> [] | Some (k', p') \<Rightarrow> [(k', p', q)])
     @ (case cl q k of None \<Rightarrow> [] | Some (k', q') \<Rightarrow> [(k', p, q')])"

definition pair_step :: "('k, 'p) process \<Rightarrow> ('k, 'q) process \<Rightarrow> 'k \<times> 'p \<times> 'q \<Rightarrow> 'k \<times> 'p \<times> 'q \<Rightarrow> bool" where
  "pair_step sv cl s t \<longleftrightarrow> t \<in> set (moves sv cl s)"

text \<open>
  In every schedule the two processes come to rest after finitely many steps, and where they do, \<open>good\<close>
  holds.
\<close>

definition every_run_ends :: "('k, 'p) process \<Rightarrow> ('k, 'q) process \<Rightarrow> ('k \<times> 'p \<times> 'q \<Rightarrow> bool)
    \<Rightarrow> 'k \<times> 'p \<times> 'q \<Rightarrow> bool" where
  "every_run_ends sv cl good s \<longleftrightarrow>
     (\<forall>t. (pair_step sv cl)\<^sup>*\<^sup>* s t \<longrightarrow> (\<forall>u. \<not> pair_step sv cl t u) \<longrightarrow> good t)
     \<and> \<not> (\<exists>run. run 0 = s \<and> (\<forall>i. pair_step sv cl (run i) (run (Suc i))))"

text \<open>Exploration of all schedules of at most \<open>n\<close> steps.\<close>

fun explore :: "('k, 'p) process \<Rightarrow> ('k, 'q) process \<Rightarrow> ('k \<times> 'p \<times> 'q \<Rightarrow> bool) \<Rightarrow> nat \<Rightarrow> 'k \<times> 'p \<times> 'q \<Rightarrow> bool" where
  "explore sv cl good 0 s = False"
| "explore sv cl good (Suc n) s =
     (case moves sv cl s of [] \<Rightarrow> good s | t # ts \<Rightarrow> explore sv cl good n t \<and> list_all (explore sv cl good n) ts)"

lemma explore_step:
  "explore sv cl good (Suc n) s \<Longrightarrow> pair_step sv cl s t \<Longrightarrow> explore sv cl good n t"
  by (auto simp: pair_step_def list_all_iff split: list.splits)

lemma explore_reach:
  assumes "(pair_step sv cl)\<^sup>*\<^sup>* s t" "explore sv cl good n s"
  shows "\<exists>m. explore sv cl good m t"
  using assms
proof (induction rule: rtranclp_induct)
  case (step t u)
  then obtain m where m: "explore sv cl good m t" by blast
  then obtain m' where "m = Suc m'" by (cases m) simp_all
  then show ?case using explore_step [OF _ step.hyps(2)] m by blast
qed blast

lemma explore_no_run:
  "explore sv cl good n (run 0) \<Longrightarrow> \<not> (\<forall>i. pair_step sv cl (run i) (run (Suc i)))"
proof (induction n arbitrary: run)
  case (Suc n)
  show ?case
  proof
    assume r: "\<forall>i. pair_step sv cl (run i) (run (Suc i))"
    then have "explore sv cl good n (run (Suc 0))" using explore_step [OF Suc.prems] by blast
    then show False using Suc.IH [of "\<lambda>i. run (Suc i)"] r by simp
  qed
qed simp

theorem explore_sound:
  assumes "explore sv cl good n s"
  shows "every_run_ends sv cl good s"
proof -
  have "good t" if r: "(pair_step sv cl)\<^sup>*\<^sup>* s t" and stuck: "\<And>u. \<not> pair_step sv cl t u" for t
  proof -
    obtain m where m: "explore sv cl good m t" using explore_reach [OF r assms] by blast
    moreover have "moves sv cl t = []" using stuck by (metis list.set_intros(1) neq_Nil_conv pair_step_def)
    ultimately show ?thesis by (cases m) simp_all
  qed
  moreover have "\<not> (\<exists>run. run 0 = s \<and> (\<forall>i. pair_step sv cl (run i) (run (Suc i))))"
    using explore_no_run [of sv cl good n] assms by blast
  ultimately show ?thesis unfolding every_run_ends_def by blast
qed

section \<open>POSIX message queues\<close>

text \<open>
  Names and contents of \<^verbatim>\<open>/srv_to_cli\<close> and \<^verbatim>\<open>/cli_to_srv\<close>; a queue that is unlinked stays usable for those
  who have it open.
\<close>

record posix_mq =
  s2c_name :: bool
  c2s_name :: bool
  s2c_msgs :: "string list"
  c2s_msgs :: "string list"
  pserver_got :: "string list"
  pclient_got :: "string list"

datatype posix_call = Open_s2c | Open_c2s | Send | Receive

datatype posix_pc = At posix_call | At_end | Ended int

text \<open>
  \<^verbatim>\<open>server.c\<close>. Queues hold ten messages; \<^verbatim>\<open>mq_send\<close> blocks on a full queue, \<^verbatim>\<open>mq_receive\<close> on an empty one. The
  two early exits unlink the name of the other queue.
\<close>

fun posix_server :: "posix_call set \<Rightarrow> (posix_mq, posix_pc) process" where
  "posix_server bad (At Open_s2c) k = Some
     (if Open_s2c \<in> bad then (k\<lparr>c2s_name := False\<rparr>, Ended 1) else (k\<lparr>s2c_name := True\<rparr>, At Open_c2s))"
| "posix_server bad (At Open_c2s) k = Some
     (if Open_c2s \<in> bad then (k\<lparr>s2c_name := False\<rparr>, Ended 1) else (k\<lparr>c2s_name := True\<rparr>, At Send))"
| "posix_server bad (At Send) k =
     (if Send \<in> bad then Some (k, At Receive)
      else if 10 \<le> length (s2c_msgs k) then None
      else Some (k\<lparr>s2c_msgs := s2c_msgs k @ [''Hi!'']\<rparr>, At Receive))"
| "posix_server bad (At Receive) k =
     (if Receive \<in> bad then Some (k, At_end)
      else (case c2s_msgs k of [] \<Rightarrow> None
            | m # ms \<Rightarrow> Some (k\<lparr>c2s_msgs := ms, pserver_got := pserver_got k @ [m]\<rparr>, At_end)))"
| "posix_server bad At_end k = Some (k\<lparr>s2c_name := False, c2s_name := False\<rparr>, Ended 0)"
| "posix_server bad (Ended rc) k = None"

text \<open>\<^verbatim>\<open>client.c\<close>, which opens the queues without \<^verbatim>\<open>O_CREAT\<close>.\<close>

fun posix_client :: "posix_call set \<Rightarrow> (posix_mq, posix_pc) process" where
  "posix_client bad (At Open_s2c) k =
     Some (k, if Open_s2c \<in> bad \<or> \<not> s2c_name k then Ended 1 else At Open_c2s)"
| "posix_client bad (At Open_c2s) k =
     Some (k, if Open_c2s \<in> bad \<or> \<not> c2s_name k then Ended 1 else At Receive)"
| "posix_client bad (At Receive) k =
     (if Receive \<in> bad then Some (k, At Send)
      else (case s2c_msgs k of [] \<Rightarrow> None
            | m # ms \<Rightarrow> Some (k\<lparr>s2c_msgs := ms, pclient_got := pclient_got k @ [m]\<rparr>, At Send)))"
| "posix_client bad (At Send) k =
     (if Send \<in> bad then Some (k, At_end)
      else if 10 \<le> length (c2s_msgs k) then None
      else Some (k\<lparr>c2s_msgs := c2s_msgs k @ [''Hello!'']\<rparr>, At_end))"
| "posix_client bad At_end k = Some (k, Ended 0)"
| "posix_client bad (Ended rc) k = None"

definition posix_start :: "posix_mq \<times> posix_pc \<times> posix_pc" where
  "posix_start = (\<lparr>s2c_name = False, c2s_name = False, s2c_msgs = [], c2s_msgs = [], pserver_got = [],
     pclient_got = []\<rparr>, At Open_s2c, At Open_s2c)"

text \<open>The exchange is complete; or the client gave up before there were queues, and the server waits.\<close>

fun posix_done :: "posix_mq \<times> posix_pc \<times> posix_pc \<Rightarrow> bool" where
  "posix_done (k, p, q) \<longleftrightarrow> p = Ended 0 \<and> q = Ended 0 \<and> pclient_got k = [''Hi!''] \<and> pserver_got k = [''Hello!'']
     \<and> \<not> s2c_name k \<and> \<not> c2s_name k"

fun posix_left :: "posix_mq \<times> posix_pc \<times> posix_pc \<Rightarrow> bool" where
  "posix_left (k, p, q) \<longleftrightarrow> p = At Receive \<and> q = Ended 1 \<and> pclient_got k = [] \<and> s2c_name k \<and> c2s_name k"

text \<open>The client is started when the server has made the queues.\<close>

definition posix_ready :: "posix_mq \<times> posix_pc \<times> posix_pc" where
  "posix_ready = (\<lparr>s2c_name = True, c2s_name = True, s2c_msgs = [], c2s_msgs = [], pserver_got = [],
     pclient_got = []\<rparr>, At Send, At Open_s2c)"

section \<open>System V message queues\<close>

text \<open>One queue for both directions; a message has a type, and a receiver takes the first of its type.\<close>

record sysv_mq =
  v_exists :: bool
  v_msgs :: "(int \<times> string) list"
  vserver_got :: "string list"
  vclient_got :: "string list"

datatype sysv_call = Ftok | Msgget | Msgsnd | Msgrcv | Msgctl

datatype sysv_pc = In sysv_call | Finished int

fun msg_take :: "int \<Rightarrow> (int \<times> string) list \<Rightarrow> (string \<times> (int \<times> string) list) option" where
  "msg_take t [] = None"
| "msg_take t (m # ms) = (if fst m = t then Some (snd m, ms) else map_option (\<lambda>(x, r). (x, m # r)) (msg_take t ms))"

text \<open>\<^verbatim>\<open>server.c\<close>: a failed \<^verbatim>\<open>msgsnd\<close> or \<^verbatim>\<open>msgrcv\<close> is reported and passed over.\<close>

fun sysv_server :: "sysv_call set \<Rightarrow> (sysv_mq, sysv_pc) process" where
  "sysv_server bad (In Ftok) k = Some (k, if Ftok \<in> bad then Finished 1 else In Msgget)"
| "sysv_server bad (In Msgget) k = Some
     (if Msgget \<in> bad then (k, Finished 1) else (k\<lparr>v_exists := True\<rparr>, In Msgsnd))"
| "sysv_server bad (In Msgsnd) k = Some
     (if Msgsnd \<in> bad then k else k\<lparr>v_msgs := v_msgs k @ [(1, ''Hi!'')]\<rparr>, In Msgrcv)"
| "sysv_server bad (In Msgrcv) k =
     (if Msgrcv \<in> bad then Some (k, In Msgctl)
      else map_option (\<lambda>(m, ms). (k\<lparr>v_msgs := ms, vserver_got := vserver_got k @ [m]\<rparr>, In Msgctl))
             (msg_take 2 (v_msgs k)))"
| "sysv_server bad (In Msgctl) k = Some
     (if Msgctl \<in> bad then (k, Finished 1) else (k\<lparr>v_exists := False, v_msgs := []\<rparr>, Finished 0))"
| "sysv_server bad (Finished rc) k = None"

text \<open>\<^verbatim>\<open>client.c\<close>: every failure ends it. It makes no queue, and a queue that is removed fails \<^verbatim>\<open>msgrcv\<close> and \<^verbatim>\<open>msgsnd\<close>.\<close>

fun sysv_client :: "sysv_call set \<Rightarrow> (sysv_mq, sysv_pc) process" where
  "sysv_client bad (In Ftok) k = Some (k, if Ftok \<in> bad then Finished 1 else In Msgget)"
| "sysv_client bad (In Msgget) k =
     Some (k, if Msgget \<in> bad \<or> \<not> v_exists k then Finished 1 else In Msgrcv)"
| "sysv_client bad (In Msgrcv) k =
     (if Msgrcv \<in> bad \<or> \<not> v_exists k then Some (k, Finished 1)
      else map_option (\<lambda>(m, ms). (k\<lparr>v_msgs := ms, vclient_got := vclient_got k @ [m]\<rparr>, In Msgsnd))
             (msg_take 1 (v_msgs k)))"
| "sysv_client bad (In Msgsnd) k = Some
     (if Msgsnd \<in> bad \<or> \<not> v_exists k then (k, Finished 1)
      else (k\<lparr>v_msgs := v_msgs k @ [(2, ''Hello!'')]\<rparr>, Finished 0))"
| "sysv_client bad (In Msgctl) k = None"
| "sysv_client bad (Finished rc) k = None"

definition sysv_start :: "sysv_mq \<times> sysv_pc \<times> sysv_pc" where
  "sysv_start = (\<lparr>v_exists = False, v_msgs = [], vserver_got = [], vclient_got = []\<rparr>, In Ftok, In Ftok)"

definition sysv_ready :: "sysv_mq \<times> sysv_pc \<times> sysv_pc" where
  "sysv_ready = (\<lparr>v_exists = True, v_msgs = [], vserver_got = [], vclient_got = []\<rparr>, In Msgsnd, In Ftok)"

fun sysv_done :: "sysv_mq \<times> sysv_pc \<times> sysv_pc \<Rightarrow> bool" where
  "sysv_done (k, p, q) \<longleftrightarrow> p = Finished 0 \<and> q = Finished 0 \<and> vclient_got k = [''Hi!'']
     \<and> vserver_got k = [''Hello!''] \<and> \<not> v_exists k"

fun sysv_left :: "sysv_mq \<times> sysv_pc \<times> sysv_pc \<Rightarrow> bool" where
  "sysv_left (k, p, q) \<longleftrightarrow> p = In Msgrcv \<and> q = Finished 1 \<and> vclient_got k = [] \<and> v_exists k"

section \<open>Shared memory\<close>

text \<open>
  The segment: its name, whether it has been given its size, and the string at its start. What the
  processes print of it is kept in order.
\<close>

record segment =
  g_name :: bool
  g_sized :: bool
  g_text :: string
  gserver_out :: "string list"
  gclient_out :: "string list"

datatype segment_pc = G_open | G_truncate | G_map | G_write | G_report | G_poll | G_read | G_unlink
  | G_exit int | G_sigbus

text \<open>
  \<^verbatim>\<open>server.c\<close>. \<^verbatim>\<open>while (strncmp(shm_ptr, "Hello!", SHM_SIZE) != 0) sleep(1);\<close> leaves \<open>G_poll\<close> only with a poll
  that sees the reply; a poll that sees anything else changes nothing.
\<close>

fun shm_server :: "segment_pc set \<Rightarrow> (segment, segment_pc) process" where
  "shm_server bad G_open k = Some (if G_open \<in> bad then (k, G_exit 1) else (k\<lparr>g_name := True\<rparr>, G_truncate))"
| "shm_server bad G_truncate k = Some
     (if G_truncate \<in> bad then (k\<lparr>g_name := False\<rparr>, G_exit 1) else (k\<lparr>g_sized := True\<rparr>, G_map))"
| "shm_server bad G_map k = Some (if G_map \<in> bad then (k\<lparr>g_name := False\<rparr>, G_exit 1) else (k, G_write))"
| "shm_server bad G_write k = Some (k\<lparr>g_text := ''Hi!''\<rparr>, G_report)"
| "shm_server bad G_report k = Some (k\<lparr>gserver_out := gserver_out k @ [g_text k]\<rparr>, G_poll)"
| "shm_server bad G_poll k = (if g_text k = ''Hello!'' then Some (k, G_read) else None)"
| "shm_server bad G_read k = Some (k\<lparr>gserver_out := gserver_out k @ [g_text k]\<rparr>, G_unlink)"
| "shm_server bad G_unlink k = Some (if G_unlink \<in> bad then k else k\<lparr>g_name := False\<rparr>, G_exit 0)"
| "shm_server bad (G_exit rc) k = None"
| "shm_server bad G_sigbus k = None"

text \<open>\<^verbatim>\<open>client.c\<close>: an access to a segment without a size is the signal \<^verbatim>\<open>SIGBUS\<close>.\<close>

fun shm_client :: "segment_pc set \<Rightarrow> (segment, segment_pc) process" where
  "shm_client bad G_open k = Some (k, if G_open \<in> bad \<or> \<not> g_name k then G_exit 1 else G_map)"
| "shm_client bad G_map k = Some (k, if G_map \<in> bad then G_exit 1 else G_read)"
| "shm_client bad G_read k = Some
     (if g_sized k then (k\<lparr>gclient_out := gclient_out k @ [g_text k]\<rparr>, G_write) else (k, G_sigbus))"
| "shm_client bad G_write k = Some (k\<lparr>g_text := ''Hello!''\<rparr>, G_report)"
| "shm_client bad G_report k = Some (k\<lparr>gclient_out := gclient_out k @ [g_text k]\<rparr>, G_exit 0)"
| "shm_client bad q k = None"

definition shm_start :: "segment \<times> segment_pc \<times> segment_pc" where
  "shm_start = (\<lparr>g_name = False, g_sized = False, g_text = [], gserver_out = [], gclient_out = []\<rparr>, G_open, G_open)"

definition shm_ready :: "segment \<times> segment_pc \<times> segment_pc" where
  "shm_ready = (\<lparr>g_name = True, g_sized = True, g_text = ''Hi!'', gserver_out = [], gclient_out = []\<rparr>, G_report, G_open)"

text \<open>
  The greeting and the reply are seen; or only the reply, the client having looked too early; or the client
  gave up or crashed; or its reply was written over by the greeting and the server polls for ever.
\<close>

fun shm_done :: "segment \<times> segment_pc \<times> segment_pc \<Rightarrow> bool" where
  "shm_done (k, p, q) \<longleftrightarrow> p = G_exit 0 \<and> q = G_exit 0 \<and> hd (gclient_out k) = ''Hi!''
     \<and> last (gserver_out k) = ''Hello!'' \<and> \<not> g_name k"

fun shm_unread :: "segment \<times> segment_pc \<times> segment_pc \<Rightarrow> bool" where
  "shm_unread (k, p, q) \<longleftrightarrow> p = G_exit 0 \<and> q = G_exit 0 \<and> hd (gclient_out k) = []
     \<and> last (gserver_out k) = ''Hello!'' \<and> \<not> g_name k"

fun shm_left :: "segment \<times> segment_pc \<times> segment_pc \<Rightarrow> bool" where
  "shm_left (k, p, q) \<longleftrightarrow> p = G_poll \<and> q \<in> {G_exit 1, G_sigbus} \<and> g_text k = ''Hi!''"

fun shm_lost :: "segment \<times> segment_pc \<times> segment_pc \<Rightarrow> bool" where
  "shm_lost (k, p, q) \<longleftrightarrow> p = G_poll \<and> q = G_exit 0 \<and> hd (gclient_out k) = [] \<and> g_text k = ''Hi!''"

section \<open>System V shared memory\<close>

text \<open>The segment has its size from the start, and is zero when it is made; it has a key instead of a name.\<close>

record vsegment =
  h_exists :: bool
  h_text :: string
  hserver_out :: "string list"
  hclient_out :: "string list"

datatype vshm_pc = H_ftok | H_get | H_at | H_write | H_poll | H_read | H_dt | H_ctl | H_exit int

text \<open>\<^verbatim>\<open>server.c\<close>: every failure ends it; no exit removes the segment but the last.\<close>

fun vshm_server :: "vshm_pc set \<Rightarrow> (vsegment, vshm_pc) process" where
  "vshm_server bad H_ftok k = Some (k, if H_ftok \<in> bad then H_exit 1 else H_get)"
| "vshm_server bad H_get k = Some (if H_get \<in> bad then (k, H_exit 1) else (k\<lparr>h_exists := True\<rparr>, H_at))"
| "vshm_server bad H_at k = Some (k, if H_at \<in> bad then H_exit 1 else H_write)"
| "vshm_server bad H_write k = Some (k\<lparr>h_text := ''Hi!''\<rparr>, H_poll)"
| "vshm_server bad H_poll k = (if h_text k = ''Hello!'' then Some (k, H_read) else None)"
| "vshm_server bad H_read k = Some (k\<lparr>hserver_out := hserver_out k @ [h_text k]\<rparr>, H_dt)"
| "vshm_server bad H_dt k = Some (k, if H_dt \<in> bad then H_exit 1 else H_ctl)"
| "vshm_server bad H_ctl k = Some (if H_ctl \<in> bad then (k, H_exit 1) else (k\<lparr>h_exists := False\<rparr>, H_exit 0))"
| "vshm_server bad (H_exit rc) k = None"

text \<open>\<^verbatim>\<open>client.c\<close>, which asks for the segment without \<^verbatim>\<open>IPC_CREAT\<close>.\<close>

fun vshm_client :: "vshm_pc set \<Rightarrow> (vsegment, vshm_pc) process" where
  "vshm_client bad H_ftok k = Some (k, if H_ftok \<in> bad then H_exit 1 else H_get)"
| "vshm_client bad H_get k = Some (k, if H_get \<in> bad \<or> \<not> h_exists k then H_exit 1 else H_at)"
| "vshm_client bad H_at k = Some (k, if H_at \<in> bad then H_exit 1 else H_read)"
| "vshm_client bad H_read k = Some (k\<lparr>hclient_out := hclient_out k @ [h_text k]\<rparr>, H_write)"
| "vshm_client bad H_write k = Some (k\<lparr>h_text := ''Hello!''\<rparr>, H_dt)"
| "vshm_client bad H_dt k = Some (k, H_exit (if H_dt \<in> bad then 1 else 0))"
| "vshm_client bad q k = None"

definition vshm_start :: "vsegment \<times> vshm_pc \<times> vshm_pc" where
  "vshm_start = (\<lparr>h_exists = False, h_text = [], hserver_out = [], hclient_out = []\<rparr>, H_ftok, H_ftok)"

text \<open>The client is started when the server has written.\<close>

definition vshm_ready :: "vsegment \<times> vshm_pc \<times> vshm_pc" where
  "vshm_ready = (\<lparr>h_exists = True, h_text = ''Hi!'', hserver_out = [], hclient_out = []\<rparr>, H_poll, H_ftok)"

fun vshm_done :: "vsegment \<times> vshm_pc \<times> vshm_pc \<Rightarrow> bool" where
  "vshm_done (k, p, q) \<longleftrightarrow> p = H_exit 0 \<and> q = H_exit 0 \<and> hclient_out k = [''Hi!''] \<and> hserver_out k = [''Hello!''] \<and> \<not> h_exists k"

fun vshm_unread :: "vsegment \<times> vshm_pc \<times> vshm_pc \<Rightarrow> bool" where
  "vshm_unread (k, p, q) \<longleftrightarrow> p = H_exit 0 \<and> q = H_exit 0 \<and> hclient_out k = [[]] \<and> hserver_out k = [''Hello!''] \<and> \<not> h_exists k"

fun vshm_left :: "vsegment \<times> vshm_pc \<times> vshm_pc \<Rightarrow> bool" where
  "vshm_left (k, p, q) \<longleftrightarrow> p = H_poll \<and> q = H_exit 1 \<and> h_text k = ''Hi!'' \<and> h_exists k"

fun vshm_lost :: "vsegment \<times> vshm_pc \<times> vshm_pc \<Rightarrow> bool" where
  "vshm_lost (k, p, q) \<longleftrightarrow> p = H_poll \<and> q = H_exit 0 \<and> hclient_out k = [[]] \<and> h_text k = ''Hi!'' \<and> h_exists k"

section \<open>A FIFO\<close>

text \<open>
  The readers and writers that have the FIFO open now and that have ever opened it: opening one side waits
  until the other side has been opened. Bytes are characters, the final NUL is one of them.
\<close>

record fifo =
  f_name :: bool
  f_readers :: nat
  f_writers :: nat
  f_reader_came :: bool
  f_writer_came :: bool
  f_data :: string
  fclient_out :: "string list"

datatype fifo_pc = F_make | F_open | F_opening | F_transfer | F_close | F_remove | F_exit int | F_sigpipe

text \<open>\<^verbatim>\<open>server.c\<close>: a failed \<^verbatim>\<open>mkfifo\<close>, also because the name exists, is reported and passed over.\<close>

fun fifo_server :: "fifo_pc set \<Rightarrow> (fifo, fifo_pc) process" where
  "fifo_server bad F_make k = Some (if F_make \<in> bad then k else k\<lparr>f_name := True\<rparr>, F_open)"
| "fifo_server bad F_open k = Some
     (if F_open \<in> bad \<or> \<not> f_name k then (k, F_exit 1)
      else (k\<lparr>f_writers := f_writers k + 1, f_writer_came := True\<rparr>, F_opening))"
| "fifo_server bad F_opening k = (if f_reader_came k then Some (k, F_transfer) else None)"
| "fifo_server bad F_transfer k = Some
     (if F_transfer \<in> bad then (k, F_close)
      else if f_readers k = 0 then (k, F_sigpipe)
      else (k\<lparr>f_data := f_data k @ ''Hi!'' @ [0]\<rparr>, F_close))"
| "fifo_server bad F_close k = Some (k\<lparr>f_writers := f_writers k - 1\<rparr>, F_exit 0)"
| "fifo_server bad p k = None"

text \<open>\<^verbatim>\<open>client.c\<close>: \<^verbatim>\<open>read\<close> waits while there is no data and a writer, and stores at most 99 bytes.\<close>

fun fifo_client :: "fifo_pc set \<Rightarrow> (fifo, fifo_pc) process" where
  "fifo_client bad F_open k = Some
     (if F_open \<in> bad \<or> \<not> f_name k then (k, F_exit 1)
      else (k\<lparr>f_readers := f_readers k + 1, f_reader_came := True\<rparr>, F_opening))"
| "fifo_client bad F_opening k = (if f_writer_came k then Some (k, F_transfer) else None)"
| "fifo_client bad F_transfer k =
     (if F_transfer \<in> bad then Some (k\<lparr>f_readers := f_readers k - 1\<rparr>, F_exit 1)
      else if f_data k = [] \<and> 0 < f_writers k then None
      else Some (k\<lparr>f_data := drop 99 (f_data k), fclient_out := fclient_out k @ [cstr (take 99 (f_data k))]\<rparr>, F_close))"
| "fifo_client bad F_close k = Some (k\<lparr>f_readers := f_readers k - 1\<rparr>, F_remove)"
| "fifo_client bad F_remove k = Some (if F_remove \<in> bad then k else k\<lparr>f_name := False\<rparr>, F_exit 0)"
| "fifo_client bad q k = None"

definition fifo_empty :: "bool \<Rightarrow> fifo" where
  "fifo_empty name = \<lparr>f_name = name, f_readers = 0, f_writers = 0, f_reader_came = False, f_writer_came = False,
     f_data = [], fclient_out = []\<rparr>"

definition fifo_start :: "fifo \<times> fifo_pc \<times> fifo_pc" where
  "fifo_start = (fifo_empty False, F_make, F_open)"

definition fifo_ready :: "fifo \<times> fifo_pc \<times> fifo_pc" where
  "fifo_ready = (fifo_empty True, F_open, F_open)"

fun fifo_done :: "fifo \<times> fifo_pc \<times> fifo_pc \<Rightarrow> bool" where
  "fifo_done (k, p, q) \<longleftrightarrow> p = F_exit 0 \<and> q = F_exit 0 \<and> fclient_out k = [''Hi!''] \<and> \<not> f_name k
     \<and> f_readers k = 0 \<and> f_writers k = 0"

fun fifo_left :: "fifo \<times> fifo_pc \<times> fifo_pc \<Rightarrow> bool" where
  "fifo_left (k, p, q) \<longleftrightarrow> p = F_opening \<and> q = F_exit 1 \<and> f_name k"

section \<open>A pipe\<close>

text \<open>
  \<^verbatim>\<open>hw12_pipe/part1/main.c\<close> after \<^verbatim>\<open>pipe\<close> and \<^verbatim>\<open>fork\<close> succeeded: both processes hold both ends. The server is
  the parent; \<^verbatim>\<open>wait(NULL)\<close> returns when the client has exited.
\<close>

record pipe_ends =
  sv_reads :: bool
  sv_writes :: bool
  cl_reads :: bool
  cl_writes :: bool
  p_data :: string
  p_exited :: bool
  pipe_out :: "string list"

datatype pipe_pc = P_close_other | P_transfer | P_wait | P_close | P_exit int | P_sigpipe

fun pipe_server :: "pipe_pc set \<Rightarrow> (pipe_ends, pipe_pc) process" where
  "pipe_server bad P_close_other k = Some (k\<lparr>sv_reads := False\<rparr>, P_transfer)"
| "pipe_server bad P_transfer k = Some
     (if P_transfer \<in> bad then (k, P_wait)
      else if \<not> cl_reads k \<and> \<not> sv_reads k then (k, P_sigpipe)
      else (k\<lparr>p_data := p_data k @ ''Hi'' @ [0]\<rparr>, P_wait))"
| "pipe_server bad P_wait k = (if p_exited k then Some (k, P_close) else None)"
| "pipe_server bad P_close k = Some (k\<lparr>sv_writes := False\<rparr>, P_exit 0)"
| "pipe_server bad p k = None"

fun pipe_client :: "pipe_pc set \<Rightarrow> (pipe_ends, pipe_pc) process" where
  "pipe_client bad P_close_other k = Some (k\<lparr>cl_writes := False\<rparr>, P_transfer)"
| "pipe_client bad P_transfer k =
     (if p_data k = [] \<and> (sv_writes k \<or> cl_writes k) then None
      else Some (k\<lparr>p_data := drop 10 (p_data k), pipe_out := pipe_out k @ [cstr (take 10 (p_data k))]\<rparr>, P_close))"
| "pipe_client bad P_close k = Some (k\<lparr>cl_reads := False, p_exited := True\<rparr>, P_exit 0)"
| "pipe_client bad q k = None"

definition pipe_start :: "pipe_ends \<times> pipe_pc \<times> pipe_pc" where
  "pipe_start = (\<lparr>sv_reads = True, sv_writes = True, cl_reads = True, cl_writes = True, p_data = [],
     p_exited = False, pipe_out = []\<rparr>, P_close_other, P_close_other)"

fun pipe_done :: "pipe_ends \<times> pipe_pc \<times> pipe_pc \<Rightarrow> bool" where
  "pipe_done (k, p, q) \<longleftrightarrow> p = P_exit 0 \<and> q = P_exit 0 \<and> pipe_out k = [''Hi''] \<and> p_data k = []
     \<and> \<not> (sv_reads k \<or> sv_writes k \<or> cl_reads k \<or> cl_writes k)"

text \<open>If the write fails, the client holds no write end, so only the server's end keeps its read waiting.\<close>

fun pipe_hangs :: "pipe_ends \<times> pipe_pc \<times> pipe_pc \<Rightarrow> bool" where
  "pipe_hangs (k, p, q) \<longleftrightarrow> p = P_wait \<and> q = P_transfer \<and> p_data k = [] \<and> sv_writes k"

section \<open>Exchanges\<close>

text \<open>A pair of processes that was explored from its start.\<close>

locale exchange =
  fixes sv :: "('k, 'p) process" and cl :: "('k, 'q) process" and start :: "'k \<times> 'p \<times> 'q"
    and good :: "'k \<times> 'p \<times> 'q \<Rightarrow> bool" and bound :: nat
  assumes explored: "explore sv cl good bound start"
begin

lemma ends: "every_run_ends sv cl good start"
  by (rule explore_sound [OF explored])

end

interpretation posix_any: exchange "posix_server {}" "posix_client {}" posix_start "\<lambda>s. posix_done s \<or> posix_left s" 11
  by unfold_locales (simp add: posix_start_def eval_nat_numeral)

interpretation posix: exchange "posix_server {}" "posix_client {}" posix_ready posix_done 11
  by unfold_locales (simp add: posix_ready_def eval_nat_numeral)

interpretation sysv_any: exchange "sysv_server {}" "sysv_client {}" sysv_start "\<lambda>s. sysv_done s \<or> sysv_left s" 11
  by unfold_locales (simp add: sysv_start_def eval_nat_numeral)

interpretation sysv: exchange "sysv_server {}" "sysv_client {}" sysv_ready sysv_done 11
  by unfold_locales (simp add: sysv_ready_def eval_nat_numeral)

interpretation fifo_any: exchange "fifo_server {}" "fifo_client {}" fifo_start "\<lambda>s. fifo_done s \<or> fifo_left s" 12
  by unfold_locales (simp add: fifo_start_def fifo_empty_def eval_nat_numeral cstr_Cons zero_char_def)

interpretation fifo: exchange "fifo_server {}" "fifo_client {}" fifo_ready fifo_done 12
  by unfold_locales (simp add: fifo_ready_def fifo_empty_def eval_nat_numeral cstr_Cons zero_char_def)

interpretation pipe: exchange "pipe_server {}" "pipe_client {}" pipe_start pipe_done 8
  by unfold_locales (simp add: pipe_start_def eval_nat_numeral cstr_Cons zero_char_def)

interpretation pipe_failed: exchange "pipe_server {P_transfer}" "pipe_client {}" pipe_start pipe_hangs 8
  by unfold_locales (simp add: pipe_start_def eval_nat_numeral cstr_Cons zero_char_def)

interpretation shm_any: exchange "shm_server {}" "shm_client {}" shm_start
    "\<lambda>s. shm_done s \<or> shm_unread s \<or> shm_left s \<or> shm_lost s" 14
  by unfold_locales (simp add: shm_start_def eval_nat_numeral)

interpretation shm: exchange "shm_server {}" "shm_client {}" shm_ready shm_done 14
  by unfold_locales (simp add: shm_ready_def eval_nat_numeral)

interpretation vshm_any: exchange "vshm_server {}" "vshm_client {}" vshm_start
    "\<lambda>s. vshm_done s \<or> vshm_unread s \<or> vshm_left s \<or> vshm_lost s" 15
  by unfold_locales (simp add: vshm_start_def eval_nat_numeral)

interpretation vshm: exchange "vshm_server {}" "vshm_client {}" vshm_ready vshm_done 15
  by unfold_locales (simp add: vshm_ready_def eval_nat_numeral)

section \<open>Properties\<close>

text \<open>A schedule by name: \<open>True\<close> is a step of the server, \<open>False\<close> one of the client.\<close>

fun follow :: "('k, 'p) process \<Rightarrow> ('k, 'q) process \<Rightarrow> bool list \<Rightarrow> 'k \<times> 'p \<times> 'q \<Rightarrow> ('k \<times> 'p \<times> 'q) option" where
  "follow sv cl [] s = Some s"
| "follow sv cl (b # bs) (k, p, q) =
     (if b then (case sv p k of None \<Rightarrow> None | Some (k', p') \<Rightarrow> follow sv cl bs (k', p', q))
      else (case cl q k of None \<Rightarrow> None | Some (k', q') \<Rightarrow> follow sv cl bs (k', p, q')))"

lemma pair_stepI:
  "sv p k = Some (k', p') \<Longrightarrow> pair_step sv cl (k, p, q) (k', p', q)"
  "cl q k = Some (k', q') \<Longrightarrow> pair_step sv cl (k, p, q) (k', p, q')"
  by (simp_all add: pair_step_def)

lemma follow_reaches: "follow sv cl bs s = Some t \<Longrightarrow> (pair_step sv cl)\<^sup>*\<^sup>* s t"
proof (induction bs arbitrary: s)
  case (Cons b bs)
  obtain k p q where s: "s = (k, p, q)" by (cases s)
  obtain u where "pair_step sv cl s u" "follow sv cl bs u = Some t"
    using Cons.prems unfolding s by (simp split: if_splits option.splits prod.splits) (blast intro: pair_stepI)+
  then show ?case using Cons.IH converse_rtranclp_into_rtranclp by metis
qed simp

lemma shm_reply_overwritten:
  "\<exists>t. (pair_step (shm_server {}) (shm_client {}))\<^sup>*\<^sup>* shm_start t \<and> moves (shm_server {}) (shm_client {}) t = [] \<and> shm_lost t"
proof -
  let ?bs = "[True, True, False, False, False, False, False, True, True, True]"
  obtain t where t: "follow (shm_server {}) (shm_client {}) ?bs shm_start = Some t"
    and l: "moves (shm_server {}) (shm_client {}) t = []" "shm_lost t"
    by (simp add: shm_start_def)
  show ?thesis using follow_reaches [OF t] l by blast
qed

lemma vshm_reply_overwritten:
  "\<exists>t. (pair_step (vshm_server {}) (vshm_client {}))\<^sup>*\<^sup>* vshm_start t \<and> moves (vshm_server {}) (vshm_client {}) t = [] \<and> vshm_lost t"
proof -
  let ?bs = "[True, True, False, False, False, False, False, False, True, True]"
  obtain t where t: "follow (vshm_server {}) (vshm_client {}) ?bs vshm_start = Some t"
    and l: "moves (vshm_server {}) (vshm_client {}) t = []" "vshm_lost t"
    by (simp add: vshm_start_def)
  show ?thesis using follow_reaches [OF t] l by blast
qed

text \<open>
  Claim C31. When the client is started after the server has made the object they share, every schedule of
  the six exercises ends after finitely many steps, and ends well: both processes exit with 0, the
  client has received the greeting and the server the reply (the FIFO and the pipe have no reply),
  and the names and descriptors are gone. No other calls fail.
\<close>

theorem exchanges_complete:
  "every_run_ends (posix_server {}) (posix_client {}) posix_done posix_ready
   \<and> every_run_ends (sysv_server {}) (sysv_client {}) sysv_done sysv_ready
   \<and> every_run_ends (shm_server {}) (shm_client {}) shm_done shm_ready
   \<and> every_run_ends (vshm_server {}) (vshm_client {}) vshm_done vshm_ready
   \<and> every_run_ends (fifo_server {}) (fifo_client {}) fifo_done fifo_ready
   \<and> every_run_ends (pipe_server {}) (pipe_client {}) pipe_done pipe_start"
  using posix.ends sysv.ends shm.ends vshm.ends fifo.ends pipe.ends by simp

text \<open>
  When client and server are started together, the client may come too early. With a queue or a
  FIFO it then exits with 1 and the server waits for ever, and there is no other bad end; with shared
  memory it may also (in the POSIX version) crash, print an empty greeting, or write a reply that the server's greeting
  replaces: in both versions that happens in some schedule, both messages are then lost and the server polls for ever.
  In the pipe a failed write leaves both waiting for each other.
\<close>

theorem early_clients:
  "every_run_ends (posix_server {}) (posix_client {}) (\<lambda>s. posix_done s \<or> posix_left s) posix_start
   \<and> every_run_ends (sysv_server {}) (sysv_client {}) (\<lambda>s. sysv_done s \<or> sysv_left s) sysv_start
   \<and> every_run_ends (fifo_server {}) (fifo_client {}) (\<lambda>s. fifo_done s \<or> fifo_left s) fifo_start
   \<and> every_run_ends (shm_server {}) (shm_client {}) (\<lambda>s. shm_done s \<or> shm_unread s \<or> shm_left s \<or> shm_lost s) shm_start
   \<and> (\<exists>t. (pair_step (shm_server {}) (shm_client {}))\<^sup>*\<^sup>* shm_start t
        \<and> moves (shm_server {}) (shm_client {}) t = [] \<and> shm_lost t)
   \<and> every_run_ends (vshm_server {}) (vshm_client {}) (\<lambda>s. vshm_done s \<or> vshm_unread s \<or> vshm_left s \<or> vshm_lost s) vshm_start
   \<and> (\<exists>t. (pair_step (vshm_server {}) (vshm_client {}))\<^sup>*\<^sup>* vshm_start t
        \<and> moves (vshm_server {}) (vshm_client {}) t = [] \<and> vshm_lost t)
   \<and> every_run_ends (pipe_server {P_transfer}) (pipe_client {}) pipe_hangs pipe_start"
  using posix_any.ends sysv_any.ends fifo_any.ends shm_any.ends shm_reply_overwritten vshm_any.ends vshm_reply_overwritten pipe_failed.ends by simp

end
