(* ===== verification/ForkTree.thy ===== *)
theory ForkTree
  imports CPrelude
begin

text \<open>
  Trees of processes: the exercises \<^verbatim>\<open>hw10_proc/p1\<close> and \<^verbatim>\<open>hw10_proc/p2\<close>. A program is the sequence of its calls, with
  the program of the child at each \<^verbatim>\<open>fork\<close>; the state is the tree of the processes, in which any process
  may take the next step. \<^verbatim>\<open>fork\<close> may fail at any time; the exercises do not look at its result but for the
  question whether they are the child, so a failed \<^verbatim>\<open>fork\<close> leaves \<^verbatim>\<open>-1\<close> where the pid is expected.
\<close>

section \<open>Programs and processes\<close>

text \<open>\<open>Wait (Some i)\<close> is \<^verbatim>\<open>waitpid\<close> for the pid of the \<open>i\<close>-th \<^verbatim>\<open>fork\<close> of the process, \<open>Wait None\<close> is \<^verbatim>\<open>wait\<close>.\<close>

datatype prog = Exit int | Say string prog | Say_status prog | Fork prog prog | Wait "nat option" prog

text \<open>
  A process: the rest of its program, its variable \<^verbatim>\<open>status\<close> (\<open>None\<close> before it is set) and a slot for each
  \<^verbatim>\<open>fork\<close>: a failure, a child, or a child that has been waited for.
\<close>

datatype process = Process prog "int option" "slot list"
and slot = Failed | Child process | Reaped process

fun exit_code :: "process \<Rightarrow> int option" where
  "exit_code (Process (Exit c) st cs) = Some c"
| "exit_code _ = None"

text \<open>The slot a call of \<open>Wait\<close> asks for: a pid, or any child, which is also what the pid \<^verbatim>\<open>-1\<close> means.\<close>

fun asks_any :: "nat option \<Rightarrow> slot list \<Rightarrow> bool" where
  "asks_any None cs \<longleftrightarrow> True"
| "asks_any (Some i) cs \<longleftrightarrow> cs ! i = Failed"

definition living :: "slot \<Rightarrow> bool" where
  "living s \<longleftrightarrow> (\<exists>p. s = Child p)"

datatype printed = Line string | Status "int option"

text \<open>\<^verbatim>\<open>WEXITSTATUS\<close> keeps the low eight bits of the code. A wait without a child to wait for fails at once.\<close>

inductive proc_step :: "process \<Rightarrow> printed list \<Rightarrow> process \<Rightarrow> bool" where
  say: "proc_step (Process (Say s p) st cs) [Line s] (Process p st cs)"
| say_status: "proc_step (Process (Say_status p) st cs) [Status st] (Process p st cs)"
| fork: "proc_step (Process (Fork q p) st cs) [] (Process p st (cs @ [Child (Process q None [])]))"
| fork_fails: "proc_step (Process (Fork q p) st cs) [] (Process p st (cs @ [Failed]))"
| reap: "i < length cs \<Longrightarrow> cs ! i = Child c \<Longrightarrow> exit_code c = Some rc \<Longrightarrow> w = Some i \<or> asks_any w cs
    \<Longrightarrow> proc_step (Process (Wait w p) st cs) [] (Process p (Some (rc mod 256)) (cs[i := Reaped c]))"
| no_child: "if asks_any w cs then \<forall>s\<in>set cs. \<not> living s else \<not> living (cs ! the w)
    \<Longrightarrow> proc_step (Process (Wait w p) st cs) [] (Process p st cs)"
| child: "i < length cs \<Longrightarrow> cs ! i = Child c \<Longrightarrow> proc_step c out c'
    \<Longrightarrow> proc_step (Process p st cs) out (Process p st (cs[i := Child c']))"
| orphan: "i < length cs \<Longrightarrow> cs ! i = Reaped c \<Longrightarrow> proc_step c out c'
    \<Longrightarrow> proc_step (Process p st cs) out (Process p st (cs[i := Reaped c']))"

text \<open>Runs, with what has been printed.\<close>

inductive runs :: "process \<Rightarrow> printed list \<Rightarrow> process \<Rightarrow> bool" where
  start: "runs s [] s"
| step: "runs s out t \<Longrightarrow> proc_step t out' u \<Longrightarrow> runs s (out @ out') u"

definition launch :: "prog \<Rightarrow> process" where
  "launch p = Process p None []"

section \<open>The exercises\<close>

definition hw10_p1 :: prog where
  "hw10_p1 = Fork (Say ''Child'' (Exit 5)) (Say ''Parent'' (Wait None (Say_status (Exit 0))))"

definition proc1 :: prog where
  "proc1 = Fork (Say ''Proc3'' (Exit 3)) (Fork (Say ''Proc4'' (Exit 4))
     (Say ''Proc1'' (Wait (Some 0) (Wait (Some 1) (Exit 1)))))"

definition proc2 :: prog where
  "proc2 = Fork (Say ''Proc5'' (Exit 5)) (Say ''Proc2'' (Wait (Some 0) (Exit 2)))"

definition hw10_p2 :: prog where
  "hw10_p2 = Fork proc1 (Fork proc2 (Say ''Parent'' (Wait (Some 0) (Wait (Some 1) (Exit 0)))))"

section \<open>Programs that wait for their children\<close>

text \<open>
  \<open>waits_all p n W\<close>: a process with \<open>n\<close> slots that has waited for those in \<open>W\<close> and goes on with \<open>p\<close> will have
  waited for all when it exits, and so will its children.
\<close>

fun waits_all :: "prog \<Rightarrow> nat \<Rightarrow> nat set \<Rightarrow> bool" where
  "waits_all (Exit c) n W \<longleftrightarrow> {..<n} \<subseteq> W"
| "waits_all (Say s p) n W \<longleftrightarrow> waits_all p n W"
| "waits_all (Say_status p) n W \<longleftrightarrow> waits_all p n W"
| "waits_all (Fork q p) n W \<longleftrightarrow> waits_all q 0 {} \<and> waits_all p (Suc n) W"
| "waits_all (Wait None p) n W \<longleftrightarrow> waits_all p n (if n = 1 then {0} else W)"
| "waits_all (Wait (Some i) p) n W \<longleftrightarrow> i < n \<and> waits_all p n (insert i W)"

text \<open>A tree of such processes; the processes that have been waited for have exited.\<close>

fun orderly :: "process \<Rightarrow> bool" and slot_orderly :: "slot \<Rightarrow> bool" where
  "orderly (Process p st cs) \<longleftrightarrow>
     (\<exists>W. waits_all p (length cs) W \<and> (\<forall>i\<in>W. i < length cs \<and> \<not> living (cs ! i))) \<and> list_all slot_orderly cs"
| "slot_orderly Failed \<longleftrightarrow> True"
| "slot_orderly (Child c) \<longleftrightarrow> orderly c"
| "slot_orderly (Reaped c) \<longleftrightarrow> orderly c \<and> exit_code c \<noteq> None"

text \<open>All processes of the tree have exited, and all but the root have been waited for.\<close>

fun all_reaped :: "process \<Rightarrow> bool" and slot_reaped :: "slot \<Rightarrow> bool" where
  "all_reaped (Process p st cs) \<longleftrightarrow> (\<exists>c. p = Exit c) \<and> list_all slot_reaped cs"
| "slot_reaped Failed \<longleftrightarrow> True"
| "slot_reaped (Child c) \<longleftrightarrow> False"
| "slot_reaped (Reaped c) \<longleftrightarrow> all_reaped c"

lemma slot_orderly_eq: "slot_orderly s \<longleftrightarrow> (case s of Failed \<Rightarrow> True | Child c \<Rightarrow> orderly c
    | Reaped c \<Rightarrow> orderly c \<and> exit_code c \<noteq> None)"
  by (cases s) auto

lemma slot_at: "list_all slot_orderly cs \<Longrightarrow> i < length cs \<Longrightarrow> slot_orderly (cs ! i)"
  by (simp add: list_all_length)

lemma slots_update: "list_all slot_orderly cs \<Longrightarrow> slot_orderly s \<Longrightarrow> list_all slot_orderly (cs[i := s])"
  by (auto simp: list_all_iff dest: set_update_subset_insert [THEN subsetD])

lemma living_simps [simp]: "\<not> living Failed" "living (Child c)" "\<not> living (Reaped c)"
  by (simp_all add: living_def)

lemma proc_step_exit: "proc_step s out t \<Longrightarrow> exit_code s \<noteq> None \<Longrightarrow> exit_code t = exit_code s"
  by (induction rule: proc_step.induct) (auto elim: exit_code.elims)

lemma orderly_step: "proc_step s out t \<Longrightarrow> orderly s \<Longrightarrow> orderly t"
proof (induction rule: proc_step.induct)
  case (fork q p st cs)
  then obtain W where W: "waits_all q 0 {}" "waits_all p (Suc (length cs)) W"
    "\<forall>i\<in>W. i < length cs \<and> \<not> living (cs ! i)" "list_all slot_orderly cs" by auto
  have "\<forall>i\<in>W. i < Suc (length cs) \<and> \<not> living ((cs @ [Child (Process q None [])]) ! i)"
    using W(3) by (auto simp: nth_append)
  then show ?case using W by auto
next
  case (fork_fails q p st cs)
  then obtain W where W: "waits_all p (Suc (length cs)) W"
    "\<forall>i\<in>W. i < length cs \<and> \<not> living (cs ! i)" "list_all slot_orderly cs" by auto
  have "\<forall>i\<in>W. i < Suc (length cs) \<and> \<not> living ((cs @ [Failed]) ! i)"
    using W(2) by (auto simp: nth_append)
  then show ?case using W by auto
next
  case (reap i cs c rc w p st)
  then obtain W where W: "waits_all (Wait w p) (length cs) W"
    "\<forall>i\<in>W. i < length cs \<and> \<not> living (cs ! i)" "list_all slot_orderly cs" by auto
  let ?cs = "cs[i := Reaped c]"
  have "slot_orderly (Reaped c)" using slot_at [OF W(3) reap(1)] reap(2,3) by simp
  then have s: "list_all slot_orderly ?cs" by (rule slots_update [OF W(3)])
  have l: "\<not> living (?cs ! j)" if "j = i \<or> \<not> living (cs ! j)" "j < length cs" for j
    using that reap(1) by (cases "j = i") auto
  show ?case
  proof (cases w)
    case None
    show ?thesis
    proof (cases "length cs = 1")
      case True
      then show ?thesis using W None s l [of 0] reap(1) by (auto intro!: exI [of _ "{0}"])
    next
      case False
      then show ?thesis using W None s l by (auto intro!: exI [of _ W])
    qed
  next
    case (Some j)
    have "j < length cs" "waits_all p (length cs) (insert j W)" using W(1) Some by auto
    moreover have "j = i \<or> \<not> living (cs ! j)" using reap(4) Some by auto
    ultimately show ?thesis using W(2) s l by (auto intro!: exI [of _ "insert j W"])
  qed
next
  case (no_child w cs p st)
  then obtain W where W: "waits_all (Wait w p) (length cs) W"
    "\<forall>i\<in>W. i < length cs \<and> \<not> living (cs ! i)" "list_all slot_orderly cs" by auto
  show ?case
  proof (cases w)
    case None
    then have "\<not> living (cs ! 0)" if "length cs = 1" using no_child that by (cases cs) auto
    then show ?thesis using W None
      by (auto intro!: exI [of _ "if length cs = 1 then {0} else W"] split: if_splits)
  next
    case (Some j)
    then have "j < length cs" "waits_all p (length cs) (insert j W)" using W(1) by auto
    moreover have "\<not> living (cs ! j)"
      using no_child Some \<open>j < length cs\<close> by (auto split: if_splits)
    ultimately show ?thesis using W(2,3) by (auto intro!: exI [of _ "insert j W"])
  qed
next
  case (child i cs c out c' p st)
  then obtain W where W: "waits_all p (length cs) W"
    "\<forall>i\<in>W. i < length cs \<and> \<not> living (cs ! i)" "list_all slot_orderly cs" by auto
  have "i \<notin> W" using W(2) child(2) by auto
  moreover have "list_all slot_orderly (cs[i := Child c'])"
    using slots_update [OF W(3), of "Child c'"] slot_at [OF W(3) child(1)] child by simp
  ultimately show ?case using W by (auto intro!: exI [of _ W]) (metis nth_list_update_neq)+
next
  case (orphan i cs c out c' p st)
  then obtain W where W: "waits_all p (length cs) W"
    "\<forall>i\<in>W. i < length cs \<and> \<not> living (cs ! i)" "list_all slot_orderly cs" by auto
  have "list_all slot_orderly (cs[i := Reaped c'])"
    using slots_update [OF W(3), of "Reaped c'"] slot_at [OF W(3) orphan(1)] orphan proc_step_exit by simp
  then show ?case using W orphan(1) by (auto intro!: exI [of _ W]) (metis living_simps(3) nth_list_update)
qed auto

section \<open>Progress and termination\<close>

lemma all_reaped_exit: "all_reaped c \<Longrightarrow> \<exists>rc. exit_code c = Some rc"
  by (cases c) auto

lemma orderly_progress:
  "orderly s \<Longrightarrow> all_reaped s \<or> (\<exists>out t. proc_step s out t)"
  "slot_orderly x \<Longrightarrow> case x of Failed \<Rightarrow> True
     | Child c \<Rightarrow> all_reaped c \<or> (\<exists>out t. proc_step c out t)
     | Reaped c \<Rightarrow> all_reaped c \<or> (\<exists>out t. proc_step c out t)"
proof (induction s and x rule: orderly_slot_orderly.induct)
  case (1 p st cs)
  then obtain W where W: "waits_all p (length cs) W" "\<forall>i\<in>W. i < length cs \<and> \<not> living (cs ! i)" by auto
  let ?goal = "all_reaped (Process p st cs) \<or> (\<exists>out t. proc_step (Process p st cs) out t)"
  have slot: "case cs ! i of Failed \<Rightarrow> True
     | Child c \<Rightarrow> all_reaped c \<or> (\<exists>out t. proc_step c out t)
     | Reaped c \<Rightarrow> all_reaped c \<or> (\<exists>out t. proc_step c out t)" if "i < length cs" for i
    using 1 that by (auto simp: list_all_iff)
  have sub: ?goal if "i < length cs" "cs ! i = Child c \<or> cs ! i = Reaped c" "proc_step c out t" for i c out t
    using that proc_step.child [of i cs c out t p st] proc_step.orphan [of i cs c out t p st] by blast
  show ?case
  proof (cases p)
    case (Exit rc)
    have nl: "\<not> living (cs ! i)" if "i < length cs" for i using W Exit that by auto
    have "slot_reaped (cs ! i) \<or> (\<exists>c out t. cs ! i = Reaped c \<and> proc_step c out t)" if "i < length cs" for i
      using slot [OF that] nl [OF that] by (cases "cs ! i") auto
    then consider "\<forall>i<length cs. slot_reaped (cs ! i)"
      | i c out t where "i < length cs" "cs ! i = Reaped c" "proc_step c out t" by blast
    then show ?thesis using Exit sub by cases (auto simp: list_all_length)
  next
    case (Wait w p')
    have reaps: "\<exists>t. proc_step (Process p st cs) [] t" if "i < length cs" "cs ! i = Child c" "all_reaped c"
      "w = Some i \<or> asks_any w cs" for i c
      using all_reaped_exit [OF that(3)] proc_step.reap [OF that(1,2) _ that(4)] Wait by blast
    have go: ?goal if c: "i < length cs" "cs ! i = Child c" "w = Some i \<or> asks_any w cs" for i c
    proof -
      from slot [OF c(1)] c(2) consider "all_reaped c" | out t where "proc_step c out t" by auto
      then show ?thesis using reaps [OF c(1,2) _ c(3)] sub [OF c(1)] c(2) by cases blast+
    qed
    show ?thesis
    proof (cases "if asks_any w cs then \<forall>s\<in>set cs. \<not> living s else \<not> living (cs ! the w)")
      case True
      then show ?thesis using proc_step.no_child Wait by blast
    next
      case False
      then have "\<exists>i<length cs. living (cs ! i) \<and> (w = Some i \<or> asks_any w cs)"
        using W(1) Wait by (cases w) (auto simp: in_set_conv_nth split: if_splits)
      then show ?thesis using go by (auto simp: living_def)
    qed
  qed (use proc_step.intros in blast)+
qed auto

fun prog_weight :: "prog \<Rightarrow> nat" where
  "prog_weight (Exit c) = 0"
| "prog_weight (Say s p) = Suc (prog_weight p)"
| "prog_weight (Say_status p) = Suc (prog_weight p)"
| "prog_weight (Fork q p) = Suc (prog_weight q + prog_weight p)"
| "prog_weight (Wait w p) = Suc (prog_weight p)"

fun weight :: "process \<Rightarrow> nat" and slot_weight :: "slot \<Rightarrow> nat" where
  "weight (Process p st cs) = prog_weight p + sum_list (map slot_weight cs)"
| "slot_weight Failed = 0"
| "slot_weight (Child c) = weight c"
| "slot_weight (Reaped c) = weight c"

lemma sum_slots_update:
  assumes "i < length cs"
  shows "sum_list (map slot_weight (cs[i := x])) + slot_weight (cs ! i) = sum_list (map slot_weight cs) + slot_weight x"
  using assms
proof (induction cs arbitrary: i)
  case (Cons c cs)
  then show ?case by (cases i) auto
qed simp

lemma weight_step: "proc_step s out t \<Longrightarrow> weight t < weight s"
proof (induction rule: proc_step.induct)
  case (reap i cs c rc w p st)
  then show ?case using sum_slots_update [of i cs "Reaped c"] by simp
next
  case (child i cs c out c' p st)
  then show ?case using sum_slots_update [of i cs "Child c'"] by simp
next
  case (orphan i cs c out c' p st)
  then show ?case using sum_slots_update [of i cs "Reaped c'"] by simp
qed auto

interpretation tree: transition_system "\<lambda>s. \<exists>p. waits_all p 0 {} \<and> s = launch p" "\<lambda>s t. \<exists>out. proc_step s out t" orderly
  by unfold_locales (auto simp: launch_def dest: orderly_step)

lemma runs_steps: "runs s out t \<Longrightarrow> (\<lambda>s t. \<exists>out. proc_step s out t)\<^sup>*\<^sup>* s t"
  by (induction rule: runs.induct) (auto intro: rtranclp.rtrancl_into_rtrancl)

lemma no_endless_tree: "\<not> (\<forall>i. \<exists>out. proc_step (run i) out (run (Suc i)))"
proof
  assume "\<forall>i. \<exists>out. proc_step (run i) out (run (Suc i))"
  then have "weight (run (Suc i)) < weight (run i)" for i using weight_step by blast
  then have "(run (Suc i), run i) \<in> measure weight" for i by simp
  then show False using wf_measure [of weight] by (auto simp: wf_iff_no_infinite_down_chain)
qed

section \<open>The status that is printed\<close>

inductive_simps proc_steps [simp]:
  "proc_step (Process (Exit c) st cs) out t"
  "proc_step (Process (Say s p) st cs) out t"
  "proc_step (Process (Say_status p) st cs) out t"
  "proc_step (Process (Fork q p) st cs) out t"
  "proc_step (Process (Wait w p) st cs) out t"

fun statuses :: "printed list \<Rightarrow> int option list" where
  "statuses [] = []"
| "statuses (Status r # ps) = r # statuses ps"
| "statuses (Line s # ps) = statuses ps"

lemma statuses_append [simp]: "statuses (a @ b) = statuses a @ statuses b"
  by (induction a rule: statuses.induct) auto

text \<open>The states of the first exercise: the child's slot before the wait, and \<^verbatim>\<open>status\<close> with the slot after it.\<close>

definition p1_before :: "slot list" where
  "p1_before = [Failed, Child (Process (Say ''Child'' (Exit 5)) None []), Child (Process (Exit 5) None [])]"

definition p1_after :: "int option \<Rightarrow> slot \<Rightarrow> bool" where
  "p1_after st x \<longleftrightarrow> st = None \<and> x = Failed \<or> st = Some 5 \<and> x = Reaped (Process (Exit 5) None [])"

definition p1_inv :: "printed list \<Rightarrow> process \<Rightarrow> bool" where
  "p1_inv out t \<longleftrightarrow> t = launch hw10_p1 \<and> statuses out = []
     \<or> (\<exists>x\<in>set p1_before. t = Process (Say ''Parent'' (Wait None (Say_status (Exit 0)))) None [x] \<and> statuses out = [])
     \<or> (\<exists>x\<in>set p1_before. t = Process (Wait None (Say_status (Exit 0))) None [x] \<and> statuses out = [])
     \<or> (\<exists>st x. p1_after st x \<and> t = Process (Say_status (Exit 0)) st [x] \<and> statuses out = [])
     \<or> (\<exists>st x. p1_after st x \<and> t = Process (Exit 0) st [x] \<and> statuses out = [st])"

lemma p1_child:
  assumes "Child c \<in> set p1_before"
  shows "proc_step c o' c' \<Longrightarrow> Child c' \<in> set p1_before \<and> statuses o' = []"
    and "exit_code c = Some rc \<Longrightarrow> c = Process (Exit 5) None [] \<and> rc = 5"
  using assms by (auto simp: p1_before_def)

lemma p1_slots: "x \<in> set p1_before \<Longrightarrow> x \<noteq> Reaped c" "p1_after st x \<Longrightarrow> x \<noteq> Child c"
  "p1_after st (Reaped c) \<Longrightarrow> \<not> proc_step c o' c'"
  by (auto simp: p1_before_def p1_after_def)

lemma p1_step:
  assumes "p1_inv out s" "proc_step s o' t"
  shows "p1_inv (out @ o') t"
proof -
  from assms(1) consider "s = launch hw10_p1" "statuses out = []"
    | x where "x \<in> set p1_before" "s = Process (Say ''Parent'' (Wait None (Say_status (Exit 0)))) None [x]" "statuses out = []"
    | x where "x \<in> set p1_before" "s = Process (Wait None (Say_status (Exit 0))) None [x]" "statuses out = []"
    | st x where "p1_after st x" "s = Process (Say_status (Exit 0)) st [x]" "statuses out = []"
    | st x where "p1_after st x" "s = Process (Exit 0) st [x]" "statuses out = [st]"
    unfolding p1_inv_def by blast
  then show ?thesis
  proof cases
    case 1
    then show ?thesis using assms(2) by (auto simp: p1_inv_def launch_def hw10_p1_def p1_before_def)
  next
    case 2
    then show ?thesis using assms(2) p1_slots(1) [of x] p1_child(1) [of _ o'] by (fastforce simp: p1_inv_def)
  next
    case 3
    consider "x = Failed" | c where "x = Child c" using p1_slots(1) [OF 3(1)] by (cases x) auto
    then show ?thesis
    proof cases
      case 1
      then show ?thesis using assms(2) 3 by (auto simp: p1_inv_def p1_after_def)
    next
      case (2 c)
      then show ?thesis using assms(2) 3 p1_child(1) [of c o'] p1_child(2) [of c] by (fastforce simp: p1_inv_def p1_after_def)
    qed
  next
    case 4
    then show ?thesis using assms(2) p1_slots(2,3) by (fastforce simp: p1_inv_def)
  next
    case 5
    then show ?thesis using assms(2) p1_slots(2,3) by (fastforce simp: p1_inv_def)
  qed
qed

lemma p1_runs: "runs s out t \<Longrightarrow> s = launch hw10_p1 \<Longrightarrow> p1_inv out t"
  by (induction rule: runs.induct) (auto simp: p1_inv_def [of "[]"] intro: p1_step)

section \<open>Properties\<close>

lemma orderly_exit:
  "orderly s \<Longrightarrow> exit_code s \<noteq> None \<Longrightarrow> all_reaped s"
  "slot_orderly x \<Longrightarrow> \<not> living x \<Longrightarrow> slot_reaped x"
proof (induction s and x rule: orderly_slot_orderly.induct)
  case (1 p st cs)
  then obtain rc where p: "p = Exit rc" by (cases p) auto
  then have "\<not> living (cs ! i)" if "i < length cs" for i using 1 that by auto
  then show ?case using 1 p by (auto simp: list_all_length)
qed auto

lemma exercises_wait: "waits_all hw10_p1 0 {}" "waits_all hw10_p2 0 {}"
  by (auto simp: hw10_p1_def hw10_p2_def proc1_def proc2_def)

lemma launched_orderly: "waits_all p 0 {} \<Longrightarrow> runs (launch p) out t \<Longrightarrow> orderly t"
  using tree.steps_inv [OF runs_steps] tree.init_inv by blast

lemma p1_prints_garbage: "\<exists>t. runs (launch hw10_p1) [Line ''Parent'', Status None] t"
proof -
  let ?p = "\<lambda>p. Process p None [Failed]"
  have "runs (launch hw10_p1) ([] @ []) (?p (Say ''Parent'' (Wait None (Say_status (Exit 0)))))"
    by (rule runs.step [OF runs.start]) (simp add: launch_def hw10_p1_def)
  then have "runs (launch hw10_p1) (([] @ []) @ [Line ''Parent'']) (?p (Wait None (Say_status (Exit 0))))"
    by (rule runs.step) simp
  then have "runs (launch hw10_p1) ((([] @ []) @ [Line ''Parent'']) @ []) (?p (Say_status (Exit 0)))"
    by (rule runs.step) simp
  then have "runs (launch hw10_p1) (((([] @ []) @ [Line ''Parent'']) @ []) @ [Status None]) (?p (Exit 0))"
    by (rule runs.step) simp
  then show ?thesis by auto
qed

text \<open>
  Claim C33. In the two exercises, whichever calls of \<^verbatim>\<open>fork\<close> fail and in whatever order the processes run:
  there is no endless run and no process waits for ever, and when the first process has exited, all
  processes of its tree have exited and have been waited for, so there are neither orphans nor zombies.
  The first exercise prints the child's code 5, or, when its \<^verbatim>\<open>fork\<close> fails, the uninitialised status.
\<close>

theorem fork_exercises:
  assumes "p = hw10_p1 \<or> p = hw10_p2" "runs (launch p) out t"
  shows "(exit_code t \<noteq> None \<longrightarrow> all_reaped t) \<and> (exit_code t = None \<longrightarrow> (\<exists>out' u. proc_step t out' u))
    \<and> \<not> (\<exists>run. run 0 = t \<and> (\<forall>i. \<exists>out'. proc_step (run i) out' (run (Suc i))))
    \<and> (p = hw10_p1 \<longrightarrow> statuses out \<in> {[], [Some 5], [None]})
    \<and> (\<exists>t. runs (launch hw10_p1) [Line ''Parent'', Status None] t)"
proof (intro conjI impI p1_prints_garbage)
  have o: "orderly t" using launched_orderly [OF _ assms(2)] exercises_wait assms(1) by blast
  show "all_reaped t" if "exit_code t \<noteq> None" by (rule orderly_exit(1) [OF o that])
  show "\<exists>out' u. proc_step t out' u" if "exit_code t = None"
    using orderly_progress(1) [OF o] all_reaped_exit that by fastforce
  show "\<not> (\<exists>run. run 0 = t \<and> (\<forall>i. \<exists>out'. proc_step (run i) out' (run (Suc i))))"
    using no_endless_tree by blast
  show "statuses out \<in> {[], [Some 5], [None]}" if "p = hw10_p1"
    using p1_runs [OF assms(2)] that by (auto simp: p1_inv_def p1_after_def)
qed

theorem fork_exercises_witness:
  "runs (launch hw10_p2) [] (launch hw10_p2) \<and> (\<exists>out' u. proc_step (launch hw10_p2) out' u)"
  using fork_exercises [of hw10_p2 "[]" "launch hw10_p2"] runs.start by (auto simp: launch_def hw10_p2_def)

end
