(* ===== verification/Shell.thy ===== *)
theory Shell
  imports CText
begin

text \<open>
  The two command shells \<^verbatim>\<open>hw10_proc/p3_bash/main.c\<close> and \<^verbatim>\<open>hw12_pipe/part3/main.c\<close>: reading a line with
  \<^verbatim>\<open>fgets\<close>, splitting it into arguments with \<^verbatim>\<open>strtok\<close>, and starting one process or two processes
  joined by a pipe. A process is its descriptor table and its arguments; the results of \<^verbatim>\<open>fork\<close> and the
  child that \<^verbatim>\<open>wait(NULL)\<close> happens to reap come from outside, \<^verbatim>\<open>pipe\<close>, \<^verbatim>\<open>close\<close> and \<^verbatim>\<open>dup2\<close> act on the
  table as POSIX says: a new descriptor is the lowest free one.
\<close>

abbreviation MAX_ARGS :: nat where "MAX_ARGS \<equiv> 20"
abbreviation LINE_SIZE :: nat where "LINE_SIZE \<equiv> 100"

section \<open>Lines and arguments\<close>

text \<open>
  \<^verbatim>\<open>parser(input, args)\<close>: the loop over the tokens, then \<^verbatim>\<open>args[i] = NULL\<close>. The array keeps what it had
  after that; \<open>None\<close> is the null pointer.
\<close>

type_synonym args = "string option list"

fun parser_loop :: "string list \<Rightarrow> nat \<Rightarrow> args \<Rightarrow> args" where
  "parser_loop [] i a = a[i := None]"
| "parser_loop (t # ts) i a =
     (if i < MAX_ARGS - 1 then parser_loop ts (i + 1) (a[i := Some t]) else a[i := None])"

definition parser :: "string \<Rightarrow> args \<Rightarrow> args" where
  "parser input a = parser_loop (strtok_all (CHR '' '') input) 0 a"

text \<open>The argument vector \<^verbatim>\<open>execvp\<close> sees: the entries before the first null pointer.\<close>

definition argv :: "args \<Rightarrow> string list" where
  "argv a = map the (takeWhile (\<lambda>x. x \<noteq> None) a)"

section \<open>Descriptors\<close>

datatype fd_file = Terminal | Pipe_read nat | Pipe_write nat | Other_file nat

type_synonym fds = "fd_file option list"

definition fd_new :: "fd_file \<Rightarrow> fds \<Rightarrow> (nat \<times> fds) option" where
  "fd_new f t = (case first_index (\<lambda>x. x = None) t of None \<Rightarrow> None | Some i \<Rightarrow> Some (i, t[i := Some f]))"

text \<open>\<^verbatim>\<open>pipe(fd)\<close>: both ends, the read end first, or no change at all.\<close>

definition sys_pipe :: "nat \<Rightarrow> fds \<Rightarrow> (nat \<times> nat \<times> fds) option" where
  "sys_pipe p t = (case fd_new (Pipe_read p) t of None \<Rightarrow> None
     | Some (r, t') \<Rightarrow> (case fd_new (Pipe_write p) t' of None \<Rightarrow> None | Some (w, t'') \<Rightarrow> Some (r, w, t'')))"

definition sys_close :: "nat \<Rightarrow> fds \<Rightarrow> fds" where
  "sys_close i t = t[i := None]"

definition sys_dup2 :: "nat \<Rightarrow> nat \<Rightarrow> fds \<Rightarrow> fds" where
  "sys_dup2 i j t = t[j := t ! i]"

section \<open>Processes\<close>

record child =
  child_args :: args
  child_fds :: fds

text \<open>The shell: its table, the children it has not reaped, the argument arrays, the pipes made so far.\<close>

record shell =
  shell_fds :: fds
  unreaped :: "int list"
  args1 :: args
  args2 :: args
  next_pipe :: nat

record outside =
  fork1 :: int
  fork2 :: int
  reaped :: int

datatype sh_out = Started int child | Pipe_failed | Fork_failed | Waited int | Wait_any int

text \<open>What becomes of a child: the new program, or the message and \<^verbatim>\<open>exit(EXIT_FAILURE)\<close>.\<close>

datatype child_end = Execed "string list" fds | Command_not_found "string option"

definition child_exec :: "(string \<Rightarrow> bool) \<Rightarrow> child \<Rightarrow> child_end" where
  "child_exec runnable c = (case child_args c ! 0 of
       None \<Rightarrow> Command_not_found None
     | Some name \<Rightarrow> if runnable name then Execed (argv (child_args c)) (child_fds c)
                    else Command_not_found (Some name))"

definition child_left :: "nat \<Rightarrow> nat \<Rightarrow> fds \<Rightarrow> fds" where
  "child_left r w t = sys_close w (sys_dup2 w 1 (sys_close r t))"

definition child_right :: "nat \<Rightarrow> nat \<Rightarrow> fds \<Rightarrow> fds" where
  "child_right r w t = sys_close r (sys_dup2 r 0 (sys_close w t))"

text \<open>
  A command without \<^verbatim>\<open>|\<close>: \<^verbatim>\<open>fork\<close>; the parent, also when \<^verbatim>\<open>fork\<close> failed, calls \<^verbatim>\<open>wait(NULL)\<close>, which
  reaps one of the unreaped children (\<open>reaped\<close>) or fails when there is none.
\<close>

definition wait_any :: "outside \<Rightarrow> shell \<Rightarrow> shell \<times> sh_out list" where
  "wait_any e s = (if reaped e \<in> set (unreaped s)
     then (s\<lparr>unreaped := remove1 (reaped e) (unreaped s)\<rparr>, [Wait_any (reaped e)])
     else (s, [Wait_any (-1)]))"

definition run_simple :: "outside \<Rightarrow> string \<Rightarrow> shell \<Rightarrow> shell \<times> sh_out list" where
  "run_simple e input s = (let s = s\<lparr>args1 := parser input (args1 s)\<rparr> in
     if fork1 e < 0 then wait_any e s
     else (case wait_any e (s\<lparr>unreaped := fork1 e # unreaped s\<rparr>) of (s', out) \<Rightarrow>
       (s', Started (fork1 e) \<lparr>child_args = args1 s, child_fds = shell_fds s\<rparr> # out)))"

text \<open>A command with \<^verbatim>\<open>|\<close>: both failures of \<^verbatim>\<open>fork\<close> are \<^verbatim>\<open>continue\<close>.\<close>

definition run_pipe :: "outside \<Rightarrow> string \<Rightarrow> string \<Rightarrow> shell \<Rightarrow> shell \<times> sh_out list" where
  "run_pipe e cmd1 cmd2 s =
     (let cmd2 = dropWhile (\<lambda>c. c = CHR '' '') cmd2;
          s = s\<lparr>args1 := parser cmd1 (args1 s), args2 := parser cmd2 (args2 s)\<rparr>
      in case sys_pipe (next_pipe s) (shell_fds s) of
           None \<Rightarrow> (s, [Pipe_failed])
         | Some (r, w, t) \<Rightarrow>
             let s = s\<lparr>shell_fds := t, next_pipe := Suc (next_pipe s)\<rparr> in
             if fork1 e < 0 then (s, [Fork_failed])
             else let c1 = Started (fork1 e) \<lparr>child_args = args1 s, child_fds = child_left r w t\<rparr>;
                      s = s\<lparr>unreaped := fork1 e # unreaped s\<rparr> in
             if fork2 e < 0 then (s, [c1, Fork_failed])
             else let c2 = Started (fork2 e) \<lparr>child_args = args2 s, child_fds = child_right r w t\<rparr>;
                      s = s\<lparr>shell_fds := sys_close w (sys_close r t),
                            unreaped := remove1 (fork2 e) (remove1 (fork1 e) (fork2 e # unreaped s))\<rparr>
                  in (s, [c1, c2, Waited (fork1 e), Waited (fork2 e)]))"

text \<open>The body of the loop of \<^verbatim>\<open>hw12_pipe/part3\<close> for a line that is not \<^verbatim>\<open>exit\<close>: \<^verbatim>\<open>strchr(input, '|')\<close>.\<close>

definition run_line :: "outside \<Rightarrow> string \<Rightarrow> shell \<Rightarrow> shell \<times> sh_out list" where
  "run_line e input s =
     (if CHR ''|'' \<in> set input
      then run_pipe e (takeWhile (\<lambda>c. c \<noteq> CHR ''|'') input) (tl (dropWhile (\<lambda>c. c \<noteq> CHR ''|'') input)) s
      else run_simple e input s)"

text \<open>
  The loop of \<^verbatim>\<open>main\<close> in both programs, for the handler \<open>h\<close> of a line: end of input and the line
  \<^verbatim>\<open>exit\<close> end it. The result has the lines handled.
\<close>

partial_function (option) shell_loop ::
  "(outside \<Rightarrow> string \<Rightarrow> shell \<Rightarrow> shell \<times> sh_out list) \<Rightarrow> (nat \<Rightarrow> outside) \<Rightarrow> nat \<Rightarrow> string
     \<Rightarrow> shell \<Rightarrow> (shell \<times> sh_out list) option" where
  "shell_loop h env n stdin s =
     (case c_fgets LINE_SIZE stdin of
        None \<Rightarrow> Some (s, [])
      | Some (l, rest) \<Rightarrow>
          if chomp l = ''exit'' then Some (s, [])
          else (case h (env n) (chomp l) s of (s', out) \<Rightarrow>
            Option.bind (shell_loop h env (Suc n) rest s') (\<lambda>(s'', out'). Some (s'', out @ out'))))"

definition hw10_shell :: "(nat \<Rightarrow> outside) \<Rightarrow> string \<Rightarrow> shell \<Rightarrow> (shell \<times> sh_out list) option" where
  "hw10_shell env stdin s = shell_loop run_simple env 0 stdin s"

definition hw12_shell :: "(nat \<Rightarrow> outside) \<Rightarrow> string \<Rightarrow> shell \<Rightarrow> (shell \<times> sh_out list) option" where
  "hw12_shell env stdin s = shell_loop run_line env 0 stdin s"

section \<open>Arguments\<close>

lemma length_parser_loop [simp]: "length (parser_loop ts i a) = length a"
  by (induction ts i a rule: parser_loop.induct) auto

lemma length_parser [simp]: "length (parser input a) = length a"
  by (simp add: parser_def)

lemma stop_at:
  assumes "i < length a" "\<forall>j<i. a ! j \<noteq> None"
  shows "takeWhile (\<lambda>x. x \<noteq> None) (a[i := None]) = take i a"
proof -
  have "a[i := None] = take i a @ None # drop (Suc i) a"
    using assms(1) by (simp add: upd_conv_take_nth_drop)
  moreover have "\<forall>x\<in>set (take i a). x \<noteq> None"
    using assms by (auto simp: in_set_conv_nth)
  ultimately show ?thesis by simp
qed

lemma parser_loop_argv:
  assumes "length a = MAX_ARGS" "i < MAX_ARGS" "\<forall>j<i. a ! j \<noteq> None"
  shows "argv (parser_loop ts i a) = map the (take i a) @ take (MAX_ARGS - 1 - i) ts"
  using assms
proof (induction ts i a rule: parser_loop.induct)
  case (1 i a)
  then show ?case by (simp add: argv_def stop_at del: not_None_eq)
next
  case (2 t ts i a)
  show ?case
  proof (cases "i < MAX_ARGS - 1")
    case True
    have n: "\<forall>j<i + 1. a[i := Some t] ! j \<noteq> None" using 2 by (auto simp: nth_list_update)
    have t: "take (i + 1) (a[i := Some t]) = take i a @ [Some t]"
      using 2 True by (simp add: take_Suc_conv_app_nth)
    show ?thesis
      using "2.IH" [OF True] 2 True n t by (simp add: take_Cons')
  next
    case False
    then show ?thesis using 2 by (simp add: argv_def stop_at del: not_None_eq)
  qed
qed

lemma parser_argv: "length a = MAX_ARGS \<Longrightarrow> argv (parser input a) = take (MAX_ARGS - 1) (strtok_all (CHR '' '') input)"
  by (simp add: parser_def parser_loop_argv)

section \<open>Descriptors of a pipeline\<close>

lemma fd_newD:
  assumes "fd_new f t = Some (i, t')"
  shows "i < length t" "t ! i = None" "t' = t[i := Some f]"
  using assms by (auto simp: fd_new_def split: option.splits dest: first_index_SomeD)

lemma sys_pipeD:
  assumes "sys_pipe p t = Some (r, w, t')"
  shows "r < length t" "w < length t" "r \<noteq> w" "t ! r = None" "t ! w = None"
    "t' = t[r := Some (Pipe_read p), w := Some (Pipe_write p)]"
proof -
  obtain t1 where "fd_new (Pipe_read p) t = Some (r, t1)" "fd_new (Pipe_write p) t1 = Some (w, t')"
    using assms by (auto simp: sys_pipe_def split: option.splits)
  from fd_newD [OF this(1)] fd_newD [OF this(2)]
  show "r < length t" "w < length t" "r \<noteq> w" "t ! r = None" "t ! w = None"
    "t' = t[r := Some (Pipe_read p), w := Some (Pipe_write p)]"
    by (auto simp: nth_list_update split: if_splits)
qed

lemma sys_pipe_ends:
  assumes "sys_pipe p t = Some (r, w, t')" "t ! 0 \<noteq> None" "t ! 1 \<noteq> None"
  shows "sys_close w (sys_close r t') = t"
    and "child_left r w t' = t[1 := Some (Pipe_write p)]"
    and "child_right r w t' = t[0 := Some (Pipe_read p)]"
proof -
  note d = sys_pipeD [OF assms(1)]
  have n: "r \<noteq> 0" "r \<noteq> 1" "w \<noteq> 0" "w \<noteq> 1" using d assms(2,3) by metis+
  have "0 < length t" by (rule le_less_trans [OF _ d(1)]) simp
  note d = d this
  show "sys_close w (sys_close r t') = t"
    using d by (intro nth_equalityI) (auto simp: sys_close_def nth_list_update)
  show "child_left r w t' = t[1 := Some (Pipe_write p)]"
    using d n by (intro nth_equalityI) (auto simp: child_left_def sys_close_def sys_dup2_def nth_list_update)
  show "child_right r w t' = t[0 := Some (Pipe_read p)]"
    using d n by (intro nth_equalityI) (auto simp: child_right_def sys_close_def sys_dup2_def nth_list_update split: if_splits)
qed

section \<open>The loop\<close>

text \<open>The lines a shell handles: what \<^verbatim>\<open>fgets\<close> delivers, up to the end of input or \<^verbatim>\<open>exit\<close>.\<close>

function shell_lines :: "string \<Rightarrow> string list" where
  "shell_lines stdin = (case c_fgets LINE_SIZE stdin of None \<Rightarrow> []
     | Some (l, rest) \<Rightarrow> if chomp l = ''exit'' then [] else chomp l # shell_lines rest)"
  by pat_completeness auto
termination
  by (relation "measure length") (auto dest: c_fgets_shorter(1))

declare shell_lines.simps [simp del]

fun handle_lines :: "(outside \<Rightarrow> string \<Rightarrow> shell \<Rightarrow> shell \<times> sh_out list) \<Rightarrow> (nat \<Rightarrow> outside) \<Rightarrow> nat
    \<Rightarrow> string list \<Rightarrow> shell \<Rightarrow> shell \<times> sh_out list" where
  "handle_lines h env n [] s = (s, [])"
| "handle_lines h env n (l # ls) s = (case h (env n) l s of (s', out) \<Rightarrow>
     (case handle_lines h env (Suc n) ls s' of (s'', out') \<Rightarrow> (s'', out @ out')))"

lemma shell_loop_lines: "shell_loop h env n stdin s = Some (handle_lines h env n (shell_lines stdin) s)"
proof (induction stdin arbitrary: n s rule: shell_lines.induct)
  case (1 stdin)
  show ?case
    using 1 by (subst shell_loop.simps, subst shell_lines.simps) (simp split: option.split prod.split)
qed

text \<open>Lines that fit the buffer are delivered one by one.\<close>

definition short_line :: "string \<Rightarrow> bool" where
  "short_line l \<longleftrightarrow> length l < LINE_SIZE - 1 \<and> CHR 0x0A \<notin> set l \<and> 0 \<notin> set l"

lemma shell_lines_unlines:
  "\<forall>l\<in>set ls. short_line l \<Longrightarrow> shell_lines (unlines ls) = takeWhile (\<lambda>l. l \<noteq> ''exit'') ls"
proof (induction ls)
  case Nil
  show ?case by (subst shell_lines.simps) (simp add: unlines_def c_fgets_def)
next
  case (Cons l ls)
  have l: "short_line l" using Cons by simp
  have "c_fgets LINE_SIZE (unlines (l # ls)) = Some (l @ [CHR 0x0A], unlines ls)"
    using l by (intro c_fgets_unlines) (auto simp: short_line_def)
  moreover have "chomp (l @ [CHR 0x0A]) = l" using l by (intro chomp_line) (auto simp: short_line_def)
  ultimately show ?case
    using Cons by (subst shell_lines.simps) simp
qed

text \<open>
  A handler of lines keeps what it must keep of the shell as long as nothing fails outside; then the
  loop does.
\<close>

locale line_handler =
  fixes h :: "outside \<Rightarrow> string \<Rightarrow> shell \<Rightarrow> shell \<times> sh_out list"
    and fine :: "outside \<Rightarrow> bool" and tidy :: "shell \<Rightarrow> bool"
  assumes handle_tidy: "fine e \<Longrightarrow> tidy s \<Longrightarrow> tidy (fst (h e l s))"
begin

lemma lines_tidy: "\<forall>n. fine (env n) \<Longrightarrow> tidy s \<Longrightarrow> tidy (fst (handle_lines h env n ls s))"
proof (induction ls arbitrary: n s)
  case (Cons l ls)
  then show ?case
    using handle_tidy [of "env n" s l] by (simp add: case_prod_beta)
qed simp

lemma loop_tidy:
  "\<forall>n. fine (env n) \<Longrightarrow> tidy s \<Longrightarrow> \<exists>s' out. shell_loop h env n stdin s = Some (s', out) \<and> tidy s'"
  using lines_tidy [of env s n "shell_lines stdin"] by (metis prod.collapse shell_loop_lines)

end

text \<open>
  Nothing fails outside: the forks give two different positive numbers, and \<^verbatim>\<open>wait(NULL)\<close> reaps the
  child when it is the only one. The shell is tidy when it has its descriptors and no child is left.
\<close>

definition fine :: "outside \<Rightarrow> bool" where
  "fine e \<longleftrightarrow> 0 \<le> fork1 e \<and> 0 \<le> fork2 e \<and> fork1 e \<noteq> fork2 e \<and> reaped e = fork1 e"

definition tidy :: "fds \<Rightarrow> shell \<Rightarrow> bool" where
  "tidy t s \<longleftrightarrow> shell_fds s = t \<and> unreaped s = [] \<and> t ! 0 \<noteq> None \<and> t ! 1 \<noteq> None
     \<and> length (args1 s) = MAX_ARGS \<and> length (args2 s) = MAX_ARGS"

lemma run_simple_fine:
  assumes "fine e" "tidy t s"
  shows "run_simple e input s = (s\<lparr>args1 := parser input (args1 s)\<rparr>,
    [Started (fork1 e) \<lparr>child_args = parser input (args1 s), child_fds = t\<rparr>, Wait_any (fork1 e)])"
  using assms by (simp add: run_simple_def wait_any_def fine_def tidy_def Let_def)

lemma run_pipe_fine:
  assumes "fine e" "tidy t s"
  shows "run_pipe e cmd1 cmd2 s =
    (case sys_pipe (next_pipe s) t of None \<Rightarrow>
       (s\<lparr>args1 := parser cmd1 (args1 s), args2 := parser (dropWhile (\<lambda>c. c = CHR '' '') cmd2) (args2 s)\<rparr>,
        [Pipe_failed])
     | Some _ \<Rightarrow>
       (s\<lparr>args1 := parser cmd1 (args1 s), args2 := parser (dropWhile (\<lambda>c. c = CHR '' '') cmd2) (args2 s),
          next_pipe := Suc (next_pipe s)\<rparr>,
        [Started (fork1 e) \<lparr>child_args = parser cmd1 (args1 s),
           child_fds = t[1 := Some (Pipe_write (next_pipe s))]\<rparr>,
         Started (fork2 e) \<lparr>child_args = parser (dropWhile (\<lambda>c. c = CHR '' '') cmd2) (args2 s),
           child_fds = t[0 := Some (Pipe_read (next_pipe s))]\<rparr>,
         Waited (fork1 e), Waited (fork2 e)]))"
  using assms sys_pipe_ends [of "next_pipe s" t]
  by (auto simp: run_pipe_def fine_def tidy_def Let_def split: option.split)

interpretation simple_shell: line_handler run_simple fine "tidy t" for t
  by unfold_locales (simp add: run_simple_fine, simp add: tidy_def)

interpretation pipe_shell: line_handler run_line fine "tidy t" for t
proof
  fix e s l assume a: "fine e" "tidy t s"
  note run_simple_fine [OF this] run_pipe_fine [OF this]
  then show "tidy t (fst (run_line e l s))"
    using a by (simp add: run_line_def tidy_def split: option.split)
qed

section \<open>Properties\<close>

text \<open>
  Claim C29. A pipeline is wired correctly. With standard input and output open and no failure outside,
  the line \<open>a|b\<close> for which a pipe can be made starts two children: the left one has the first 19 words of
  \<open>a\<close> as arguments and the shell's descriptors except that its standard output is the write end, the right
  one has those of \<open>b\<close> and its standard input is the read end. No other descriptor of a child, and none of
  the shell, refers to the pipe, so the right command sees the end of its input when the left one ends; the
  shell has its old descriptors back and has reaped both children.
\<close>

theorem pipeline_wired:
  assumes "fine e" and "tidy t s" and "CHR ''|'' \<notin> set a"
    and "sys_pipe (next_pipe s) t \<noteq> None"
  shows "\<exists>s' l r. run_line e (a @ CHR ''|'' # b) s
      = (s', [Started (fork1 e) l, Started (fork2 e) r, Waited (fork1 e), Waited (fork2 e)])
    \<and> argv (child_args l) = take 19 (strtok_all (CHR '' '') a)
    \<and> argv (child_args r) = take 19 (strtok_all (CHR '' '') (dropWhile (\<lambda>c. c = CHR '' '') b))
    \<and> child_fds l = t[1 := Some (Pipe_write (next_pipe s))]
    \<and> child_fds r = t[0 := Some (Pipe_read (next_pipe s))]
    \<and> tidy t s'"
proof -
  have "takeWhile (\<lambda>c. c \<noteq> CHR ''|'') (a @ CHR ''|'' # b) = a"
    "dropWhile (\<lambda>c. c \<noteq> CHR ''|'') (a @ CHR ''|'' # b) = CHR ''|'' # b"
    using assms(3) by (auto simp: takeWhile_append2 dropWhile_append2 takeWhile_append dropWhile_append)
  moreover have "length (args1 s) = MAX_ARGS" "length (args2 s) = MAX_ARGS"
    using assms(2) by (simp_all add: tidy_def)
  ultimately show ?thesis
    using assms(2,4) by (auto simp: run_line_def run_pipe_fine [OF assms(1,2)] parser_argv tidy_def)
qed

definition demo_shell :: shell where
  "demo_shell = \<lparr>shell_fds = [Some Terminal, Some Terminal, Some Terminal, None, Some (Other_file 1), None],
     unreaped = [], args1 = replicate 20 None, args2 = replicate 20 None, next_pipe = 0\<rparr>"

definition demo_outside :: outside where
  "demo_outside = \<lparr>fork1 = 41, fork2 = 42, reaped = 41\<rparr>"

lemma demo_ok: "fine demo_outside" "tidy (shell_fds demo_shell) demo_shell"
  by (simp_all add: fine_def tidy_def demo_outside_def demo_shell_def)

theorem pipeline_wired_witness:
  "\<exists>s' l r. run_line demo_outside (''ls -l'' @ CHR ''|'' # '' wc'') demo_shell
      = (s', [Started 41 l, Started 42 r, Waited 41, Waited 42])
    \<and> child_fds l = [Some Terminal, Some (Pipe_write 0), Some Terminal, None, Some (Other_file 1), None]
    \<and> child_fds r = [Some (Pipe_read 0), Some Terminal, Some Terminal, None, Some (Other_file 1), None]"
  using pipeline_wired [OF demo_ok, of "''ls -l''" "'' wc''"]
  by (auto simp: demo_shell_def demo_outside_def sys_pipe_def fd_new_def)



text \<open>
  A failed \<^verbatim>\<open>fork\<close> in a pipeline costs the shell the two descriptors of the pipe, because both
  error paths are \<^verbatim>\<open>continue\<close> without \<^verbatim>\<open>close\<close>: two descriptors that were free hold the pipe's ends from
  then on. When it is the second \<^verbatim>\<open>fork\<close> that fails, the left child is also left unreaped.
\<close>

theorem failed_fork_leaks:
  assumes "sys_pipe (next_pipe s) (shell_fds s) = Some (r, w, t)" and "CHR ''|'' \<notin> set a"
    and "fork1 e < 0 \<or> fork2 e < 0"
  shows "shell_fds s ! r = None \<and> shell_fds s ! w = None \<and> r \<noteq> w
    \<and> shell_fds (fst (run_line e (a @ CHR ''|'' # b) s))
        = (shell_fds s)[r := Some (Pipe_read (next_pipe s)), w := Some (Pipe_write (next_pipe s))]
    \<and> unreaped (fst (run_line e (a @ CHR ''|'' # b) s))
        = (if fork1 e < 0 then unreaped s else fork1 e # unreaped s)"
proof -
  have "takeWhile (\<lambda>c. c \<noteq> CHR ''|'') (a @ CHR ''|'' # b) = a"
    "dropWhile (\<lambda>c. c \<noteq> CHR ''|'') (a @ CHR ''|'' # b) = CHR ''|'' # b"
    using assms(2) by (auto simp: takeWhile_append2 dropWhile_append2 takeWhile_append dropWhile_append)
  then show ?thesis
    using sys_pipeD [OF assms(1)] assms(1,3) by (auto simp: run_line_def run_pipe_def Let_def)
qed

theorem failed_fork_leaks_witness:
  "shell_fds (fst (run_line \<lparr>fork1 = 41, fork2 = -1, reaped = 0\<rparr> (''ls'' @ CHR ''|'' # ''wc'') demo_shell))
     = [Some Terminal, Some Terminal, Some Terminal, Some (Pipe_read 0), Some (Other_file 1), Some (Pipe_write 0)]"
  using failed_fork_leaks [of demo_shell 3 5 "(shell_fds demo_shell)[3 := Some (Pipe_read 0), 5 := Some (Pipe_write 0)]"
      "''ls''" "\<lparr>fork1 = 41, fork2 = -1, reaped = 0\<rparr>" "''wc''"]
  by (simp add: demo_shell_def sys_pipe_def fd_new_def)

end
