(* ===== verification/CharDev.thy ===== *)
theory CharDev
  imports CPrelude
begin

text \<open>
  The character device of \<^verbatim>\<open>hw20_modules_linux/p2/test2.c\<close>: the 16-byte string, its \<^verbatim>\<open>read\<close>, \<^verbatim>\<open>write\<close>
  and \<^verbatim>\<open>llseek\<close> operations, loading and unloading of the module, and processes that use it at the same time.
  The kernel is outside: a copy between user and kernel memory succeeds, or faults after some bytes;
  \<^verbatim>\<open>fixed_size_llseek\<close>, \<^verbatim>\<open>register_chrdev\<close> and \<^verbatim>\<open>unregister_chrdev\<close> are parameters. \<^verbatim>\<open>strlen\<close>, each copy and the final
  NUL are one step each. The file offset is not negative, as the kernel guarantees for the
  offsets it passes.
\<close>

abbreviation EFAULT :: int where "EFAULT \<equiv> 14"
abbreviation EINVAL :: int where "EINVAL \<equiv> 22"

section \<open>State and operations\<close>

record dev =
  test_string :: string
  major :: int

definition dev_start :: dev where
  "dev_start = \<lparr>test_string = ''Hello, World!'' @ [CHR 0x0A, CHR 0x00, CHR 0x00], major = 0\<rparr>"

text \<open>
  \<^verbatim>\<open>test_read\<close>: \<open>fault\<close> is the number of bytes after which \<^verbatim>\<open>copy_to_user\<close> faults, if it does. The result
  is the return value, the bytes that reached the user and the new offset.
\<close>

definition test_read :: "nat option \<Rightarrow> nat \<Rightarrow> nat \<Rightarrow> dev \<Rightarrow> int \<times> string \<times> nat" where
  "test_read fault want off d =
     (let len = strlen (test_string d) in
      if off \<ge> len then (0, [], off)
      else let want = (if want > len - off then len - off else want) in
        case fault of
          Some k \<Rightarrow> (- EFAULT, take (min k want) (drop off (test_string d)), off)
        | None \<Rightarrow> (int want, take want (drop off (test_string d)), off + want))"

text \<open>
  What \<^verbatim>\<open>copy_from_user\<close> does: it stores the user's bytes, or faults and leaves some bytes in the range it
  was to fill.
\<close>

datatype user_copy = Copied string | Faulted string

fun copied :: "user_copy \<Rightarrow> string" where
  "copied (Copied s) = s"
| "copied (Faulted s) = s"

definition test_write :: "user_copy \<Rightarrow> dev \<Rightarrow> int \<times> dev" where
  "test_write u d =
     (let n = length (copied u) in
      if n > 15 then (- EINVAL, d)
      else let d = d\<lparr>test_string := poke 0 (copied u) (test_string d)\<rparr> in
        case u of
          Faulted _ \<Rightarrow> (- EFAULT, d)
        | Copied _ \<Rightarrow> (int n, d\<lparr>test_string := poke n [CHR 0x00] (test_string d)\<rparr>))"

definition test_llseek :: "(nat \<Rightarrow> int \<Rightarrow> int \<Rightarrow> int \<Rightarrow> int) \<Rightarrow> nat \<Rightarrow> int \<Rightarrow> int \<Rightarrow> int" where
  "test_llseek fixed_size_llseek pos off whence = fixed_size_llseek pos off whence 15"

definition test_open :: int where "test_open = 0"

text \<open>\<^verbatim>\<open>test_init\<close>: the major number that \<^verbatim>\<open>register_chrdev\<close> returns, and the result of loading.\<close>

definition test_init :: "int \<Rightarrow> dev \<Rightarrow> int \<times> dev" where
  "test_init registered d = (let d = d\<lparr>major := registered\<rparr> in if major d < 0 then (major d, d) else (0, d))"

text \<open>The operations of \<^verbatim>\<open>fops\<close> as one step of an open file: its offset and the device.\<close>

datatype dev_op = Open | Read "nat option" nat | Write user_copy | Seek int int

definition dev_step :: "(nat \<Rightarrow> int \<Rightarrow> int \<Rightarrow> int \<Rightarrow> int) \<Rightarrow> dev_op \<Rightarrow> nat \<times> dev \<Rightarrow> (int \<times> string) \<times> nat \<times> dev" where
  "dev_step seek a st = (case (a, st) of
      (Open, _, d) \<Rightarrow> ((test_open, []), 0, d)
    | (Read fault want, off, d) \<Rightarrow> (case test_read fault want off d of (r, s, off') \<Rightarrow> ((r, s), off', d))
    | (Write u, off, d) \<Rightarrow> (case test_write u d of (r, d') \<Rightarrow> ((r, []), off, d'))
    | (Seek o' whence, off, d) \<Rightarrow> (let r = test_llseek seek off o' whence in
         ((r, []), if r < 0 then off else nat r, d)))"

fun dev_run :: "(nat \<Rightarrow> int \<Rightarrow> int \<Rightarrow> int \<Rightarrow> int) \<Rightarrow> dev_op list \<Rightarrow> nat \<times> dev \<Rightarrow> (int \<times> string) list \<times> nat \<times> dev" where
  "dev_run seek [] st = ([], st)"
| "dev_run seek (a # as) st = (case dev_step seek a st of (r, st') \<Rightarrow>
     (case dev_run seek as st' of (rs, st'') \<Rightarrow> (r # rs, st'')))"

section \<open>Invariant\<close>

text \<open>The buffer has 16 bytes and its last byte is never anything but NUL.\<close>

definition dev_inv :: "dev \<Rightarrow> bool" where
  "dev_inv d \<longleftrightarrow> length (test_string d) = 16 \<and> test_string d ! 15 = 0"

lemma dev_inv_terminated: "dev_inv d \<Longrightarrow> terminated (test_string d) \<and> strlen (test_string d) \<le> 15"
proof -
  assume i: "dev_inv d"
  then have t: "terminated (test_string d)" using nth_mem [of 15 "test_string d"] by (simp add: dev_inv_def terminated_def)
  have "\<not> 15 < strlen (test_string d)"
  proof
    assume "15 < strlen (test_string d)"
    then have "test_string d ! 15 = cstr (test_string d) ! 15" "15 < length (cstr (test_string d))"
      by (simp_all add: cstr_def takeWhile_nth)
    then show False using i by (metis cstr_no_zero dev_inv_def nth_mem)
  qed
  then show ?thesis using t by simp
qed

lemma test_write_inv: "dev_inv d \<Longrightarrow> dev_inv (snd (test_write u d))"
  by (auto simp: test_write_def dev_inv_def Let_def nth_poke zero_char_def split: user_copy.split)

lemma dev_step_inv: "dev_inv d \<Longrightarrow> dev_inv (snd (snd (dev_step seek a (off, d))))"
  using test_write_inv [of d]
  by (auto simp: dev_step_def Let_def split: dev_op.split prod.split) (metis snd_conv)

lemma dev_run_inv: "dev_inv (snd st) \<Longrightarrow> dev_inv (snd (snd (dev_run seek as st)))"
proof (induction as arbitrary: st)
  case (Cons a as)
  then show ?case using dev_step_inv [of "snd st" seek a "fst st"] by (simp add: case_prod_beta)
qed simp

section \<open>Reading back\<close>

lemma test_write_copied:
  assumes "length (test_string d) = 16" "length s \<le> 15" "0 \<notin> set s"
  shows "cstr (test_string (snd (test_write (Copied s) d))) = s" "fst (test_write (Copied s) d) = int (length s)"
proof -
  let ?b = "poke (length s) [CHR 0x00] (poke 0 s (test_string d))"
  have "?b = s @ 0 # drop (Suc (length s)) (test_string d)"
    by (simp add: poke_def zero_char_def)
  then have "cstr ?b = s" using assms(3) by (simp add: cstr_append_zero)
  then show "cstr (test_string (snd (test_write (Copied s) d))) = s"
    "fst (test_write (Copied s) d) = int (length s)"
    using assms(2) by (simp_all add: test_write_def Let_def)
qed

text \<open>The bytes delivered by reads of the given sizes, one after the other, none of which faults.\<close>

fun read_chunks :: "nat list \<Rightarrow> nat \<Rightarrow> dev \<Rightarrow> string" where
  "read_chunks [] off d = []"
| "read_chunks (n # ns) off d = (case test_read None n off d of (r, s, off') \<Rightarrow> s @ read_chunks ns off' d)"

lemma take_drop_cstr: "off + n \<le> strlen b \<Longrightarrow> take n (drop off b) = take n (drop off (cstr b))"
proof -
  assume a: "off + n \<le> strlen b"
  have "b = cstr b @ dropWhile (\<lambda>c. c \<noteq> 0) b" by (simp add: cstr_def)
  then have "take n (drop off b) = take n (drop off (cstr b @ dropWhile (\<lambda>c. c \<noteq> 0) b))" by (rule arg_cong)
  also have "\<dots> = take n (drop off (cstr b))" using a by (simp add: take_add)
  finally show ?thesis .
qed

lemma read_chunks_take:
  "off \<le> strlen (test_string d) \<Longrightarrow>
   read_chunks ns off d = take (sum_list ns) (drop off (cstr (test_string d)))"
proof (induction ns arbitrary: off)
  case (Cons n ns)
  let ?c = "cstr (test_string d)"
  show ?case
  proof (cases "off = length ?c")
    case True
    then show ?thesis using Cons.IH [of off] by (simp add: test_read_def)
  next
    case False
    let ?m = "min n (length ?c - off)"
    have r: "test_read None n off d = (int ?m, take ?m (drop off ?c), off + ?m)"
      using False Cons.prems take_drop_cstr [of off ?m "test_string d"]
      by (auto simp: test_read_def Let_def min_def)
    have "take (n + sum_list ns) (drop off ?c) = take n (drop off ?c) @ take (sum_list ns) (drop (off + n) ?c)"
      by (simp add: take_add add.commute)
    then show ?thesis
      using r Cons.IH [of "off + ?m"] Cons.prems by (cases "n \<le> length ?c - off") auto
  qed
qed simp

section \<open>The module in the kernel\<close>

text \<open>
  Loading and unloading: \<open>reg\<close> and \<open>unreg\<close> are \<^verbatim>\<open>register_chrdev\<close> with major number 0 and
  \<^verbatim>\<open>unregister_chrdev\<close> on the state \<open>k\<close> of the kernel; the messages are those of \<^verbatim>\<open>pr_info\<close> and \<^verbatim>\<open>pr_err\<close>.
\<close>

datatype kmsg = Loading | Register_failed | Major_number int | Unloaded

definition load_test :: "(string \<Rightarrow> 'k \<Rightarrow> int \<times> 'k) \<Rightarrow> 'k \<times> dev \<Rightarrow> (int \<times> kmsg list) \<times> 'k \<times> dev" where
  "load_test reg s = (case s of (k, d) \<Rightarrow> case reg ''test2'' k of (r, k') \<Rightarrow> case test_init r d of (res, d') \<Rightarrow>
     ((res, if res < 0 then [Loading, Register_failed] else [Loading, Major_number (major d')]), k', d'))"

definition test_exit :: "(int \<Rightarrow> string \<Rightarrow> 'k \<Rightarrow> 'k) \<Rightarrow> 'k \<times> dev \<Rightarrow> kmsg list \<times> 'k" where
  "test_exit unreg s = (case s of (k, d) \<Rightarrow> ([Unloaded], unreg (major d) ''test2'' k))"

lemma test_write_major [simp]: "major (snd (test_write u d)) = major d"
  by (simp add: test_write_def Let_def split: user_copy.split)

lemma dev_step_major: "major (snd (snd (dev_step seek a st))) = major (snd st)"
proof -
  have "major d' = major d" if "test_write u d = (r, d')" for u d r d'
    using test_write_major [of u d] that by simp
  then show ?thesis by (auto simp: dev_step_def Let_def split: dev_op.split prod.split)
qed

lemma dev_run_major: "major (snd (snd (dev_run seek as st))) = major (snd st)"
  by (induction "as" arbitrary: st) (simp_all add: case_prod_beta dev_step_major)

text \<open>Unloading returns the number that loading got, whatever was done with the device in between.\<close>

lemma unload_undoes_load:
  assumes "\<And>name k r k'. reg name k = (r, k') \<Longrightarrow> 0 \<le> r \<Longrightarrow> unreg r name k' = k"
    and "load_test reg (k, d) = ((0, ms), k', d')"
  shows "test_exit unreg (k', snd (snd (dev_run seek as (off, d')))) = ([Unloaded], k)"
  using assms
  by (auto simp: load_test_def test_exit_def test_init_def dev_run_major Let_def split: prod.splits if_splits)

section \<open>Processes that share the device\<close>

text \<open>
  \<^verbatim>\<open>test_read\<close> measures the string before it takes the lock, so a write may come between the measure and the
  copy. \<open>reading\<close> has the offset and the size a process has measured, \<open>writing\<close> the process that holds the
  lock for writing and the size it has filled. An action is \<^verbatim>\<open>strlen\<close> with the tests after it, the copy to
  the user under the lock, the copy from the user, or the final NUL; it blocks while the lock is held.
  A finished call gives its return value and the bytes for the user.
\<close>

record shared =
  device :: dev
  reading :: "nat \<Rightarrow> (nat \<times> nat) option"
  writing :: "(nat \<times> nat) option"

datatype dev_act = Measure nat nat nat | Copy_out nat "nat option" | Fill nat user_copy | Seal nat

definition busy_in :: "nat \<Rightarrow> shared \<Rightarrow> bool" where
  "busy_in i s \<longleftrightarrow> reading s i \<noteq> None \<or> (case writing s of None \<Rightarrow> False | Some (j, _) \<Rightarrow> j = i)"

fun shared_act :: "dev_act \<Rightarrow> shared \<Rightarrow> ((int \<times> string) option \<times> shared) option" where
  "shared_act (Measure i off want) s =
     (let len = strlen (test_string (device s)) in
      if busy_in i s then None
      else if off \<ge> len then Some (Some (0, []), s)
      else Some (None, s\<lparr>reading := (reading s)(i \<mapsto> (off, if want > len - off then len - off else want))\<rparr>))"
| "shared_act (Copy_out i fault) s =
     (case (reading s i, writing s) of
        (Some (off, n), None) \<Rightarrow>
          Some (Some (case fault of
              Some k \<Rightarrow> (- EFAULT, take (min k n) (drop off (test_string (device s))))
            | None \<Rightarrow> (int n, take n (drop off (test_string (device s))))), s\<lparr>reading := (reading s)(i := None)\<rparr>)
      | _ \<Rightarrow> None)"
| "shared_act (Fill i u) s =
     (let n = length (copied u); d = device s in
      if busy_in i s then None
      else if n > 15 then Some (Some (- EINVAL, []), s)
      else if writing s \<noteq> None then None
      else let s = s\<lparr>device := d\<lparr>test_string := poke 0 (copied u) (test_string d)\<rparr>\<rparr> in
        case u of
          Faulted _ \<Rightarrow> Some (Some (- EFAULT, []), s)
        | Copied _ \<Rightarrow> Some (None, s\<lparr>writing := Some (i, n)\<rparr>))"
| "shared_act (Seal i) s =
     (let d = device s in case writing s of
        Some (j, n) \<Rightarrow>
          if j = i then Some (Some (int n, []),
            s\<lparr>device := d\<lparr>test_string := poke n [CHR 0x00] (test_string d)\<rparr>, writing := None\<rparr>)
          else None
      | None \<Rightarrow> None)"

fun shared_acts :: "dev_act list \<Rightarrow> shared \<Rightarrow> ((int \<times> string) list \<times> shared) option" where
  "shared_acts [] s = Some ([], s)"
| "shared_acts (a # as) s = (case shared_act a s of None \<Rightarrow> None | Some (r, s') \<Rightarrow>
     (case shared_acts as s' of None \<Rightarrow> None | Some (rs, s'') \<Rightarrow> Some (case r of None \<Rightarrow> rs | Some x \<Rightarrow> x # rs, s'')))"

definition shared_start :: "int \<Rightarrow> shared" where
  "shared_start registered =
     \<lparr>device = snd (test_init registered dev_start), reading = (\<lambda>_. None), writing = None\<rparr>"

text \<open>Without another process in between, the actions of a call are the operation.\<close>

lemma measure_copy_is_read:
  assumes "\<not> busy_in i s" "writing s = None"
    and "test_read fault want off (device s) = (r, out, off')"
  shows "shared_acts (if off \<ge> strlen (test_string (device s)) then [Measure i off want]
                   else [Measure i off want, Copy_out i fault]) s = Some ([(r, out)], s)"
proof -
  have "reading s i = None" using assms(1) unfolding busy_in_def by blast
  then have same: "(reading s)(i := None) = reading s" by auto
  show ?thesis
    using assms same by (auto simp: test_read_def Let_def split: option.splits if_splits)
qed

lemma fill_seal_is_write:
  assumes "\<not> busy_in i s" "writing s = None" and "test_write u (device s) = (r, d')"
  shows "shared_acts (case u of Copied c \<Rightarrow> if length c > 15 then [Fill i u] else [Fill i u, Seal i] | Faulted _ \<Rightarrow> [Fill i u]) s
       = Some ([(r, [])], s\<lparr>device := d'\<rparr>)"
  using assms by (cases u) (auto simp: test_write_def Let_def split: if_splits)

text \<open>What every action keeps: the string of the device, and measures that stay inside it.\<close>

definition shared_inv :: "shared \<Rightarrow> bool" where
  "shared_inv s \<longleftrightarrow> dev_inv (device s)
     \<and> (\<forall>i off n. reading s i = Some (off, n) \<longrightarrow> off + n \<le> 15)
     \<and> (\<forall>i n. writing s = Some (i, n) \<longrightarrow> n \<le> 15)"

lemma shared_start_inv: "shared_inv (shared_start registered)"
  by (simp add: shared_inv_def shared_start_def dev_inv_def test_init_def dev_start_def Let_def zero_char_def)

lemma dev_inv_poke:
  assumes "dev_inv d" "length b \<le> 15"
  shows "dev_inv (d\<lparr>test_string := poke 0 b (test_string d)\<rparr>)"
  using assms by (simp add: dev_inv_def nth_poke)

lemma dev_inv_seal:
  assumes "dev_inv d" "n \<le> 15"
  shows "dev_inv (d\<lparr>test_string := poke n [CHR 0x00] (test_string d)\<rparr>)"
  using assms by (auto simp: dev_inv_def nth_poke zero_char_def)

lemma shared_act_inv:
  assumes "shared_inv s" "shared_act a s = Some (r, s')"
  shows "shared_inv s'"
proof (cases a)
  case (Measure i off want)
  then show ?thesis
    using assms dev_inv_terminated [of "device s"]
    by (auto simp: shared_inv_def Let_def split: if_splits)
next
  case (Copy_out i fault)
  then show ?thesis using assms by (auto simp: shared_inv_def split: option.splits prod.splits if_splits)
next
  case (Fill i u)
  then show ?thesis
    using assms dev_inv_poke [of "device s" "copied u"]
    by (auto simp: shared_inv_def Let_def split: user_copy.splits if_splits)
next
  case (Seal i)
  then show ?thesis
    using assms dev_inv_seal [of "device s"]
    by (auto simp: shared_inv_def Let_def split: option.splits prod.splits if_splits)
qed

definition shared_step :: "shared \<Rightarrow> shared \<Rightarrow> bool" where
  "shared_step s s' \<longleftrightarrow> (\<exists>a r. shared_act a s = Some (r, s'))"

interpretation cdev: transition_system "\<lambda>s. \<exists>m. s = shared_start m" shared_step shared_inv
  by unfold_locales (auto simp: shared_step_def shared_start_inv dest: shared_act_inv)

lemma shared_acts_steps: "shared_acts as s = Some (rs, s') \<Longrightarrow> shared_step\<^sup>*\<^sup>* s s'"
proof (induction "as" arbitrary: s rs)
  case (Cons a as)
  then obtain r t rs' where "shared_act a s = Some (r, t)" "shared_acts as t = Some (rs', s')"
    by (auto split: option.splits prod.splits)
  then show ?case
    using Cons.IH by (meson converse_rtranclp_into_rtranclp shared_step_def)
qed simp

text \<open>
  A write between the measure and the copy: the reader gets the new string, its NUL and the rest of the
  old one, as many bytes as the old string had.
\<close>

lemma stale_bytes_read:
  "map_option fst (shared_acts [Measure 0 0 100, Fill 1 (Copied ''Hi''), Seal 1, Copy_out 0 None] (shared_start 240))
   = Some [(2, []), (14, ''Hi'' @ [CHR 0x00] @ ''lo, World!'' @ [CHR 0x0A])]"
  by (simp add: shared_start_def test_init_def dev_start_def busy_in_def Let_def poke_def cstr_def zero_char_def)

text \<open>
  Whatever programs do with the device, with or without faults in the copies and with any
  results of \<^verbatim>\<open>fixed_size_llseek\<close>, its string stays inside its 16 bytes and terminated: after loading and
  any operations the buffer has 16 bytes, the last of them NUL, and every read delivers at most 15 bytes.
\<close>

lemma device_string_well_formed:
  "dev_inv (snd (test_init registered dev_start))
   \<and> (\<forall>as off d. dev_inv d \<longrightarrow> (case dev_run seek as (off, d) of (_, _, d') \<Rightarrow> dev_inv d'
        \<and> terminated (test_string d')
        \<and> (\<forall>fault want o'. length (fst (snd (test_read fault want o' d'))) \<le> 15)))"
proof -
  have r: "length (fst (snd (test_read fault want o' d))) \<le> 15" if "dev_inv d" for fault want o' d
    using dev_inv_terminated [OF that]
    by (auto simp: test_read_def Let_def min_def split: option.split)
  have "dev_inv (snd (test_init registered dev_start))"
    by (simp add: dev_inv_def test_init_def dev_start_def Let_def zero_char_def)
  then show ?thesis
    using r dev_inv_terminated dev_run_inv [of "(_, _)" seek] by (simp add: case_prod_beta)
qed

text \<open>What a finished call returns and delivers.\<close>

lemma shared_act_out:
  assumes "shared_inv s" "shared_act a s = Some (Some (r, out), s')"
  shows "r \<le> 15 \<and> length out \<le> 15"
proof -
  have measured: "n \<le> 15" if "reading s i = Some (off, n)" for i off n
    using assms(1) that add_leD2 unfolding shared_inv_def by blast
  show ?thesis
    using assms
    by (cases a) (auto simp: shared_inv_def Let_def dest!: measured split: option.splits prod.splits if_splits user_copy.splits)
qed

lemma shared_acts_out:
  "shared_acts as s = Some (rs, s') \<Longrightarrow> shared_inv s \<Longrightarrow> \<forall>(r, out) \<in> set rs. r \<le> 15 \<and> length out \<le> 15"
proof (induction "as" arbitrary: s rs)
  case (Cons a as)
  then obtain r t rs' where a: "shared_act a s = Some (r, t)" and as': "shared_acts as t = Some (rs', s')"
    and rs: "rs = (case r of None \<Rightarrow> rs' | Some x \<Rightarrow> x # rs')"
    by (auto split: option.splits prod.splits)
  then have "\<forall>(r, out) \<in> set rs'. r \<le> 15 \<and> length out \<le> 15"
    using Cons.IH [OF as'] shared_act_inv [OF Cons.prems(2) a] by blast
  then show ?case
    using rs a shared_act_out [OF Cons.prems(2)] by (cases r) auto
qed simp

section \<open>Properties\<close>

text \<open>
  Claim C35. Whatever processes do with the device at the same time, in any interleaving of their measures,
  copies and final NULs and with any faults, its string stays inside its 16 bytes and terminated, every
  measured copy lies inside the first 15 bytes when it is made, and every finished call returns at most 15
  and delivers at most 15 bytes.
\<close>

theorem device_shared_well_formed:
  assumes "shared_acts as (shared_start registered) = Some (rs, s)"
  shows "length (test_string (device s)) = 16 \<and> terminated (test_string (device s))
    \<and> (\<forall>i off n. reading s i = Some (off, n) \<longrightarrow> off + n \<le> 15)
    \<and> (\<forall>(r, out) \<in> set rs. r \<le> 15 \<and> length out \<le> 15)"
proof -
  have "cdev.reach s" using shared_acts_steps [OF assms] by (auto simp: cdev.reach_def)
  then have "shared_inv s" by (rule cdev.reach_inv)
  moreover have "\<forall>(r, out) \<in> set rs. r \<le> 15 \<and> length out \<le> 15"
    using shared_acts_out [OF assms shared_start_inv] .
  ultimately show ?thesis using dev_inv_terminated by (auto simp: shared_inv_def dev_inv_def)
qed

theorem device_shared_well_formed_witness:
  "\<exists>rs s. shared_acts [Measure 0 0 100, Fill 1 (Copied ''Hi''), Seal 1, Copy_out 0 None] (shared_start 240) = Some (rs, s)
     \<and> length (test_string (device s)) = 16 \<and> (\<forall>(r, out) \<in> set rs. r \<le> 15 \<and> length out \<le> 15)"
proof -
  obtain rs s where "shared_acts [Measure 0 0 100, Fill 1 (Copied ''Hi''), Seal 1, Copy_out 0 None] (shared_start 240)
      = Some (rs, s)"
    using stale_bytes_read by (auto simp del: shared_acts.simps)
  then show ?thesis using device_shared_well_formed by blast
qed

text \<open>
  Claim C36. What is written is read back: after a write of at most 15 bytes without NUL, reads from offset
  0 of any sizes that together ask for enough deliver exactly the bytes written, in order and once; longer
  writes are refused with \<^verbatim>\<open>-EINVAL\<close> and change nothing.
\<close>

theorem device_reads_back:
  assumes "dev_inv d" and "0 \<notin> set s" and "length s \<le> sum_list sizes"
  shows "(length s \<le> 15 \<longrightarrow> fst (test_write (Copied s) d) = int (length s)
            \<and> read_chunks sizes 0 (snd (test_write (Copied s) d)) = s)
       \<and> (15 < length s \<longrightarrow> test_write (Copied s) d = (- EINVAL, d))"
  using assms test_write_copied [of d s]
  by (auto simp: read_chunks_take dev_inv_def) (simp add: test_write_def)

theorem device_reads_back_witness:
  "read_chunks [2, 0, 7, 1] 0 (snd (test_write (Copied ''module'') dev_start)) = ''module''"
  using device_reads_back [of dev_start "''module''" "[2, 0, 7, 1]"]
  by (simp add: dev_inv_def dev_start_def zero_char_def)

end
