(* ===== verification/Basics.thy ===== *)
theory Basics
  imports CText "HOL-Library.Sublist"
begin

unbundle bit_operations_syntax

text \<open>
  The first exercises: bits and bytes of an integer (\<^verbatim>\<open>hw1/hw1.c\<close>, \<^verbatim>\<open>hw3/hw3.c\<close>), arrays and matrices
  (\<^verbatim>\<open>hw2/hw2.c\<close>), the search for a substring (\<^verbatim>\<open>hw3/hw3_4.c\<close>), the password check
  (\<^verbatim>\<open>hw5/hw5_p2/isPassOk.c\<close>) and a file printed backwards (\<^verbatim>\<open>hw9_vfs/output/main.c\<close>). Reads and writes outside an array are \<open>None\<close>.
\<close>

section \<open>Bits (hw1)\<close>

text \<open>
  \<^verbatim>\<open>for (int i = 31; i >= 0; --i)\<close>: a digit for the bit \<^verbatim>\<open>num & (1 << i)\<close>, a space after each group of
  four but the last. The argument is the number of bits still to print.
\<close>

fun print_bits :: "nat \<Rightarrow> 32 word \<Rightarrow> string" where
  "print_bits 0 num = []"
| "print_bits (Suc i) num =
     (if num AND push_bit i 1 \<noteq> 0 then ''1'' else ''0'')
     @ (if i mod 4 = 0 \<and> i \<noteq> 0 then '' '' else '''') @ print_bits i num"

text \<open>\<^verbatim>\<open>while (num > 0) { count += num & 1; num >>= 1; }\<close>, which leaves \<^verbatim>\<open>num\<close> changed.\<close>

function count_ones :: "32 word \<Rightarrow> int \<Rightarrow> 32 word \<times> int" where
  "count_ones num count =
     (if num > 0 then count_ones (drop_bit 1 num) (count + uint (num AND 1)) else (num, count))"
  by pat_completeness auto
termination
proof (relation "measure (\<lambda>(num, _). unat num)", goal_cases)
  case (2 num count)
  then have "0 < unat num" by (simp add: word_less_nat_alt)
  then show ?case by (simp add: unat_drop_bit_eq drop_bit_eq_div [where 'a = nat])
qed simp

declare count_ones.simps [simp del]

definition set_byte :: "32 word \<Rightarrow> 32 word \<Rightarrow> 32 word" where
  "set_byte num new_byte = (num AND NOT (push_bit 16 0xFF)) OR push_bit 16 new_byte"

text \<open>
  \<^verbatim>\<open>main\<close>: the bits printed, the count printed, and the bits printed for the number with its third byte
  replaced (\<open>None\<close> when the new byte is refused).
\<close>

definition hw1_main :: "32 word \<Rightarrow> 32 word \<Rightarrow> string \<times> int \<times> string option" where
  "hw1_main num new_byte =
     (let first = print_bits 32 num in
      case count_ones num 0 of (num, count) \<Rightarrow>
        if new_byte > 255 \<or> new_byte \<le> 0 then (first, count, None)
        else (first, count, Some (print_bits 32 (set_byte num new_byte))))"

section \<open>Bytes (hw3)\<close>

text \<open>The bytes of an \<^verbatim>\<open>int\<close> on a little-endian machine, and \<^verbatim>\<open>byte_ptr[2] = new_byte\<close>.\<close>

definition le_bytes :: "32 word \<Rightarrow> byte list" where
  "le_bytes w = map (\<lambda>i. ucast (drop_bit (8 * i) w)) [0..<4]"

definition of_le_bytes :: "byte list \<Rightarrow> 32 word" where
  "of_le_bytes bs = ucast (bs ! 0) OR push_bit 8 (ucast (bs ! 1)) OR push_bit 16 (ucast (bs ! 2))
     OR push_bit 24 (ucast (bs ! 3))"

definition set_byte_ptr :: "32 word \<Rightarrow> byte \<Rightarrow> 32 word" where
  "set_byte_ptr num new_byte = of_le_bytes ((le_bytes num)[2 := new_byte])"

section \<open>Arrays and matrices (hw2)\<close>

text \<open>\<^verbatim>\<open>secondTask\<close>: the elements are swapped in place; the loop counter runs to half of the length.\<close>

function swap_loop :: "nat \<Rightarrow> int list \<Rightarrow> int list" where
  "swap_loop i arr =
     (if i < length arr div 2
      then swap_loop (i + 1) (arr[i := arr ! (length arr - 1 - i), length arr - 1 - i := arr ! i])
      else arr)"
  by pat_completeness auto
termination
  by (relation "measure (\<lambda>(i, arr). length arr - i)") auto

declare swap_loop.simps [simp del]

definition second_task :: "int list \<Rightarrow> int list" where
  "second_task arr = swap_loop 0 arr"

text \<open>\<^verbatim>\<open>firstTask\<close> and \<^verbatim>\<open>thirdTask\<close> for an \<open>n\<close> by \<open>n\<close> matrix: the rows printed.\<close>

fun first_row :: "nat \<Rightarrow> int \<Rightarrow> int list \<times> int" where
  "first_row 0 v = ([], v)"
| "first_row (Suc j) v = (case first_row j (v + 1) of (r, v') \<Rightarrow> (v # r, v'))"

fun first_rows :: "nat \<Rightarrow> nat \<Rightarrow> int \<Rightarrow> int list list" where
  "first_rows n 0 v = []"
| "first_rows n (Suc i) v = (case first_row n v of (r, v') \<Rightarrow> r # first_rows n i v')"

definition first_task :: "nat \<Rightarrow> int list list" where
  "first_task n = first_rows n n 1"

definition third_task :: "nat \<Rightarrow> int list list" where
  "third_task n = map (\<lambda>i. map (\<lambda>j. if i + j \<ge> n - 1 then 0 else 1) [0..<n]) [0..<n]"

text \<open>
  \<^verbatim>\<open>fourthTask\<close>: the matrix, undefined at first, and the next value; each of the four inner loops writes
  the cells of one side in its order.
\<close>

type_synonym cell = "int \<times> int"
type_synonym matrix = "cell \<rightharpoonup> int"

definition write_side :: "cell list \<Rightarrow> matrix \<times> int \<Rightarrow> matrix \<times> int" where
  "write_side cells st = fold (\<lambda>c (m, v). (m(c \<mapsto> v), v + 1)) cells st"

definition top_side :: "int \<Rightarrow> int \<Rightarrow> int \<Rightarrow> cell list" where
  "top_side row a b = map (\<lambda>i. (row, i)) [a..b]"

definition right_side :: "int \<Rightarrow> int \<Rightarrow> int \<Rightarrow> cell list" where
  "right_side col a b = map (\<lambda>i. (i, col)) [a..b]"

definition bottom_side :: "int \<Rightarrow> int \<Rightarrow> int \<Rightarrow> cell list" where
  "bottom_side row a b = map (\<lambda>i. (row, i)) (rev [a..b])"

definition left_side :: "int \<Rightarrow> int \<Rightarrow> int \<Rightarrow> cell list" where
  "left_side col a b = map (\<lambda>i. (i, col)) (rev [a..b])"

function spiral :: "int \<Rightarrow> int \<Rightarrow> int \<Rightarrow> int \<Rightarrow> matrix \<times> int \<Rightarrow> matrix \<times> int" where
  "spiral row_start row_end col_start col_end st =
     (if row_start \<le> row_end \<and> col_start \<le> col_end then
        let st = write_side (top_side row_start col_start col_end) st; row_start = row_start + 1;
            st = write_side (right_side col_end row_start row_end) st; col_end = col_end - 1;
            (st, row_end) = (if row_start \<le> row_end
               then (write_side (bottom_side row_end col_start col_end) st, row_end - 1) else (st, row_end));
            (st, col_start) = (if col_start \<le> col_end
               then (write_side (left_side col_start row_start row_end) st, col_start + 1) else (st, col_start))
        in spiral row_start row_end col_start col_end st
      else st)"
  by pat_completeness auto
termination
  by (relation "measure (\<lambda>(rs, re, cs, ce, _). nat (re - rs + 1) + nat (ce - cs + 1))")
    (auto split: if_splits prod.splits)

declare spiral.simps [simp del]

definition fourth_task :: "int \<Rightarrow> matrix" where
  "fourth_task n = fst (spiral 0 (n - 1) 0 (n - 1) (Map.empty, 1))"

section \<open>Substrings (hw3_4)\<close>

text \<open>
  The inner loop of \<^verbatim>\<open>find_substr\<close> on what is left of \<^verbatim>\<open>str\<close> and of \<^verbatim>\<open>sub\<close>; running off the end of an
  array is \<open>None\<close>.
\<close>

fun match_here :: "string \<Rightarrow> string \<Rightarrow> bool option" where
  "match_here str [] = None"
| "match_here str (c # sub) = (if c = 0 then Some True
     else case str of [] \<Rightarrow> None | x # xs \<Rightarrow> if x \<noteq> c then Some False else match_here xs sub)"

fun find_substr_from :: "string \<Rightarrow> string \<Rightarrow> nat \<Rightarrow> nat option option" where
  "find_substr_from [] sub i = None"
| "find_substr_from (x # str) sub i = (if x = 0 then Some None
     else case match_here (x # str) sub of None \<Rightarrow> None
       | Some True \<Rightarrow> Some (Some i)
       | Some False \<Rightarrow> find_substr_from str sub (i + 1))"

definition find_substr :: "string \<Rightarrow> string \<Rightarrow> nat option option" where
  "find_substr str sub = find_substr_from str sub 0"

text \<open>
  \<^verbatim>\<open>scanf("%99[^\n]", str)\<close> into an array: a line that does not fit is written past its end, and an empty
  line leaves the array as it is.
\<close>

definition scan_line99 :: "string \<Rightarrow> string \<Rightarrow> (string \<times> string) option" where
  "scan_line99 input buf = (let w = take 99 (takeWhile (\<lambda>c. c \<noteq> CHR 0x0A) input) in
     if w = [] then Some (buf, input)
     else map_option (\<lambda>b. (b, drop (length w) input)) (store 0 (w @ [0]) buf))"

text \<open>\<^verbatim>\<open>main\<close>: the position printed, or \<open>Some None\<close> for the message that nothing was found.\<close>

definition hw3_4_main :: "string \<Rightarrow> string \<Rightarrow> string \<Rightarrow> nat option option" where
  "hw3_4_main input str buffer =
     (case scan_line99 input str of None \<Rightarrow> None
      | Some (str, input) \<Rightarrow> (case scan_line99 (tl input) buffer of None \<Rightarrow> None
        | Some (buffer, _) \<Rightarrow> find_substr str buffer))"

section \<open>The password (hw5_p2)\<close>

text \<open>\<^verbatim>\<open>gets(Pass)\<close> stores the line and a NUL into 12 bytes; the result of \<^verbatim>\<open>main\<close> is its exit status.\<close>

definition is_pass_ok :: "string \<Rightarrow> bool option" where
  "is_pass_ok line = (if length line + 1 > 12 then None else Some (cstr (line @ [0]) = ''test''))"

definition pass_main :: "string \<Rightarrow> int option" where
  "pass_main line = (case is_pass_ok line of None \<Rightarrow> None | Some ok \<Rightarrow> Some (if \<not> ok then 1 else 0))"

section \<open>A file backwards (hw9_vfs/output)\<close>

text \<open>\<^verbatim>\<open>for (long i = filesize - 1; i >= 0; i--) putchar(buffer[i]);\<close>\<close>

fun put_backwards :: "nat \<Rightarrow> string \<Rightarrow> string option" where
  "put_backwards 0 buf = Some []"
| "put_backwards (Suc i) buf =
     (if i < length buf then map_option ((#) (buf ! i)) (put_backwards i buf) else None)"

text \<open>
  \<^verbatim>\<open>main\<close> after the text was written: whether the two calls of \<^verbatim>\<open>fopen\<close> and \<^verbatim>\<open>malloc\<close> succeed, what \<^verbatim>\<open>ftell\<close>
  says, and what \<^verbatim>\<open>fread\<close> stored; the exit status and what is printed after the heading.
\<close>

definition output_main :: "bool \<Rightarrow> bool \<Rightarrow> bool \<Rightarrow> int \<Rightarrow> string \<Rightarrow> (int \<times> string) option" where
  "output_main opened_w opened_rb allocated filesize stored =
     (if \<not> opened_w \<or> \<not> opened_rb \<or> filesize \<le> 0 \<or> \<not> allocated then Some (1, [])
      else (let buffer = take (nat filesize) stored @ [CHR 0x0A]
            in map_option (\<lambda>out. (0, out @ [CHR 0x0A])) (put_backwards (nat filesize) buffer)))"

lemma put_backwards_rev: "n \<le> length buf \<Longrightarrow> put_backwards n buf = Some (rev (take n buf))"
  by (induction n) (simp_all add: take_Suc_conv_app_nth)

lemma output_reverses:
  "text \<noteq> [] \<Longrightarrow> output_main True True True (int (length text)) text = Some (0, rev text @ [CHR 0x0A])"
  by (simp add: output_main_def put_backwards_rev)

section \<open>Bits and bytes\<close>

definition bit_char :: "bool \<Rightarrow> char" where
  "bit_char b = (if b then CHR ''1'' else CHR ''0'')"

lemma print_bits_digits:
  "filter (\<lambda>c. c \<noteq> CHR '' '') (print_bits k num) = map (\<lambda>i. bit_char (bit num i)) (rev [0..<k])"
  by (induction k) (simp_all add: bit_char_def bit_iff_and_push_bit_not_eq_0)

definition ones :: "32 word \<Rightarrow> nat" where
  "ones num = (\<Sum>i<32. of_bool (bit num i))"

lemma ones_drop_bit: "ones num = of_bool (bit num 0) + ones (drop_bit 1 num)"
proof -
  have n32: "{..<32::nat} = {..<Suc 31}" by simp
  have "\<not> bit num 32" by (auto dest: bit_imp_le_length)
  then have "ones (drop_bit 1 num) = (\<Sum>i<31. of_bool (bit num (Suc i)))"
    unfolding ones_def by (simp add: numeral_eq_Suc bit_drop_bit_eq lessThan_Suc)
  moreover have "ones num = of_bool (bit num 0) + (\<Sum>i<31. of_bool (bit num (Suc i)))"
    unfolding ones_def n32 by (rule sum.lessThan_Suc_shift)
  ultimately show ?thesis by simp
qed

lemma count_ones_result: "count_ones num count = (0, count + int (ones num))"
proof (induction num count rule: count_ones.induct)
  case (1 num count)
  show ?case
  proof (cases "num > 0")
    case True
    have "uint (num AND 1) = of_bool (bit num 0)"
      by (simp add: and_one_eq mod_2_eq_odd bit_0)
    then show ?thesis
      using "1.IH" [OF True] True ones_drop_bit [of num]
      by (simp add: count_ones.simps [of num])
  next
    case False
    then have "num = 0" by (simp add: word_neq_0_conv [symmetric])
    then show ?thesis by (simp add: count_ones.simps [of 0] ones_def)
  qed
qed

lemma ones_print: "ones num = length (filter (\<lambda>c. c = CHR ''1'') (print_bits 32 num))"
proof -
  have "length (filter (\<lambda>c. c = CHR ''1'') (print_bits k num)) = (\<Sum>i<k. of_bool (bit num i))" for k
    by (induction k) (simp_all add: bit_iff_and_push_bit_not_eq_0)
  then show ?thesis by (simp add: ones_def)
qed

text \<open>Replacing a byte through a pointer is replacing it with masks.\<close>

lemma le_bytes_eq: "le_bytes w = [ucast w, ucast (drop_bit 8 w), ucast (drop_bit 16 w), ucast (drop_bit 24 w)]"
  by (simp add: le_bytes_def upt_rec)

lemma set_byte_ptr_eq: "set_byte_ptr num b = set_byte num (ucast b)"
proof (rule bit_word_eqI)
  fix i assume i: "i < LENGTH(32)"
  have p: "set_byte_ptr num b = ucast (ucast num :: byte) OR push_bit 8 (ucast (ucast (drop_bit 8 num) :: byte))
      OR push_bit 16 (ucast b) OR push_bit 24 (ucast (ucast (drop_bit 24 num) :: byte))"
    by (simp only: set_byte_ptr_def le_bytes_eq of_le_bytes_def) (simp add: eval_nat_numeral)
  have m: "set_byte num (ucast b) = (num AND NOT (push_bit 16 (mask 8))) OR push_bit 16 (ucast b)"
    by (simp add: set_byte_def mask_eq_exp_minus_1)
  show "bit (set_byte_ptr num b) i = bit (set_byte num (ucast b)) i"
    unfolding p m using i by (auto simp only: bit_simps) auto
qed

section \<open>Arrays and matrices\<close>

lemma swap_loop_nth:
  "length (swap_loop i arr) = length arr
   \<and> (\<forall>j<length arr. swap_loop i arr ! j
        = (if i \<le> j \<and> j < length arr - i then arr ! (length arr - 1 - j) else arr ! j))"
proof (induction i arr rule: swap_loop.induct)
  case (1 i arr)
  let ?n = "length arr" and ?arr = "arr[i := arr ! (length arr - 1 - i), length arr - 1 - i := arr ! i]"
  show ?case
  proof (cases "i < ?n div 2")
    case True
    then have s: "swap_loop i arr = swap_loop (i + 1) ?arr" by (subst swap_loop.simps) simp
    have "swap_loop (i + 1) ?arr ! j = (if i \<le> j \<and> j < ?n - i then arr ! (?n - 1 - j) else arr ! j)" if "j < ?n" for j
    proof -
      have b: "i < ?n" "?n - 1 - i < ?n" "i < ?n - 1 - i" using True by auto
      have "swap_loop (i + 1) ?arr ! j = (if i + 1 \<le> j \<and> j < ?n - (i + 1) then ?arr ! (?n - 1 - j) else ?arr ! j)"
        using "1.IH" [OF True] that by simp
      moreover have "?arr ! k = (if k = ?n - 1 - i then arr ! i else if k = i then arr ! (?n - 1 - i) else arr ! k)"
        if "k < ?n" for k
        using that b by (simp add: nth_list_update)
      ultimately show ?thesis using that b by (auto split: if_splits)
    qed
    then show ?thesis using "1.IH" [OF True] by (simp add: s)
  next
    case False
    then have "j = ?n - 1 - j" if "i \<le> j" "j < ?n - i" for j using that by auto
    then show ?thesis using False by (subst (1 2) swap_loop.simps) auto
  qed
qed

lemma second_task_rev: "second_task arr = rev arr"
  using swap_loop_nth [of 0 arr] by (auto simp: second_task_def rev_nth intro!: nth_equalityI)

lemma first_row_upto: "first_row j v = ([v..v + int j - 1], v + int j)"
  by (induction j arbitrary: v) (simp_all add: upto_rec1)

lemma first_rows_rows: "first_rows n k v = map (\<lambda>i. [v + int (i * n)..v + int (i * n) + int n - 1]) [0..<k]"
proof (induction k arbitrary: v)
  case (Suc k)
  have "map f [0..<Suc k] = f 0 # map (\<lambda>i. f (Suc i)) [0..<k]" for f :: "nat \<Rightarrow> int list"
    by (simp add: upt_conv_Cons map_Suc_upt [symmetric] del: upt_Suc map_Suc_upt)
  then show ?case
    using Suc [of "v + int n"] by (simp add: first_row_upto algebra_simps del: upt_Suc)
qed simp

section \<open>The spiral\<close>

function spiral_cells :: "int \<Rightarrow> int \<Rightarrow> int \<Rightarrow> int \<Rightarrow> cell list" where
  "spiral_cells rs re cs ce =
     (if rs \<le> re \<and> cs \<le> ce then
        top_side rs cs ce @ right_side ce (rs + 1) re
        @ (if rs + 1 \<le> re then bottom_side re cs (ce - 1) else [])
        @ (if cs \<le> ce - 1 then left_side cs (rs + 1) (if rs + 1 \<le> re then re - 1 else re) else [])
        @ spiral_cells (rs + 1) (if rs + 1 \<le> re then re - 1 else re) (if cs \<le> ce - 1 then cs + 1 else cs) (ce - 1)
      else [])"
  by pat_completeness auto
termination
  by (relation "measure (\<lambda>(rs, re, cs, ce). nat (re - rs + 1) + nat (ce - cs + 1))") auto

declare spiral_cells.simps [simp del]

lemmas sides = top_side_def right_side_def bottom_side_def left_side_def

lemma write_side_append: "write_side (xs @ ys) st = write_side ys (write_side xs st)"
  by (simp add: write_side_def)

lemma write_side_Nil [simp]: "write_side [] st = st"
  by (simp add: write_side_def)

text \<open>The cells one round of the loop writes.\<close>

definition ring_cells :: "int \<Rightarrow> int \<Rightarrow> int \<Rightarrow> int \<Rightarrow> cell list" where
  "ring_cells rs re cs ce = top_side rs cs ce @ right_side ce (rs + 1) re
     @ (if rs + 1 \<le> re then bottom_side re cs (ce - 1) else [])
     @ (if cs \<le> ce - 1 then left_side cs (rs + 1) (if rs + 1 \<le> re then re - 1 else re) else [])"

lemma spiral_step:
  assumes "rs \<le> re" "cs \<le> ce"
  shows "spiral rs re cs ce st = spiral (rs + 1) (if rs + 1 \<le> re then re - 1 else re)
      (if cs \<le> ce - 1 then cs + 1 else cs) (ce - 1) (write_side (ring_cells rs re cs ce) st)"
  using assms by (subst spiral.simps) (simp add: Let_def ring_cells_def write_side_append)

lemma spiral_cells_step:
  assumes "rs \<le> re" "cs \<le> ce"
  shows "spiral_cells rs re cs ce = ring_cells rs re cs ce @ spiral_cells (rs + 1)
      (if rs + 1 \<le> re then re - 1 else re) (if cs \<le> ce - 1 then cs + 1 else cs) (ce - 1)"
  using assms by (subst spiral_cells.simps) (simp add: ring_cells_def)

lemma spiral_stop:
  assumes "\<not> (rs \<le> re \<and> cs \<le> ce)"
  shows "spiral rs re cs ce st = st" "spiral_cells rs re cs ce = []"
  by (subst spiral.simps, simp only: assms if_False) (subst spiral_cells.simps, simp only: assms if_False)

lemma spiral_writes_cells: "spiral rs re cs ce st = write_side (spiral_cells rs re cs ce) st"
proof (induction rs re cs ce arbitrary: st rule: spiral_cells.induct)
  case (1 rs re cs ce)
  show ?case
  proof (cases "rs \<le> re \<and> cs \<le> ce")
    case True
    then show ?thesis
      using "1.IH" [OF True] by (simp only: spiral_step spiral_cells_step write_side_append)
  qed (simp add: spiral_stop del: not_le)
qed

lemma in_sides:
  "(r, c) \<in> set (top_side row a b) \<longleftrightarrow> r = row \<and> a \<le> c \<and> c \<le> b"
  "(r, c) \<in> set (bottom_side row a b) \<longleftrightarrow> r = row \<and> a \<le> c \<and> c \<le> b"
  "(r, c) \<in> set (right_side col a b) \<longleftrightarrow> c = col \<and> a \<le> r \<and> r \<le> b"
  "(r, c) \<in> set (left_side col a b) \<longleftrightarrow> c = col \<and> a \<le> r \<and> r \<le> b"
  by (auto simp: sides)

lemma in_ring_cells:
  assumes "rs \<le> re" "cs \<le> ce"
  shows "(r, c) \<in> set (ring_cells rs re cs ce) \<longleftrightarrow>
    rs \<le> r \<and> r \<le> re \<and> cs \<le> c \<and> c \<le> ce \<and> (r = rs \<or> r = re \<or> c = cs \<or> c = ce)"
  using assms by (auto simp: ring_cells_def in_sides)

lemma distinct_sides [simp]:
  "distinct (top_side row a b)" "distinct (bottom_side row a b)"
  "distinct (right_side col a b)" "distinct (left_side col a b)"
  by (auto simp: sides distinct_map inj_on_def)

lemma ring_cells_distinct:
  assumes "rs \<le> re" "cs \<le> ce"
  shows "distinct (ring_cells rs re cs ce)"
  using assms by (auto simp: ring_cells_def in_sides)

lemma in_spiral_cells:
  "(r, c) \<in> set (spiral_cells rs re cs ce) \<longleftrightarrow> rs \<le> r \<and> r \<le> re \<and> cs \<le> c \<and> c \<le> ce"
proof (induction rs re cs ce rule: spiral_cells.induct)
  case (1 rs re cs ce)
  show ?case
  proof (cases "rs \<le> re \<and> cs \<le> ce")
    case True
    then have a: "rs \<le> re" "cs \<le> ce" by simp_all
    have "(r, c) \<in> set (spiral_cells rs re cs ce) \<longleftrightarrow> (r, c) \<in> set (ring_cells rs re cs ce)
      \<or> rs + 1 \<le> r \<and> r \<le> (if rs + 1 \<le> re then re - 1 else re)
        \<and> (if cs \<le> ce - 1 then cs + 1 else cs) \<le> c \<and> c \<le> ce - 1"
      by (simp only: spiral_cells_step [OF a] set_append Un_iff "1.IH" [OF True])
    then show ?thesis
      unfolding in_ring_cells [OF a] using a by (cases "rs + 1 \<le> re"; cases "cs \<le> ce - 1") (simp_all only: if_True if_False simp_thms, presburger+)
  qed (auto simp: spiral_stop)
qed

lemma spiral_cells_distinct: "distinct (spiral_cells rs re cs ce)"
proof (induction rs re cs ce rule: spiral_cells.induct)
  case (1 rs re cs ce)
  show ?case
  proof (cases "rs \<le> re \<and> cs \<le> ce")
    case True
    then have a: "rs \<le> re" "cs \<le> ce" by simp_all
    have "set (ring_cells rs re cs ce) \<inter> set (spiral_cells (rs + 1) (if rs + 1 \<le> re then re - 1 else re)
        (if cs \<le> ce - 1 then cs + 1 else cs) (ce - 1)) = {}"
      using a by (auto simp: in_ring_cells [OF a] in_spiral_cells split: if_splits)
    then show ?thesis
      by (simp only: spiral_cells_step [OF a] distinct_append ring_cells_distinct [OF a] "1.IH" [OF True])
  qed (simp add: spiral_stop del: not_le)
qed

text \<open>The spiral is a path of neighbouring cells.\<close>

definition neighbours :: "cell \<Rightarrow> cell \<Rightarrow> bool" where
  "neighbours p q \<longleftrightarrow> \<bar>fst p - fst q\<bar> + \<bar>snd p - snd q\<bar> = 1"

definition path :: "cell \<Rightarrow> cell list \<Rightarrow> cell \<Rightarrow> bool" where
  "path p cells q \<longleftrightarrow> successively neighbours (p # cells) \<and> last (p # cells) = q"

lemma path_Nil [simp]: "path p [] q \<longleftrightarrow> p = q"
  by (auto simp: path_def)

lemma path_Cons: "path p (c # cs) q \<longleftrightarrow> neighbours p c \<and> path c cs q"
  by (auto simp: path_def)

lemma path_append: "path p xs q \<Longrightarrow> path q ys r \<Longrightarrow> path p (xs @ ys) r"
  by (induction xs arbitrary: p) (auto simp: path_Cons)

lemma path_up: "a - 1 \<le> b \<Longrightarrow> path (row, a - 1) (top_side row a b) (row, b)"
  "a - 1 \<le> b \<Longrightarrow> path (a - 1, col) (right_side col a b) (b, col)"
proof -
  have t: "path (row, a - 1) (top_side row a b) (row, b) \<and> path (a - 1, col) (right_side col a b) (b, col)"
    if "a - 1 \<le> b"
    using that
  proof (induction "nat (b - a + 1)" arbitrary: a)
    case (Suc k)
    then have "path (row, a) (top_side row (a + 1) b) (row, b) \<and> path (a, col) (right_side col (a + 1) b) (b, col)"
      using Suc(1) [of "a + 1"] by simp
    then show ?case using Suc by (simp add: sides upto_rec1 [of a] path_Cons neighbours_def)
  qed (auto simp: sides)
  then show "a - 1 \<le> b \<Longrightarrow> path (row, a - 1) (top_side row a b) (row, b)"
    "a - 1 \<le> b \<Longrightarrow> path (a - 1, col) (right_side col a b) (b, col)" by simp_all
qed

lemma path_down: "a \<le> b + 1 \<Longrightarrow> path (row, b + 1) (bottom_side row a b) (row, a)"
  "a \<le> b + 1 \<Longrightarrow> path (b + 1, col) (left_side col a b) (a, col)"
proof -
  have t: "path (row, b + 1) (bottom_side row a b) (row, a) \<and> path (b + 1, col) (left_side col a b) (a, col)"
    if "a \<le> b + 1"
    using that
  proof (induction "nat (b - a + 1)" arbitrary: b)
    case (Suc k)
    then have "path (row, b) (bottom_side row a (b - 1)) (row, a) \<and> path (b, col) (left_side col a (b - 1)) (a, col)"
      using Suc(1) [of "b - 1"] by simp
    then show ?case using Suc by (simp add: sides upto_rec2 [of a b] path_Cons neighbours_def)
  qed (auto simp: sides)
  then show "a \<le> b + 1 \<Longrightarrow> path (row, b + 1) (bottom_side row a b) (row, a)"
    "a \<le> b + 1 \<Longrightarrow> path (b + 1, col) (left_side col a b) (a, col)" by simp_all
qed

lemma ring_cells_path:
  assumes "rs < re" "cs < ce"
  shows "path (rs, cs - 1) (ring_cells rs re cs ce) (rs + 1, cs)"
proof -
  have t: "path (rs, cs - 1) (top_side rs cs ce) (rs, ce)" using assms by (intro path_up) simp
  have r: "path (rs, ce) (right_side ce (rs + 1) re) (re, ce)" using path_up(2) [of "rs + 1" re ce] assms by simp
  have b: "path (re, ce) (bottom_side re cs (ce - 1)) (re, cs)" using path_down(1) [of cs "ce - 1" re] assms by simp
  have l: "path (re, cs) (left_side cs (rs + 1) (re - 1)) (rs + 1, cs)"
    using path_down(2) [of "rs + 1" "re - 1" cs] assms by simp
  show ?thesis
    using path_append [OF t path_append [OF r path_append [OF b l]]] assms by (simp add: ring_cells_def)
qed

lemma spiral_cells_path: "\<exists>q. path (rs, cs - 1) (spiral_cells rs re cs ce) q"
proof (induction rs re cs ce rule: spiral_cells.induct)
  case (1 rs re cs ce)
  consider "\<not> (rs \<le> re \<and> cs \<le> ce)" | "rs = re" "cs \<le> ce" | "rs < re" "cs = ce" | "rs < re" "cs < ce" by linarith
  then show ?case
  proof cases
    case 1
    then show ?thesis by (simp add: spiral_stop(2) [OF 1])
  next
    case 2
    then have "spiral_cells rs re cs ce = top_side rs cs ce"
      by (simp add: spiral_cells_step ring_cells_def spiral_stop) (simp add: sides)
    then show ?thesis using path_up(1) [of cs ce rs] 2 by auto
  next
    case 3
    have "path (rs, cs - 1) (top_side rs cs ce @ right_side ce (rs + 1) re) (re, ce)"
      using path_append [OF path_up(1) [of cs ce rs], of "right_side ce (rs + 1) re"] path_up(2) [of "rs + 1" re ce] 3
      by simp
    moreover have "spiral_cells rs re cs ce = top_side rs cs ce @ right_side ce (rs + 1) re"
      using 3 by (simp add: spiral_cells_step ring_cells_def spiral_stop) (simp add: sides)
    ultimately show ?thesis by auto
  next
    case 4
    then obtain q where "path (rs + 1, cs) (spiral_cells (rs + 1) (re - 1) (cs + 1) (ce - 1)) q"
      using "1.IH" by auto
    from path_append [OF ring_cells_path [OF 4] this]
    have "path (rs, cs - 1) (spiral_cells rs re cs ce) q" using 4 by (simp add: spiral_cells_step)
    then show ?thesis ..
  qed
qed

text \<open>Writing distinct cells numbers them in order.\<close>

lemma write_side_other: "c \<notin> set cells \<Longrightarrow> fst (write_side cells (m, v)) c = m c"
  by (induction cells arbitrary: m v) (simp_all add: write_side_def)

lemma write_side_nth:
  "distinct cells \<Longrightarrow> k < length cells \<Longrightarrow> fst (write_side cells (m, v)) (cells ! k) = Some (v + int k)"
proof (induction cells arbitrary: m v k)
  case (Cons c cells)
  have w: "write_side (c # cells) (m, v) = write_side cells (m(c \<mapsto> v), v + 1)" by (simp add: write_side_def)
  show ?case
    using Cons write_side_other [of c cells "m(c \<mapsto> v)" "v + 1"] by (cases k) (auto simp: w)
qed simp

section \<open>Substrings\<close>

lemma match_here_prefix: "0 \<notin> set s \<Longrightarrow> 0 \<notin> set t \<Longrightarrow> match_here (s @ 0 # r) (t @ 0 # r') = Some (prefix t s)"
proof (induction t arbitrary: s)
  case (Cons c t)
  then show ?case by (cases s) auto
qed simp

lemma first_index_map: "first_index p (map f xs) = first_index (\<lambda>x. p (f x)) xs"
  by (induction xs) auto

lemma first_index_upt:
  "first_index p [0..<Suc n] = (if p 0 then Some 0 else map_option Suc (first_index (\<lambda>j. p (Suc j)) [0..<n]))"
proof -
  have "[0..<Suc n] = 0 # map Suc [0..<n]" by (simp only: upt_conv_Cons map_Suc_upt zero_less_Suc)
  then show ?thesis by (simp only: first_index.simps first_index_map)
qed

lemma find_substr_from_index:
  "0 \<notin> set s \<Longrightarrow> 0 \<notin> set t \<Longrightarrow> find_substr_from (s @ 0 # r) (t @ 0 # r') i
     = Some (map_option ((+) i) (first_index (\<lambda>j. prefix t (drop j s)) [0..<length s]))"
proof (induction s arbitrary: i)
  case (Cons x s)
  have u: "first_index (\<lambda>j. prefix t (drop j (x # s))) [0..<length (x # s)]
      = (if prefix t (x # s) then Some 0
         else map_option Suc (first_index (\<lambda>j. prefix t (drop j s)) [0..<length s]))"
    by (simp only: first_index_upt list.size add_0_right add_Suc_right drop0 drop_Suc_Cons)
  have m: "match_here (x # s @ 0 # r) (t @ 0 # r') = Some (prefix t (x # s))"
    using match_here_prefix [of "x # s" t r r'] Cons.prems by simp
  show ?case
    using Cons m unfolding u by (auto simp: option.map_comp o_def intro!: map_option_cong)
qed simp

text \<open>
  \<^verbatim>\<open>find_substr\<close> finds the first occurrence: on NUL-terminated arrays holding \<open>s\<close> and \<open>t\<close> it stays
  inside both arrays and returns the least position below the length of \<open>s\<close> at which \<open>t\<close> stands, and the
  null pointer when there is none, that is when \<open>t\<close> is not contained in \<open>s\<close> or \<open>s\<close> is empty.
\<close>

theorem find_substr_first:
  assumes "0 \<notin> set s" and "0 \<notin> set t"
  shows "find_substr (s @ 0 # r) (t @ 0 # r') = Some (first_index (\<lambda>j. prefix t (drop j s)) [0..<length s])
    \<and> (find_substr (s @ 0 # r) (t @ 0 # r') = Some None \<longleftrightarrow> s = [] \<or> \<not> sublist t s)"
proof -
  have f: "find_substr (s @ 0 # r) (t @ 0 # r') = Some (first_index (\<lambda>j. prefix t (drop j s)) [0..<length s])"
    using find_substr_from_index [OF assms, of r r' 0] by (simp add: find_substr_def option.map_ident [unfolded id_def] cong: option.map_cong_simp)
  have "(\<exists>j<length s. prefix t (drop j s)) \<longleftrightarrow> s \<noteq> [] \<and> sublist t s"
  proof
    assume "\<exists>j<length s. prefix t (drop j s)"
    then obtain j where j: "j < length s" "prefix t (drop j s)" by auto
    then obtain ss where "s = take j s @ t @ ss" by (metis append_take_drop_id prefixE)
    then show "s \<noteq> [] \<and> sublist t s" using j(1) by (auto simp: sublist_def)
  next
    assume a: "s \<noteq> [] \<and> sublist t s"
    then obtain ps ss where s: "s = ps @ t @ ss" by (auto simp: sublist_def)
    show "\<exists>j<length s. prefix t (drop j s)"
    proof (cases "length ps < length s")
      case True
      then show ?thesis using s by (intro exI [of _ "length ps"]) simp
    next
      case False
      then have "t = []" using s by simp
      then show ?thesis using a by (intro exI [of _ 0]) simp
    qed
  qed
  then show ?thesis using f by (simp add: first_index_None_iff Ball_def) blast
qed

theorem find_substr_first_witness:
  "find_substr (''abracadabra'' @ 0 # ''?'') (''acad'' @ 0 # [])
     = Some (first_index (\<lambda>j. prefix ''acad'' (drop j ''abracadabra'')) [0..<length ''abracadabra''])"
  by (rule find_substr_first [THEN conjunct1]) (simp_all add: zero_char_def)

section \<open>Properties of the numeric exercises\<close>

text \<open>
  Claim C37. The spiral fills the whole matrix: the values from 1 to \<open>n * n\<close> are written one after the other
  into different cells that together are all cells of the matrix and nothing outside it; it starts in the
  upper left corner and each value is next to the one before it.
\<close>

theorem spiral_fills_matrix:
  assumes "0 \<le> n"
  shows "\<exists>cells q. distinct cells \<and> set cells = {0..<n} \<times> {0..<n} \<and> int (length cells) = n * n
    \<and> path (0, -1) cells q
    \<and> (\<forall>k<length cells. fourth_task n (cells ! k) = Some (int k + 1))
    \<and> dom (fourth_task n) = {0..<n} \<times> {0..<n}"
proof -
  let ?cells = "spiral_cells 0 (n - 1) 0 (n - 1)"
  have s: "set ?cells = {0..<n} \<times> {0..<n}" by (auto simp: in_spiral_cells)
  have f: "fourth_task n = fst (write_side ?cells (Map.empty, 1))"
    by (simp add: fourth_task_def spiral_writes_cells)
  have "length ?cells = card ({0..<n} \<times> {0..<n})"
    by (simp only: s [symmetric] distinct_card [OF spiral_cells_distinct])
  then have l: "int (length ?cells) = n * n" using assms by (simp add: card_cartesian_product)
  have v: "fourth_task n (?cells ! k) = Some (int k + 1)" if "k < length ?cells" for k
    using write_side_nth [OF spiral_cells_distinct that] by (simp add: f add.commute)
  have "dom (fourth_task n) = set ?cells"
  proof (intro set_eqI iffI)
    fix c assume "c \<in> dom (fourth_task n)"
    then show "c \<in> set ?cells" using write_side_other [of c ?cells Map.empty 1] by (metis domIff f)
  next
    fix c assume "c \<in> set ?cells"
    then show "c \<in> dom (fourth_task n)" using v by (auto simp: in_set_conv_nth)
  qed
  then show ?thesis
    using s l v spiral_cells_distinct spiral_cells_path [of 0 0 "n - 1" "n - 1"]
    by (intro exI [of _ ?cells]) auto
qed

theorem spiral_fills_matrix_witness: "dom (fourth_task 5) = {0..<5} \<times> {0..<5}"
  using spiral_fills_matrix [of 5] by auto

text \<open>
  The bit exercise prints the 32 bits of the number from the highest to the lowest and the number
  of ones among them, but the counting loop shifts the number away: when the new byte is accepted, which
  zero is not, what is printed as the changed number is the new byte at its place and zeros, whatever
  number was entered. The byte written through the pointer gives what the masks give on the number itself.
\<close>

theorem hw1_prints_bits_and_loses_number:
  assumes "hw1_main num new_byte = (first, count, changed)"
  shows "filter (\<lambda>c. c \<noteq> CHR '' '') first = map (\<lambda>i. bit_char (bit num i)) (rev [0..<32])
    \<and> count = int (length (filter (\<lambda>c. c = CHR ''1'') first))
    \<and> changed = (if 0 < new_byte \<and> new_byte \<le> 255 then Some (print_bits 32 (push_bit 16 new_byte)) else None)
    \<and> set_byte_ptr num b = set_byte num (ucast b)"
proof -
  have z: "\<not> (new_byte > 255 \<or> new_byte \<le> 0) \<longleftrightarrow> 0 < new_byte \<and> new_byte \<le> 255"
    by (auto simp: word_neq_0_conv)
  show ?thesis
    using assms z
    by (auto simp: hw1_main_def Let_def count_ones_result print_bits_digits ones_print set_byte_def
        set_byte_ptr_eq [unfolded set_byte_def] split: if_splits)
qed

theorem hw1_prints_bits_and_loses_number_witness:
  "snd (snd (hw1_main 0xFFFFFFFF 5)) = Some (print_bits 32 (push_bit 16 5))"
  using hw1_prints_bits_and_loses_number [of "0xFFFFFFFF" 5] by (cases "hw1_main 0xFFFFFFFF 5") auto

end
