(* ===== verification/Calc.thy ===== *)
theory Calc
  imports CText "HOL-Library.Signed_Division"
begin

text \<open>
  The calculators: \<^verbatim>\<open>hw7_static_lib\<close>, linked with the four operations, and \<^verbatim>\<open>hw8_dinamic_lib/dlOpen\<close>,
  which loads them from a shared library by name. Input is the text typed, output the lines printed. A
  value that \<^verbatim>\<open>int\<close> cannot hold, a division by zero and the use of a variable that \<^verbatim>\<open>scanf\<close> did not set
  are \<open>None\<close>; the loader is outside, given as the result of \<^verbatim>\<open>dlopen\<close> and the functions \<^verbatim>\<open>dlsym\<close> finds.
\<close>

section \<open>The operations\<close>

text \<open>\<^verbatim>\<open>scanf("%d %d", &a, &b)\<close>.\<close>

definition read_two :: "string \<Rightarrow> (int \<times> int \<times> string) option" where
  "read_two inp = (case scan_d inp of None \<Rightarrow> None
     | Some (a, r) \<Rightarrow> (case scan_d r of None \<Rightarrow> None
       | Some (b, r') \<Rightarrow> if in_int a \<and> in_int b then Some (a, b, r') else None))"

definition checked :: "int \<Rightarrow> int option" where
  "checked n = (if in_int n then Some n else None)"

type_synonym calc_fn = "string \<Rightarrow> (int \<times> string) option"

definition with_two :: "(int \<Rightarrow> int \<Rightarrow> int option) \<Rightarrow> calc_fn" where
  "with_two f inp = (case read_two inp of None \<Rightarrow> None
     | Some (a, b, r) \<Rightarrow> map_option (\<lambda>v. (v, r)) (f a b))"

definition Add :: calc_fn where "Add = with_two (\<lambda>a b. checked (a + b))"
definition Sub :: calc_fn where "Sub = with_two (\<lambda>a b. checked (a - b))"
definition Mul :: calc_fn where "Mul = with_two (\<lambda>a b. checked (a * b))"
definition Div :: calc_fn where "Div = with_two (\<lambda>a b. if b = 0 then None else checked (a sdiv b))"

section \<open>The menus\<close>

datatype calc_out = Result int | Leaving | Wrong_choice | Dlopen_error | Dlsym_error string

text \<open>
  \<^verbatim>\<open>scanf("%d", &choise)\<close>: without a number the variable and the input stay as they are. \<open>None\<close> as
  the variable is its indeterminate value at the start.
\<close>

definition read_choice :: "int option \<Rightarrow> string \<Rightarrow> int option \<times> string" where
  "read_choice old inp = (case scan_d inp of None \<Rightarrow> (old, inp)
     | Some (n, r) \<Rightarrow> (if in_int n then Some n else None, r))"

text \<open>The loop of \<^verbatim>\<open>hw7_static_lib/main.c\<close>. The result is what was printed and the exit status.\<close>

partial_function (option) calc_main :: "int option \<Rightarrow> string \<Rightarrow> (calc_out list \<times> int) option" where
  "calc_main old inp =
     (case read_choice old inp of
        (None, _) \<Rightarrow> None
      | (Some k, r) \<Rightarrow>
          if k = 5 then Some ([Leaving], 0)
          else if 1 \<le> k \<and> k \<le> 4 then
            (case (if k = 1 then Add r else if k = 2 then Sub r else if k = 3 then Mul r else Div r) of
               None \<Rightarrow> None
             | Some (v, r') \<Rightarrow> Option.bind (calc_main (Some k) r') (\<lambda>(out, st). Some (Result v # out, st)))
          else Option.bind (calc_main (Some k) r) (\<lambda>(out, st). Some (Wrong_choice # out, st)))"

text \<open>The loop of \<^verbatim>\<open>dlOpen/main.c\<close>: a symbol that is not found ends the program with status 1.\<close>

definition symbol_of :: "int \<Rightarrow> string" where
  "symbol_of k = (if k = 1 then ''Add'' else if k = 2 then ''Sub'' else if k = 3 then ''Mul'' else ''Div'')"

partial_function (option) dl_loop :: "(string \<Rightarrow> calc_fn option) \<Rightarrow> int option \<Rightarrow> string
    \<Rightarrow> (calc_out list \<times> int) option" where
  "dl_loop dlsym old inp =
     (case read_choice old inp of
        (None, _) \<Rightarrow> None
      | (Some k, r) \<Rightarrow>
          if 1 \<le> k \<and> k \<le> 4 then
            (case dlsym (symbol_of k) of
               None \<Rightarrow> Some ([Dlsym_error (symbol_of k)], 1)
             | Some f \<Rightarrow> (case f r of None \<Rightarrow> None
               | Some (v, r') \<Rightarrow> Option.bind (dl_loop dlsym (Some k) r') (\<lambda>(out, st). Some (Result v # out, st))))
          else if k = 5 then Some ([Leaving], 0)
          else Option.bind (dl_loop dlsym (Some k) r) (\<lambda>(out, st). Some (Wrong_choice # out, st)))"

definition dl_main :: "(string \<Rightarrow> calc_fn option) option \<Rightarrow> string \<Rightarrow> (calc_out list \<times> int) option" where
  "dl_main library inp = (case library of None \<Rightarrow> Some ([Dlopen_error], 1)
     | Some dlsym \<Rightarrow> dl_loop dlsym None inp)"

text \<open>What \<^verbatim>\<open>libcalc.so\<close> provides: the functions compiled from the same four files.\<close>

definition libcalc :: "string \<Rightarrow> calc_fn option" where
  "libcalc = map_of [(''Add'', Add), (''Sub'', Sub), (''Mul'', Mul), (''Div'', Div)]"

section \<open>Sessions\<close>

text \<open>What a user types: choices with their operands, or a choice that is not in the menu.\<close>

datatype request = Calc int int int | Other int

fun typed :: "request \<Rightarrow> string" where
  "typed (Calc k a b) = show_int k @ '' '' @ show_int a @ '' '' @ show_int b @ '' ''"
| "typed (Other k) = show_int k @ '' ''"

definition session_text :: "request list \<Rightarrow> string" where
  "session_text rs = concat (map typed rs) @ ''5 ''"

text \<open>The value of a request, when it has one, in integer arithmetic with division toward zero.\<close>

fun request_value :: "request \<Rightarrow> int option" where
  "request_value (Calc k a b) =
     (if k = 1 then Some (a + b) else if k = 2 then Some (a - b) else if k = 3 then Some (a * b)
      else if b = 0 then None else Some (a sdiv b))"
| "request_value (Other k) = None"

fun answer :: "request \<Rightarrow> calc_out" where
  "answer (Calc k a b) = Result (the (request_value (Calc k a b)))"
| "answer (Other k) = Wrong_choice"

fun answerable :: "request \<Rightarrow> bool" where
  "answerable (Calc k a b) \<longleftrightarrow> 1 \<le> k \<and> k \<le> 4 \<and> in_int a \<and> in_int b
     \<and> (case request_value (Calc k a b) of None \<Rightarrow> False | Some v \<Rightarrow> in_int v)"
| "answerable (Other k) \<longleftrightarrow> in_int k \<and> (k < 1 \<or> 5 < k)"

lemma not_digit_space: "\<not> starts_digit (CHR '' '' # r)"
  by (simp add: starts_digit_def digit_val_def)

lemma space_is_space: "is_space (CHR '' '')"
  by (simp add: is_space_def)

lemma scan_shown: "scan_d (show_int n @ CHR '' '' # r) = Some (n, CHR '' '' # r)"
  by (rule scan_d_show_int [OF not_digit_space])

lemma read_choice_shown:
  "in_int k \<Longrightarrow> read_choice old (show_int k @ CHR '' '' # r) = (Some k, CHR '' '' # r)"
  by (simp add: read_choice_def scan_shown)

lemma read_choice_skip: "read_choice old (CHR '' '' # r) = (case read_choice old r of (k, r') \<Rightarrow>
    (k, if scan_d r = None then CHR '' '' # r else r'))"
  by (simp add: read_choice_def scan_d_skip space_is_space split: option.split prod.split)

lemma with_two_shown:
  assumes "in_int a" "in_int b"
  shows "with_two f (CHR '' '' # show_int a @ CHR '' '' # show_int b @ CHR '' '' # r)
    = map_option (\<lambda>v. (v, CHR '' '' # r)) (f a b)"
  using assms by (simp add: with_two_def read_two_def scan_shown scan_d_skip space_is_space)

definition op_of :: "int \<Rightarrow> calc_fn" where
  "op_of k = (if k = 1 then Add else if k = 2 then Sub else if k = 3 then Mul else Div)"

lemma op_of_shown:
  assumes "answerable (Calc k a b)"
  shows "op_of k (CHR '' '' # show_int a @ CHR '' '' # show_int b @ CHR '' '' # r)
    = Some (the (request_value (Calc k a b)), CHR '' '' # r)"
  using assms by (auto simp: op_of_def Add_def Sub_def Mul_def Div_def with_two_shown checked_def split: if_splits)

lemma libcalc_op: "1 \<le> k \<Longrightarrow> k \<le> 4 \<Longrightarrow> libcalc (symbol_of k) = Some (op_of k)"
proof -
  assume "1 \<le> k" "k \<le> 4"
  then have "k = 1 \<or> k = 2 \<or> k = 3 \<or> k = 4" by linarith
  then show ?thesis by (auto simp: libcalc_def symbol_of_def op_of_def)
qed

text \<open>Leading spaces of the input make no difference.\<close>

lemma choice_after_space:
  "in_int k \<Longrightarrow> read_choice old (CHR '' '' # show_int k @ CHR '' '' # r) = (Some k, CHR '' '' # r)"
  by (simp add: read_choice_skip read_choice_shown scan_shown)

lemma session_text_Cons:
  "session_text (Calc k a b # rs) = show_int k @ CHR '' '' # show_int a @ CHR '' '' # show_int b @ CHR '' '' # session_text rs"
  "session_text (Other k # rs) = show_int k @ CHR '' '' # session_text rs"
  by (simp_all add: session_text_def)

lemma session_text_Nil: "session_text [] = show_int 5 @ CHR '' '' # []"
proof -
  have "show_int 5 = ''5''" by code_simp
  then show ?thesis by (simp add: session_text_def)
qed

lemma choice_lead:
  assumes "lead = '''' \<or> lead = '' ''" "in_int k"
  shows "read_choice old (lead @ show_int k @ CHR '' '' # r) = (Some k, CHR '' '' # r)"
  using assms read_choice_shown choice_after_space by auto

lemma in_int_menu: "1 \<le> k \<Longrightarrow> k \<le> 5 \<Longrightarrow> in_int k"
  by (simp add: in_int_def INT_MIN_def INT_MAX_def)

text \<open>What a calculator's loop does with one choice; a session follows from it.\<close>

locale calculator =
  fixes run :: "int option \<Rightarrow> string \<Rightarrow> (calc_out list \<times> int) option"
  assumes run_op: "read_choice old inp = (Some k, r) \<Longrightarrow> 1 \<le> k \<Longrightarrow> k \<le> 4 \<Longrightarrow> op_of k r = Some (v, r')
      \<Longrightarrow> run old inp = Option.bind (run (Some k) r') (\<lambda>(out, st). Some (Result v # out, st))"
    and run_other: "read_choice old inp = (Some k, r) \<Longrightarrow> k < 1 \<or> 5 < k
      \<Longrightarrow> run old inp = Option.bind (run (Some k) r) (\<lambda>(out, st). Some (Wrong_choice # out, st))"
    and run_leave: "read_choice old inp = (Some 5, r) \<Longrightarrow> run old inp = Some ([Leaving], 0)"
begin

lemma session:
  assumes "\<forall>q\<in>set rs. answerable q" "lead = '''' \<or> lead = '' ''"
  shows "run old (lead @ session_text rs) = Some (map answer rs @ [Leaving], 0)"
  using assms
proof (induction rs arbitrary: old lead)
  case Nil
  then show ?case
    unfolding session_text_Nil by (simp add: run_leave [OF choice_lead] in_int_menu)
next
  case (Cons q rs)
  have IH: "run old (CHR '' '' # session_text rs) = Some (map answer rs @ [Leaving], 0)" for old
    using Cons.IH [of "'' ''"] Cons.prems by simp
  show ?case
  proof (cases q)
    case (Calc k a b)
    then have k: "1 \<le> k" "k \<le> 4" "in_int k" and q: "answerable (Calc k a b)"
      using Cons.prems by (auto simp: in_int_menu)
    show ?thesis
      unfolding Calc session_text_Cons
      by (subst run_op [OF choice_lead [OF Cons.prems(2) k(3)] k(1,2) op_of_shown [OF q]]) (simp add: IH)
  next
    case (Other k)
    then have k: "in_int k" "k < 1 \<or> 5 < k" using Cons.prems by auto
    show ?thesis
      unfolding Other session_text_Cons
      by (subst run_other [OF choice_lead [OF Cons.prems(2) k(1)] k(2)]) (simp add: IH)
  qed
qed

end

interpretation linked_calc: calculator calc_main
proof
  fix old inp k r v r'
  assume "read_choice old inp = (Some k, r)" "1 \<le> k" "k \<le> 4" "op_of k r = Some (v, r')"
  then show "calc_main old inp = Option.bind (calc_main (Some k) r') (\<lambda>(out, st). Some (Result v # out, st))"
    by (subst calc_main.simps) (auto simp: op_of_def split: if_splits)
qed (subst calc_main.simps, auto)+

interpretation loaded_calc: calculator "dl_loop libcalc"
proof
  fix old inp k r v r'
  assume "read_choice old inp = (Some k, r)" "1 \<le> k" "k \<le> 4" "op_of k r = Some (v, r')"
  then show "dl_loop libcalc old inp
      = Option.bind (dl_loop libcalc (Some k) r') (\<lambda>(out, st). Some (Result v # out, st))"
    by (subst dl_loop.simps) (simp add: libcalc_op)
qed (subst dl_loop.simps, auto)+

section \<open>Properties\<close>

text \<open>
  Claim C38. The two calculators compute the same: for every session of requests whose operands and results
  fit an \<^verbatim>\<open>int\<close>, divisions being by a number other than zero, ended by 5, the linked program and the
  program that loads \<^verbatim>\<open>libcalc.so\<close> print the values of the requests in order, with a complaint for each
  choice outside the menu, and end with status 0.
\<close>

theorem calculators_agree:
  assumes "\<forall>q\<in>set rs. answerable q"
  shows "calc_main None (session_text rs) = Some (map answer rs @ [Leaving], 0)
    \<and> dl_main (Some libcalc) (session_text rs) = Some (map answer rs @ [Leaving], 0)"
  using linked_calc.session [OF assms, of "''''" None] loaded_calc.session [OF assms, of "''''" None]
  by (simp add: dl_main_def)

theorem calculators_agree_witness:
  "calc_main None (session_text [Calc 4 (-7) 2, Other 9, Calc 3 6 7])
     = Some ([Result (-3), Wrong_choice, Result 42, Leaving], 0)"
proof -
  have "\<forall>q\<in>set [Calc 4 (-7) 2, Other 9, Calc 3 6 7]. answerable q"
    by (simp add: in_int_def INT_MIN_def INT_MAX_def sdiv_int_numeral_numeral)
  from calculators_agree [OF this] show ?thesis by simp
qed

end
