(* ===== verification/RawClients.thy ===== *)
theory RawClients
  imports Packet NetOptions
begin

unbundle bit_operations_syntax

text \<open>
  The raw-socket exercises of \<^verbatim>\<open>hw16_sockets\<close>: the clients \<^verbatim>\<open>p5_RAW_udp_header\<close>, \<^verbatim>\<open>p6_Raw_ip_header\<close>,
  \<^verbatim>\<open>p7_Raw_mac_header\<close> and \<^verbatim>\<open>p7_Raw_mac_header_with_getopt\<close>, which send one message with headers of
  their own and print the first answer. Every \<^verbatim>\<open>main\<close> is a function
  from the results of its system calls to what it does and how it ends. \<open>buf\<close> is the uninitialised buffer.
\<close>

section \<open>Receiving\<close>

text \<open>
  \<^verbatim>\<open>data[data_len] = '\0'; printf("%s", data)\<close> with the bound the clients put on \<open>data_len\<close>, which
  may be negative. \<open>None\<close> is a store or a read outside the buffer.
\<close>

definition store_byte :: "int \<Rightarrow> byte \<Rightarrow> byte list \<Rightarrow> byte list option" where
  "store_byte i v buf = (if 0 \<le> i \<and> i < int (length buf) then Some (buf[nat i := v]) else None)"

definition show_data :: "nat \<Rightarrow> nat \<Rightarrow> nat \<Rightarrow> byte list \<Rightarrow> (byte list \<times> byte list) option" where
  "show_data size_max off bytes buf =
     (let data_len = int bytes - int off;
          data_len = (if data_len \<ge> int size_max then int size_max - 1 else data_len)
      in case store_byte (int off + data_len) 0 buf of None \<Rightarrow> None
         | Some buf \<Rightarrow> if terminated (drop off buf) then Some (cstr (drop off buf), buf) else None)"

type_synonym receiver = "byte list \<Rightarrow> byte list \<Rightarrow> (byte list option \<times> byte list) option"

definition shown :: "(byte list \<times> byte list) option \<Rightarrow> (byte list option \<times> byte list) option" where
  "shown r = map_option (\<lambda>(t, buf). (Some t, buf)) r"

definition p5_receive :: receiver where
  "p5_receive dgram buf =
     (let buf = poke 0 dgram buf; bytes = length dgram; ip_hdr_len = unat (buf ! 0 AND 0x0F) * 4
      in if bytes < ip_hdr_len + 8 then Some (None, buf)
         else if field16 buf ip_hdr_len \<noteq> SERVER_PORT then Some (None, buf)
         else shown (show_data 1024 (ip_hdr_len + 8) bytes buf))"

definition p6_receive :: receiver where
  "p6_receive dgram buf =
     (let buf = poke 0 dgram buf; bytes = length dgram
      in if bytes < 20 + 8 then Some (None, buf)
         else let recv_ip_header_len = unat (buf ! 0 AND 0x0F) * 4
         in if field16 buf recv_ip_header_len \<noteq> SERVER_PORT then Some (None, buf)
            else shown (show_data 1024 (recv_ip_header_len + 8) bytes buf))"

definition p7_receive :: receiver where
  "p7_receive dgram buf =
     (let buf = poke 0 dgram buf; bytes = length dgram
      in if bytes < ETH_HLEN + 20 + 8 then Some (None, buf)
         else let recv_ip_header_len = unat (buf ! 14 AND 0x0F) * 4
         in if buf ! 23 \<noteq> IPPROTO_UDP then Some (None, buf)
            else if field16 buf (14 + recv_ip_header_len) \<noteq> SERVER_PORT then Some (None, buf)
            else if field16 buf (14 + recv_ip_header_len + 2) \<noteq> CLIENT_PORT then Some (None, buf)
            else shown (show_data BUF_SIZE (14 + recv_ip_header_len + 8) bytes buf))"

text \<open>\<^verbatim>\<open>while (1)\<close> around \<^verbatim>\<open>recvfrom\<close>, \<open>None\<close> in the list being its error.\<close>

datatype raw_end = Got "byte list" | Recv_error | Waiting | Out_of_bounds

fun raw_loop :: "receiver \<Rightarrow> byte list option list \<Rightarrow> byte list \<Rightarrow> raw_end" where
  "raw_loop f [] buf = Waiting"
| "raw_loop f (None # rs) buf = Recv_error"
| "raw_loop f (Some dgram # rs) buf = (case f dgram buf of
       None \<Rightarrow> Out_of_bounds
     | Some (None, buf') \<Rightarrow> raw_loop f rs buf'
     | Some (Some t, buf') \<Rightarrow> Got t)"

section \<open>Packets\<close>

definition hello :: "byte list" where
  "hello = map of_char ''Hello, server''"

definition put_udp :: "nat \<Rightarrow> nat \<Rightarrow> byte list \<Rightarrow> byte list" where
  "put_udp off len buf =
     (let buf = poke off (bytes16 (htons CLIENT_PORT)) buf;
          buf = poke (off + 2) (bytes16 (htons SERVER_PORT)) buf;
          buf = poke (off + 4) (bytes16 (htons (of_nat len))) buf
      in poke (off + 6) [0, 0] buf)"

definition p5_packet :: "byte list \<Rightarrow> byte list \<times> byte list" where
  "p5_packet buf = (let buf = poke 8 hello (put_udp 0 (8 + length hello) buf)
     in (take (8 + length hello) buf, buf))"

definition p6_packet :: "byte list \<Rightarrow> byte list \<Rightarrow> byte list \<times> byte list" where
  "p6_packet daddr buf =
     (let buf = poke 0 (replicate 20 0) buf;
          buf = poke 0 [0x45] buf;
          buf = poke 8 [255] buf;
          buf = poke 9 [IPPROTO_UDP] buf;
          buf = poke 16 daddr buf;
          buf = put_udp 20 (8 + length hello) buf;
          buf = poke 28 hello buf
      in (take (20 + 8 + length hello) buf, buf))"

definition p7_packet :: "byte list \<Rightarrow> byte list \<Rightarrow> byte list \<Rightarrow> byte list \<Rightarrow> byte list \<Rightarrow> byte list \<times> byte list" where
  "p7_packet smac cmac saddr daddr buf =
     (let buf = put_eth smac cmac buf;
          buf = put_ip_fixed (of_nat (20 + 8 + length hello)) 0 255 buf;
          buf = poke 26 saddr buf;
          buf = poke 30 daddr buf;
          buf = put_ip_check buf;
          buf = put_udp 34 (8 + length hello) buf;
          buf = poke 42 hello buf
      in (take (ETH_HLEN + unat (field16 buf 16)) buf, buf))"

section \<open>The programs\<close>

datatype raw_event = Complain string | Closed int | Sendto "byte list" | Sent int | Shown "byte list"

datatype raw_status = Exit int | Running | Undefined

record raw_world =
  socket_result :: int
  address_result :: int
  ifindex :: nat
  sendto_result :: int
  received :: "byte list option list"

text \<open>From \<^verbatim>\<open>sendto\<close> to the end, the same in all clients but for the packet and the receiver.\<close>

definition send_and_wait :: "raw_world \<Rightarrow> receiver \<Rightarrow> byte list \<times> byte list \<Rightarrow> raw_event list \<times> raw_status" where
  "send_and_wait w f pkt =
     (let fd = socket_result w; e = [Sendto (fst pkt)] in
      if sendto_result w < 0 then (e @ [Complain ''sendto'', Closed fd], Exit 1)
      else let e = e @ [Sent (sendto_result w)] in
      case raw_loop f (received w) (snd pkt) of
        Got t \<Rightarrow> (e @ [Shown t, Closed fd], Exit 0)
      | Recv_error \<Rightarrow> (e @ [Complain ''recvfrom'', Closed fd], Exit 1)
      | Waiting \<Rightarrow> (e, Running)
      | Out_of_bounds \<Rightarrow> (e, Undefined))"

definition p5_main :: "raw_world \<Rightarrow> byte list \<Rightarrow> raw_event list \<times> raw_status" where
  "p5_main w buf =
     (if socket_result w < 0 then ([Complain ''socket''], Exit 1)
      else if address_result w \<noteq> 1 then ([Complain ''inet_pton'', Closed (socket_result w)], Exit 1)
      else send_and_wait w p5_receive (p5_packet buf))"

definition p6_main :: "raw_world \<Rightarrow> byte list \<Rightarrow> byte list \<Rightarrow> raw_event list \<times> raw_status" where
  "p6_main w daddr buf =
     (if socket_result w < 0 then ([Complain ''socket''], Exit 1)
      else if address_result w \<noteq> 1 then ([Complain ''inet_pton'', Closed (socket_result w)], Exit 1)
      else send_and_wait w p6_receive (p6_packet daddr buf))"

text \<open>The constants of \<^verbatim>\<open>p7_Raw_mac_header/client.c\<close>; \<open>inet_addr\<close> is the library's function.\<close>

definition p7_main :: "(string \<Rightarrow> byte list) \<Rightarrow> raw_world \<Rightarrow> byte list \<Rightarrow> raw_event list \<times> raw_status" where
  "p7_main inet_addr w buf =
     (if socket_result w < 0 then ([Complain ''socket''], Exit 1)
      else if ifindex w = 0 then ([Complain ''if_nametoindex'', Closed (socket_result w)], Exit 1)
      else send_and_wait w p7_receive
        (p7_packet [0x94, 0xbb, 0x43, 0x0d, 0x56, 0xa3] [0x00, 0xd8, 0x61, 0xd7, 0xf7, 0x14]
           (inet_addr ''192.168.0.109'') (inet_addr ''192.168.0.104'') buf))"

text \<open>
  The program with options. Its source declares the array \<^verbatim>\<open>ifname\<close> and uses it as \<^verbatim>\<open>if_name\<close>; the
  model takes the two for one.
\<close>

definition p7_getopt_main :: "(string \<Rightarrow> byte list) \<Rightarrow> (char \<times> string) list \<Rightarrow> raw_world \<Rightarrow> byte list
    \<Rightarrow> raw_event list \<times> raw_status" where
  "p7_getopt_main inet_addr opts w buf =
     (case option_loop getopt_client_option opts client_defaults of
        Inl (status, _) \<Rightarrow> ([Complain ''option''], Exit status)
      | Inr c \<Rightarrow>
         if socket_result w < 0 then ([Complain ''socket''], Exit 1)
         else if ifindex w = 0 then ([Complain ''if_nametoindex'', Closed (socket_result w)], Exit 1)
         else send_and_wait w p7_receive
           (p7_packet (server_mac_of c) (client_mac c)
              (inet_addr (cstr (client_ip_str c))) (inet_addr (cstr (server_ip_str c))) buf))"

section \<open>What a client prints\<close>

lemma cstr_cut: "cstr (xs @ 0 # ys) = cstr xs"
  by (induction xs) (auto simp: cstr_Cons)

lemma show_data_inside:
  assumes "off \<le> bytes" "bytes < length buf" "length buf \<le> size_max"
  shows "show_data size_max off bytes buf = Some (cstr (take (bytes - off) (drop off buf)), buf[bytes := 0])"
proof -
  have u: "buf[bytes := 0] = take bytes buf @ 0 # drop (Suc bytes) buf"
    using assms(2) by (rule upd_conv_take_nth_drop)
  have d: "drop off (buf[bytes := 0]) = take (bytes - off) (drop off buf) @ 0 # drop (Suc bytes) buf"
    unfolding u using assms by (simp add: drop_take min_def)
  have "store_byte (int off + (int bytes - int off)) 0 buf = Some (buf[bytes := 0])"
    using assms by (simp add: store_byte_def)
  then show ?thesis
    using assms d by (simp add: show_data_def Let_def terminated_def cstr_cut)
qed

lemma show_data_full:
  assumes "bytes = length buf" "length buf = size_max" "0 < off"
  shows "show_data size_max off bytes buf = None"
  using assms by (simp add: show_data_def store_byte_def)

lemma poke_whole: "poke 0 d buf = d @ drop (length d) buf"
  by (simp add: poke_def)

lemma field16_poke_whole: "i + 1 < length d \<Longrightarrow> field16 (poke 0 d buf) i = field16 d i"
  by (intro field16_cong) (simp_all add: poke_whole nth_append)

lemma shown_data_poke:
  assumes "off \<le> length d" "length d < length buf" "length buf = n"
  shows "\<exists>buf'. shown (show_data n off (length d) (poke 0 d buf)) = Some (Some (cstr (drop off d)), buf')"
  using assms by (subst show_data_inside) (auto simp: shown_def poke_whole)

lemma shown_data_full:
  assumes "length d = n" "length buf = n" "0 < off"
  shows "shown (show_data n off (length d) (poke 0 d buf)) = None"
  using assms by (subst show_data_full) (auto simp: shown_def poke_whole)

text \<open>
  A datagram is plausible for a receiver when its headers, of the announced length, are inside it, or when
  it is so short that the receiver notices.
\<close>

definition header_len :: "nat \<Rightarrow> byte list \<Rightarrow> nat" where
  "header_len base d = base + unat (d ! base AND 0x0F) * 4 + 8"

definition p5_accepts :: "byte list \<Rightarrow> bool" where
  "p5_accepts d \<longleftrightarrow> d \<noteq> [] \<and> header_len 0 d \<le> length d \<and> field16 d (header_len 0 d - 8) = SERVER_PORT"

definition p6_accepts :: "byte list \<Rightarrow> bool" where
  "p6_accepts d \<longleftrightarrow> 28 \<le> length d \<and> header_len 0 d \<le> length d \<and> field16 d (header_len 0 d - 8) = SERVER_PORT"

definition p6_plausible :: "byte list \<Rightarrow> bool" where
  "p6_plausible d \<longleftrightarrow> length d < 28 \<or> header_len 0 d \<le> length d"

definition p7_accepts :: "byte list \<Rightarrow> bool" where
  "p7_accepts d \<longleftrightarrow> 42 \<le> length d \<and> header_len 14 d \<le> length d \<and> d ! 23 = IPPROTO_UDP
     \<and> field16 d (header_len 14 d - 8) = SERVER_PORT \<and> field16 d (header_len 14 d - 6) = CLIENT_PORT"

definition p7_plausible :: "byte list \<Rightarrow> bool" where
  "p7_plausible d \<longleftrightarrow> length d < 42 \<or> header_len 14 d \<le> length d"

locale raw_receiver =
  fixes f :: receiver and n :: nat and accepts plausible :: "byte list \<Rightarrow> bool" and data_at :: "byte list \<Rightarrow> nat"
  assumes accept: "length buf = n \<Longrightarrow> length d < n \<Longrightarrow> accepts d
      \<Longrightarrow> \<exists>buf'. f d buf = Some (Some (cstr (drop (data_at d) d)), buf')"
    and reject: "length buf = n \<Longrightarrow> length d < n \<Longrightarrow> plausible d \<Longrightarrow> \<not> accepts d
      \<Longrightarrow> \<exists>buf'. f d buf = Some (None, buf') \<and> length buf' = n"
    and full: "length buf = n \<Longrightarrow> length d = n \<Longrightarrow> accepts d \<Longrightarrow> f d buf = None"
begin

lemma first_answer:
  assumes "length buf = n" "\<forall>d\<in>set skipped. length d < n \<and> plausible d \<and> \<not> accepts d" "accepts d" "length d \<le> n"
  shows "raw_loop f (map Some skipped @ Some d # rs) buf
    = (if length d < n then Got (cstr (drop (data_at d) d)) else Out_of_bounds)"
  using assms
proof (induction skipped arbitrary: buf)
  case Nil
  then show ?case using accept [of buf d] full [of buf d] by auto
next
  case (Cons e skipped)
  then obtain buf' where "f e buf = Some (None, buf')" "length buf' = n" using reject [of buf e] by auto
  then show ?case using Cons by simp
qed

end

interpretation p5: raw_receiver p5_receive 1024 p5_accepts "\<lambda>_. True" "header_len 0"
proof
  fix buf d :: "byte list" assume n: "length buf = 1024"
  have b: "poke 0 d buf ! 0 = d ! 0" if "d \<noteq> []" using that by (cases d) (simp_all add: poke_whole)
  have a: "p5_receive d buf = shown (show_data 1024 (header_len 0 d) (length d) (poke 0 d buf))" if "p5_accepts d"
    using that b by (auto simp: p5_receive_def p5_accepts_def header_len_def Let_def field16_poke_whole)
  { assume "length d < 1024" "p5_accepts d"
    then show "\<exists>buf'. p5_receive d buf = Some (Some (cstr (drop (header_len 0 d) d)), buf')"
      using shown_data_poke [of "header_len 0 d" d buf 1024] n a by (simp add: p5_accepts_def)
  next
    assume d: "length d < 1024" "\<not> p5_accepts d"
    have "p5_receive d buf = Some (None, poke 0 d buf)"
    proof (cases "d = []")
      case False
      then show ?thesis
        using d(2) b by (auto simp: p5_receive_def p5_accepts_def header_len_def Let_def field16_poke_whole)
    qed (simp add: p5_receive_def Let_def)
    then show "\<exists>buf'. p5_receive d buf = Some (None, buf') \<and> length buf' = 1024" using n d by simp
  next
    assume "length d = 1024" "p5_accepts d"
    then show "p5_receive d buf = None"
      using a shown_data_full [of d 1024 buf "header_len 0 d"] n by (simp add: header_len_def)
  }
qed

interpretation p6: raw_receiver p6_receive 1024 p6_accepts p6_plausible "header_len 0"
proof
  fix buf d :: "byte list" assume n: "length buf = 1024"
  have b: "poke 0 d buf ! 0 = d ! 0" if "28 \<le> length d" using that by (cases d) (simp_all add: poke_whole)
  have a: "p6_receive d buf = shown (show_data 1024 (header_len 0 d) (length d) (poke 0 d buf))" if "p6_accepts d"
    using that b by (auto simp: p6_receive_def p6_accepts_def header_len_def Let_def field16_poke_whole)
  { assume "length d < 1024" "p6_accepts d"
    then show "\<exists>buf'. p6_receive d buf = Some (Some (cstr (drop (header_len 0 d) d)), buf')"
      using shown_data_poke [of "header_len 0 d" d buf 1024] n a by (simp add: p6_accepts_def)
  next
    assume d: "length d < 1024" "p6_plausible d" "\<not> p6_accepts d"
    have "p6_receive d buf = Some (None, poke 0 d buf)"
      using d(2,3) b
      by (auto simp: p6_receive_def p6_accepts_def p6_plausible_def header_len_def Let_def field16_poke_whole)
    then show "\<exists>buf'. p6_receive d buf = Some (None, buf') \<and> length buf' = 1024" using n d by simp
  next
    assume "length d = 1024" "p6_accepts d"
    then show "p6_receive d buf = None"
      using a shown_data_full [of d 1024 buf "header_len 0 d"] n by (simp add: header_len_def)
  }
qed

interpretation p7: raw_receiver p7_receive BUF_SIZE p7_accepts p7_plausible "header_len 14"
proof
  fix buf d :: "byte list" assume n: "length buf = BUF_SIZE"
  have b: "poke 0 d buf ! 14 = d ! 14" "poke 0 d buf ! 23 = d ! 23" if "42 \<le> length d"
    using that by (simp_all add: poke_whole nth_append)
  have a: "p7_receive d buf = shown (show_data BUF_SIZE (header_len 14 d) (length d) (poke 0 d buf))" if "p7_accepts d"
    using that b by (auto simp: p7_receive_def p7_accepts_def header_len_def Let_def field16_poke_whole)
  { assume "length d < BUF_SIZE" "p7_accepts d"
    then show "\<exists>buf'. p7_receive d buf = Some (Some (cstr (drop (header_len 14 d) d)), buf')"
      using shown_data_poke [of "header_len 14 d" d buf BUF_SIZE] n a by (simp add: p7_accepts_def)
  next
    assume d: "length d < BUF_SIZE" "p7_plausible d" "\<not> p7_accepts d"
    have "p7_receive d buf = Some (None, poke 0 d buf)"
      using d(2,3) b
      by (auto simp: p7_receive_def p7_accepts_def p7_plausible_def header_len_def Let_def field16_poke_whole)
    then show "\<exists>buf'. p7_receive d buf = Some (None, buf') \<and> length buf' = BUF_SIZE" using n d by simp
  next
    assume "length d = BUF_SIZE" "p7_accepts d"
    then show "p7_receive d buf = None"
      using a shown_data_full [of d BUF_SIZE buf "header_len 14 d"] n by (simp add: header_len_def)
  }
qed

section \<open>Properties\<close>

text \<open>
  Claim C40. The raw-socket clients print the first answer and stay inside their buffer except for one
  length: whatever datagrams come first, as long as they are no answers and, for \<^verbatim>\<open>p6\<close> and \<^verbatim>\<open>p7\<close>, their
  headers do not announce more than was received, the client prints the data of the first answer up to a
  NUL. An answer that fills the buffer to its last byte makes all three store the terminating NUL one byte
  behind it.
\<close>

theorem raw_clients_print_first_answer:
  assumes "length buf = 1024" and "length big = BUF_SIZE"
  shows "(\<forall>skipped d rs. (\<forall>e\<in>set skipped. length e < 1024 \<and> \<not> p5_accepts e) \<longrightarrow> p5_accepts d \<longrightarrow> length d \<le> 1024 \<longrightarrow>
        raw_loop p5_receive (map Some skipped @ Some d # rs) buf
          = (if length d < 1024 then Got (cstr (drop (header_len 0 d) d)) else Out_of_bounds))
    \<and> (\<forall>skipped d rs. (\<forall>e\<in>set skipped. length e < 1024 \<and> p6_plausible e \<and> \<not> p6_accepts e) \<longrightarrow> p6_accepts d
        \<longrightarrow> length d \<le> 1024 \<longrightarrow>
        raw_loop p6_receive (map Some skipped @ Some d # rs) buf
          = (if length d < 1024 then Got (cstr (drop (header_len 0 d) d)) else Out_of_bounds))
    \<and> (\<forall>skipped d rs. (\<forall>e\<in>set skipped. length e < BUF_SIZE \<and> p7_plausible e \<and> \<not> p7_accepts e) \<longrightarrow> p7_accepts d
        \<longrightarrow> length d \<le> BUF_SIZE \<longrightarrow>
        raw_loop p7_receive (map Some skipped @ Some d # rs) big
          = (if length d < BUF_SIZE then Got (cstr (drop (header_len 14 d) d)) else Out_of_bounds))"
  using p5.first_answer [OF assms(1)] p6.first_answer [OF assms(1)] p7.first_answer [OF assms(2)]
  by (intro conjI allI impI) simp_all

definition answer_Hi :: "byte list" where
  "answer_Hi = [0x45] @ replicate 19 0 @ bytes16 (htons SERVER_PORT) @ replicate 6 0 @ [72, 105]"

theorem raw_clients_print_first_answer_witness:
  "raw_loop p5_receive [Some (fst (p5_packet (replicate 1024 0))), Some answer_Hi] (replicate 1024 7) = Got [72, 105]"
proof -
  have b: "bytes16 (htons SERVER_PORT) = [48, 57]" "bytes16 (htons CLIENT_PORT) = [212, 49]"
    by code_simp+
  have h: "header_len 0 answer_Hi = 28" "length answer_Hi = 30"
    by (simp_all add: header_len_def answer_Hi_def)
  have "field16 answer_Hi 20 = SERVER_PORT"
    by (rule field16_bytes) (simp_all add: answer_Hi_def bytes16_htons nth_append)
  then have a: "p5_accepts answer_Hi"
    using h by (simp add: p5_accepts_def) (simp add: answer_Hi_def)
  let ?p = "fst (p5_packet (replicate 1024 0))"
  have p: "length ?p = 21" "?p ! 0 = 212"
    by (simp_all add: p5_packet_def put_udp_def Let_def hello_def b nth_poke_out nth_poke_in)
  then have na: "\<not> p5_accepts ?p"
    by (simp add: p5_accepts_def header_len_def)
  have "raw_loop p5_receive (map Some [?p] @ Some answer_Hi # []) (replicate 1024 7)
      = (if length answer_Hi < 1024 then Got (cstr (drop (header_len 0 answer_Hi) answer_Hi)) else Out_of_bounds)"
    by (rule raw_clients_print_first_answer [of "replicate 1024 7" "replicate 1500 7", THEN conjunct1, rule_format])
      (use a p h na in auto)
  then show ?thesis
    using h by (simp add: answer_Hi_def cstr_Cons)
qed

end
