(* ===== verification/Sockets.thy ===== *)
theory Sockets
  imports CPrelude
begin

text \<open>
  The small socket programs of \<^verbatim>\<open>hw16_sockets\<close>: the four client/server pairs of \<^verbatim>\<open>p1\<close>, the broadcast and
  multicast programs of \<^verbatim>\<open>p3\<close>, the sniffer of \<^verbatim>\<open>p4\<close>, and of \<^verbatim>\<open>p2_server_template\<close> the epoll server and the
  thread-per-client server with their clients. Each \<^verbatim>\<open>main\<close> is a tree of system calls: a call, and for every result the rest
  of the program. The analysis follows descriptors and the receive buffer along all results the calls
  are documented to have.
\<close>

section \<open>Programs as trees of calls\<close>

text \<open>
  \<open>Open\<close> stands for a call that returns a new descriptor, \<open>Op\<close> for one that acts on a descriptor without
  data (\<^verbatim>\<open>bind\<close>, \<^verbatim>\<open>listen\<close>, \<^verbatim>\<open>connect\<close>, \<^verbatim>\<open>setsockopt\<close>, \<^verbatim>\<open>epoll_ctl\<close>), \<open>Lib\<close> for one without a
  descriptor; \<open>Thread\<close> starts a thread that takes over a descriptor.
\<close>

datatype call = Open string | Accept int | Op string int | Lib string | Recv int nat | Send int string
  | Wait int nat | Thread int | Close int | Unlink string | Perror string | Print string "byte list"

record result =
  ret :: int
  bytes :: "byte list"
  ready :: "int list"

text \<open>\<open>Again\<close> goes to the head of the program's loop with the descriptors it needs and the buffer.\<close>

datatype prog = Exit int | Again "int list" "byte list" | Undefined | Do call "result \<Rightarrow> prog"

definition Then :: "call \<Rightarrow> prog \<Rightarrow> prog" where
  "Then c p = Do c (\<lambda>_. p)"

fun closing :: "int list \<Rightarrow> prog \<Rightarrow> prog" where
  "closing [] p = p"
| "closing (fd # fds) p = Then (Close fd) (closing fds p)"

text \<open>The error path of all these programs: \<^verbatim>\<open>perror(msg); close(...); exit(EXIT_FAILURE);\<close>\<close>

definition fail :: "string \<Rightarrow> int list \<Rightarrow> prog" where
  "fail msg fds = Then (Perror msg) (closing fds (Exit 1))"

text \<open>A call whose negative result leads to the error path.\<close>

definition check :: "call \<Rightarrow> string \<Rightarrow> int list \<Rightarrow> (result \<Rightarrow> prog) \<Rightarrow> prog" where
  "check c msg fds k = Do c (\<lambda>r. if ret r < 0 then fail msg fds else k r)"

text \<open>\<^verbatim>\<open>buffer[len] = '\0'\<close> after \<open>len\<close> bytes were received into the buffer.\<close>

definition terminate :: "result \<Rightarrow> byte list \<Rightarrow> (byte list \<Rightarrow> prog) \<Rightarrow> prog" where
  "terminate r buf k = (case store 0 (bytes r @ [0]) buf of None \<Rightarrow> Undefined | Some b \<Rightarrow> k b)"

section \<open>The pairs of p1\<close>

definition inet_stream_server :: "byte list \<Rightarrow> prog" where
  "inet_stream_server buf =
     check (Open ''socket'') ''socked'' [] (\<lambda>s. let server_fd = ret s in
     check (Op ''bind'' server_fd) ''bind'' [server_fd] (\<lambda>_.
     check (Op ''listen'' server_fd) ''listen'' [server_fd] (\<lambda>_.
     check (Accept server_fd) ''accept'' [server_fd] (\<lambda>c. let client_fd = ret c in
     check (Recv client_fd 1023) ''recv'' [client_fd, server_fd] (\<lambda>r. terminate r buf (\<lambda>buf.
     Then (Print ''Received from client'' (cstr buf))
     (Then (Send client_fd ''Hi'') (closing [client_fd, server_fd] (Exit 0)))))))))"

definition inet_stream_client :: "byte list \<Rightarrow> prog" where
  "inet_stream_client buf =
     check (Open ''socket'') ''socket'' [] (\<lambda>s. let sock_fd = ret s in
     Do (Lib ''inet_pton'') (\<lambda>a. if ret a \<le> 0 then fail ''inet_pton'' [sock_fd] else
     check (Op ''connect'' sock_fd) ''connect'' [sock_fd] (\<lambda>_.
     Then (Send sock_fd ''Hello'')
     (check (Recv sock_fd 1023) ''recv'' [sock_fd] (\<lambda>r. terminate r buf (\<lambda>buf.
     Then (Print ''Received from server'' (cstr buf)) (closing [sock_fd] (Exit 0))))))))"

definition inet_dgram_server :: "byte list \<Rightarrow> prog" where
  "inet_dgram_server buf =
     check (Open ''socket'') ''socket'' [] (\<lambda>s. let sock_fd = ret s in
     check (Op ''bind'' sock_fd) ''bind'' [sock_fd] (\<lambda>_.
     check (Recv sock_fd 1023) ''recvfrom'' [sock_fd] (\<lambda>r. terminate r buf (\<lambda>buf.
     Then (Print ''Received from client'' (cstr buf))
     (check (Send sock_fd ''Hi'') ''sendto'' [sock_fd] (\<lambda>_. closing [sock_fd] (Exit 0)))))))"

definition inet_dgram_client :: "byte list \<Rightarrow> prog" where
  "inet_dgram_client buf =
     check (Open ''socket'') ''socket'' [] (\<lambda>s. let sock_fd = ret s in
     Do (Lib ''inet_pton'') (\<lambda>a. if ret a \<le> 0 then fail ''inet_pron'' [sock_fd] else
     check (Send sock_fd ''Hello'') ''sendto'' [sock_fd] (\<lambda>_.
     check (Recv sock_fd 1023) ''recvfrom'' [sock_fd] (\<lambda>r. terminate r buf (\<lambda>buf.
     Then (Print ''Received from server'' (cstr buf)) (closing [sock_fd] (Exit 0)))))))"

definition local_stream_server :: "byte list \<Rightarrow> prog" where
  "local_stream_server buf =
     check (Open ''socket'') ''socket'' [] (\<lambda>s. let server_fd = ret s in
     Then (Unlink ''/tmp/unix_socket'')
     (check (Op ''bind'' server_fd) ''bind'' [server_fd] (\<lambda>_.
     check (Op ''listen'' server_fd) ''listen'' [server_fd] (\<lambda>_.
     check (Accept server_fd) ''accept'' [server_fd] (\<lambda>c. let client_fd = ret c in
     check (Recv client_fd 1023) ''read'' [client_fd, server_fd] (\<lambda>r. terminate r buf (\<lambda>buf.
     Then (Print ''Received from client'' (cstr buf))
     (check (Send client_fd ''Hi'') ''write'' [client_fd, server_fd] (\<lambda>_.
     closing [client_fd, server_fd] (Then (Unlink ''/tmp/unix_socket'') (Exit 0)))))))))))"

definition local_stream_client :: "byte list \<Rightarrow> prog" where
  "local_stream_client buf =
     check (Open ''socket'') ''socket'' [] (\<lambda>s. let sock_fd = ret s in
     check (Op ''connect'' sock_fd) ''connect'' [sock_fd] (\<lambda>_.
     check (Send sock_fd ''Hello'') ''write'' [sock_fd] (\<lambda>_.
     check (Recv sock_fd 1023) ''read'' [sock_fd] (\<lambda>r. terminate r buf (\<lambda>buf.
     Then (Print ''Received from server'' (cstr buf)) (closing [sock_fd] (Exit 0)))))))"

definition local_dgram_server :: "byte list \<Rightarrow> prog" where
  "local_dgram_server buf =
     check (Open ''socket'') ''socket'' [] (\<lambda>s. let sock_fd = ret s in
     Then (Unlink ''/tmp/unix_dgram_socket'')
     (check (Op ''bind'' sock_fd) ''bind'' [sock_fd] (\<lambda>_.
     check (Recv sock_fd 1023) ''recvfrom'' [sock_fd] (\<lambda>r. terminate r buf (\<lambda>buf.
     Then (Print ''Received from client'' (cstr buf))
     (check (Send sock_fd ''Hi'') ''sendto'' [sock_fd] (\<lambda>_.
     closing [sock_fd] (Then (Unlink ''/tmp/unix_dgram_socket'') (Exit 0)))))))))"

text \<open>Its error paths after \<^verbatim>\<open>bind\<close> also remove the client's socket file.\<close>

definition fail_unlink :: "string \<Rightarrow> int \<Rightarrow> string \<Rightarrow> prog" where
  "fail_unlink msg fd path = Then (Perror msg) (Then (Close fd) (Then (Unlink path) (Exit 1)))"

definition local_dgram_client :: "byte list \<Rightarrow> prog" where
  "local_dgram_client buf =
     (let path = ''/tmp/unix_dgram_client_socket'' in
     check (Open ''socket'') ''socket'' [] (\<lambda>s. let sock_fd = ret s in
     Then (Unlink path)
     (check (Op ''bind'' sock_fd) ''bind'' [sock_fd] (\<lambda>_.
     Do (Send sock_fd ''Hello'') (\<lambda>w. if ret w < 0 then fail_unlink ''sendto'' sock_fd path else
     Do (Recv sock_fd 1023) (\<lambda>r. if ret r < 0 then fail_unlink ''recvfrom'' sock_fd path else
     terminate r buf (\<lambda>buf.
     Then (Print ''Received from server'' (cstr buf))
     (closing [sock_fd] (Then (Unlink path) (Exit 0))))))))))"

section \<open>Broadcast and multicast (p3)\<close>

text \<open>Set-up, then the loop's body, which is entered and left through \<open>Again\<close>.\<close>

definition broadcast_server :: "byte list \<Rightarrow> prog" where
  "broadcast_server buf =
     check (Open ''socket'') ''socket creation failed'' [] (\<lambda>s. let sockfd = ret s in
     check (Op ''setsockopt'' sockfd) ''setsockopt SO_BROADCAST failed'' [sockfd] (\<lambda>_. Again [sockfd] buf))"

definition broadcast_server_body :: "int list \<Rightarrow> byte list \<Rightarrow> prog" where
  "broadcast_server_body fds buf =
     Do (Send (fds ! 0) ''Broadcast message from server!'') (\<lambda>w.
       if ret w < 0 then Then (Perror ''sendto failed'') (Again fds buf)
       else Then (Print ''Broadcast sent'' []) (Again fds buf))"

definition multicast_server :: "byte list \<Rightarrow> prog" where
  "multicast_server buf =
     check (Open ''socket'') ''socket creation failed'' [] (\<lambda>s. Again [ret s] buf)"

definition multicast_server_body :: "int list \<Rightarrow> byte list \<Rightarrow> prog" where
  "multicast_server_body fds buf =
     Do (Send (fds ! 0) ''Multicast message from server!'') (\<lambda>w.
       if ret w < 0 then Then (Perror ''sendto failed'') (Again fds buf)
       else Then (Print ''Multicast sent'' []) (Again fds buf))"

definition broadcast_client :: "byte list \<Rightarrow> prog" where
  "broadcast_client buf =
     check (Open ''socket'') ''socket creation failed'' [] (\<lambda>s. let sockfd = ret s in
     check (Op ''setsockopt'' sockfd) ''setsockopt SO_REUSEADDR failed'' [sockfd] (\<lambda>_.
     check (Op ''bind'' sockfd) ''bind failed'' [sockfd] (\<lambda>_. Again [sockfd] buf)))"

definition multicast_client :: "byte list \<Rightarrow> prog" where
  "multicast_client buf =
     check (Open ''socket'') ''socket creation failed'' [] (\<lambda>s. let sockfd = ret s in
     check (Op ''setsockopt'' sockfd) ''setsockopt SO_REUSEADDR failed'' [sockfd] (\<lambda>_.
     check (Op ''bind'' sockfd) ''bind failed'' [sockfd] (\<lambda>_.
     check (Op ''setsockopt'' sockfd) ''setsockopt IP_ADD_MEMBERSHIP failed'' [sockfd] (\<lambda>_. Again [sockfd] buf))))"

text \<open>The receiving loop, the same in both clients: the whole buffer is offered to \<^verbatim>\<open>recvfrom\<close>.\<close>

definition cast_client_body :: "int list \<Rightarrow> byte list \<Rightarrow> prog" where
  "cast_client_body fds buf =
     Do (Recv (fds ! 0) 1024) (\<lambda>r.
       if ret r < 0 then Then (Perror ''recvfrom failed'') (Again fds buf)
       else terminate r buf (\<lambda>buf. Then (Print ''Received broadcast message'' (cstr buf)) (Again fds buf)))"

section \<open>Servers for many clients (p2)\<close>

definition text_bytes :: "string \<Rightarrow> byte list" where
  "text_bytes s = map of_char s"

text \<open>\<^verbatim>\<open>multiprotocol_server/server.c\<close>: TCP and UDP sockets on one port, watched with \<^verbatim>\<open>epoll\<close>.\<close>

definition multi_setup :: "int \<Rightarrow> int \<Rightarrow> byte list \<Rightarrow> prog" where
  "multi_setup tcp_socket udp_socket buf =
     check (Op ''bind'' tcp_socket) ''bind_tcp'' [tcp_socket, udp_socket] (\<lambda>_.
     check (Op ''bind'' udp_socket) ''bind_udp'' [tcp_socket, udp_socket] (\<lambda>_.
     check (Op ''listen'' tcp_socket) ''listen'' [tcp_socket, udp_socket] (\<lambda>_.
     check (Open ''epoll_create1'') ''epol_create1'' [tcp_socket, udp_socket] (\<lambda>e. let epoll_fd = ret e in
     check (Op ''epoll_ctl'' epoll_fd) ''epoll_ctl tcp-socket'' [tcp_socket, udp_socket, epoll_fd] (\<lambda>_.
     check (Op ''epoll_ctl'' epoll_fd) ''epoll_ctl udp_socket'' [tcp_socket, udp_socket, epoll_fd] (\<lambda>_.
     Again [tcp_socket, udp_socket, epoll_fd] buf))))))"

definition multi_server :: "byte list \<Rightarrow> prog" where
  "multi_server buf =
     check (Open ''socket'') ''socket_tcp'' [] (\<lambda>t.
     check (Open ''socket'') ''socket_udp'' [] (\<lambda>u. multi_setup (ret t) (ret u) buf))"

definition tcp_event :: "int \<Rightarrow> byte list \<Rightarrow> (byte list \<Rightarrow> prog) \<Rightarrow> prog" where
  "tcp_event tcp_socket buf k =
     Do (Accept tcp_socket) (\<lambda>c.
       if ret c < 0 then Then (Perror ''accept'') (k buf)
       else Do (Recv (ret c) 1023) (\<lambda>r.
         if ret r > 0 then terminate r buf (\<lambda>buf.
           Then (Print ''TCP recv'' (cstr buf))
           (if cstr buf = text_bytes ''Hello''
            then Then (Send (ret c) (''Salut from TCP'' @ [CHR 0x0A])) (Then (Close (ret c)) (k buf))
            else Then (Close (ret c)) (k buf)))
         else Then (Close (ret c)) (k buf)))"

definition udp_event :: "int \<Rightarrow> byte list \<Rightarrow> (byte list \<Rightarrow> prog) \<Rightarrow> prog" where
  "udp_event udp_socket buf k =
     Do (Recv udp_socket 1023) (\<lambda>r.
       if ret r < 0 then Then (Perror ''recvfrom'') (k buf)
       else terminate r buf (\<lambda>buf.
         Then (Print ''UDP recv from'' (cstr buf))
         (if cstr buf = text_bytes ''Hi''
          then Then (Send udp_socket (''Salut form UDP'' @ [CHR 0x0A])) (k buf) else k buf)))"

fun events :: "int \<Rightarrow> int \<Rightarrow> int list \<Rightarrow> byte list \<Rightarrow> (byte list \<Rightarrow> prog) \<Rightarrow> prog" where
  "events tcp_socket udp_socket [] buf k = k buf"
| "events tcp_socket udp_socket (fd # fds) buf k =
     (if fd = tcp_socket then tcp_event tcp_socket buf (\<lambda>buf. events tcp_socket udp_socket fds buf k)
      else if fd = udp_socket then udp_event udp_socket buf (\<lambda>buf. events tcp_socket udp_socket fds buf k)
      else events tcp_socket udp_socket fds buf k)"

definition multi_server_body :: "int list \<Rightarrow> byte list \<Rightarrow> prog" where
  "multi_server_body fds buf =
     Do (Wait (fds ! 2) 10) (\<lambda>n.
       if ret n < 0 then Then (Perror ''epoll_wait'') (closing fds (Exit 0))
       else events (fds ! 0) (fds ! 1) (ready n) buf (Again fds))"

text \<open>
  \<^verbatim>\<open>parallel server/server.c\<close>: a detached thread per client; \<open>Lib ''malloc''\<close> returns zero when there is no
  memory, and \<open>Thread\<close> an error number other than zero.
\<close>

definition time_server :: "byte list \<Rightarrow> prog" where
  "time_server buf =
     check (Open ''socket'') ''socket'' [] (\<lambda>s. let server_sock = ret s in
     Then (Op ''setsockopt'' server_sock)
     (check (Op ''bind'' server_sock) ''bind'' [server_sock] (\<lambda>_.
     check (Op ''listen'' server_sock) ''listen'' [server_sock] (\<lambda>_. Again [server_sock] buf))))"

definition time_server_body :: "int list \<Rightarrow> byte list \<Rightarrow> prog" where
  "time_server_body fds buf =
     Do (Lib ''malloc'') (\<lambda>m.
       if ret m = 0 then Then (Perror ''malloc'') (Again fds buf)
       else Do (Accept (fds ! 0)) (\<lambda>c.
         if ret c < 0 then Then (Perror ''accept'') (Again fds buf)
         else Then (Print ''Connected client'' [])
           (Do (Thread (ret c)) (\<lambda>t.
             if ret t \<noteq> 0 then Then (Perror ''pthread_create'') (Then (Close (ret c)) (Again fds buf))
             else Again fds buf))))"

definition client_handler :: "int \<Rightarrow> string \<Rightarrow> prog" where
  "client_handler client_sock time_text = Then (Send client_sock time_text) (Then (Close client_sock) (Exit 0))"

definition client_thread :: "byte list \<Rightarrow> prog" where
  "client_thread buf =
     Do (Open ''socket'') (\<lambda>s. if ret s = -1 then Then (Perror ''socket'') (Exit 0) else
     let sock = ret s in
     Do (Lib ''inet_pton'') (\<lambda>a. if ret a \<le> 0 then Then (Perror ''inet_pton'') (Then (Close sock) (Exit 0)) else
     Do (Op ''connect'' sock) (\<lambda>c.
       if ret c = 0 then
         Do (Recv sock 127) (\<lambda>r. if ret r > 0
           then terminate r buf (\<lambda>buf. Then (Print ''got time'' (cstr buf)) (Then (Close sock) (Exit 0)))
           else Then (Print ''Error reading from the server'' []) (Then (Close sock) (Exit 0)))
       else Then (Print ''Could not connect to the server'' []) (Then (Close sock) (Exit 0)))))"

text \<open>\<^verbatim>\<open>multiprotocol_server/client.c\<close>: one exchange over TCP, then one over UDP; no result is checked but \<^verbatim>\<open>bytes\<close>.\<close>

definition multi_client_tcp :: "int \<Rightarrow> byte list \<Rightarrow> (byte list \<Rightarrow> prog) \<Rightarrow> prog" where
  "multi_client_tcp tcp_socket buf k =
     Then (Op ''connect'' tcp_socket) (Then (Send tcp_socket ''Hello'')
     (Do (Recv tcp_socket 1023) (\<lambda>r.
       if ret r > 0 then terminate r buf (\<lambda>buf. Then (Print ''TCP server replied'' (cstr buf)) (Then (Close tcp_socket) (k buf)))
       else Then (Close tcp_socket) (k buf))))"

definition multi_client_udp :: "int \<Rightarrow> byte list \<Rightarrow> prog" where
  "multi_client_udp udp_socket buf =
     Then (Send udp_socket ''Hi'')
     (Do (Recv udp_socket 1023) (\<lambda>r.
       if ret r > 0 then terminate r buf (\<lambda>buf. Then (Print ''UDP server replied'' (cstr buf)) (Then (Close udp_socket) (Exit 0)))
       else Then (Close udp_socket) (Exit 0)))"

definition multi_client :: "byte list \<Rightarrow> prog" where
  "multi_client buf = Do (Open ''socket'') (\<lambda>t. multi_client_tcp (ret t) buf (\<lambda>buf.
     Do (Open ''socket'') (\<lambda>u. multi_client_udp (ret u) buf)))"

text \<open>\<^verbatim>\<open>p4_RAW_socket/sniffer.c\<close>: it prints lengths and looks at no byte.\<close>

definition sniffer :: "byte list \<Rightarrow> prog" where
  "sniffer buf = check (Open ''socket'') ''socket'' [] (\<lambda>s. Again [ret s] buf)"

definition sniffer_body :: "int list \<Rightarrow> byte list \<Rightarrow> prog" where
  "sniffer_body fds buf =
     check (Recv (fds ! 0) 65536) ''recvfrom'' [fds ! 0] (\<lambda>r.
       Then (Print ''Received TCP packet'' []) (Again fds (poke 0 (bytes r) buf)))"

section \<open>Discipline\<close>

text \<open>The results a call can have while the descriptors in \<open>F\<close> are open.\<close>

fun allowed :: "int set \<Rightarrow> call \<Rightarrow> result \<Rightarrow> bool" where
  "allowed F (Open _) r \<longleftrightarrow> ret r = -1 \<or> 0 \<le> ret r \<and> ret r \<notin> F"
| "allowed F (Accept _) r \<longleftrightarrow> ret r = -1 \<or> 0 \<le> ret r \<and> ret r \<notin> F"
| "allowed F (Recv _ n) r \<longleftrightarrow> ret r = -1 \<or> 0 \<le> ret r \<and> nat (ret r) \<le> n \<and> length (bytes r) = nat (ret r)"
| "allowed F (Wait _ n) r \<longleftrightarrow> ret r = -1 \<or> 0 \<le> ret r \<and> nat (ret r) \<le> n \<and> length (ready r) = nat (ret r)"
| "allowed F _ r \<longleftrightarrow> True"

fun uses :: "call \<Rightarrow> int set" where
  "uses (Accept fd) = {fd}"
| "uses (Op _ fd) = {fd}"
| "uses (Recv fd _) = {fd}"
| "uses (Send fd _) = {fd}"
| "uses (Wait fd _) = {fd}"
| "uses (Thread fd) = {fd}"
| "uses (Close fd) = {fd}"
| "uses _ = {}"

fun after :: "int set \<Rightarrow> call \<Rightarrow> result \<Rightarrow> int set" where
  "after F (Open _) r = (if ret r \<ge> 0 then insert (ret r) F else F)"
| "after F (Accept _) r = (if ret r \<ge> 0 then insert (ret r) F else F)"
| "after F (Close fd) r = F - {fd}"
| "after F (Thread fd) r = (if ret r = 0 then F - {fd} else F)"
| "after F _ r = F"

text \<open>
  A program is safe from the open descriptors \<open>F\<close> when on all its paths it acts on open descriptors only,
  never leaves its buffer of \<open>N\<close> bytes, has closed everything when it ends, and goes to the head of its
  loop with exactly the \<open>L\<close> different descriptors of the loop open.
\<close>

primrec safe :: "nat \<Rightarrow> nat \<Rightarrow> prog \<Rightarrow> int set \<Rightarrow> bool" where
  "safe N L (Exit n) F \<longleftrightarrow> F = {}"
| "safe N L (Again fds b) F \<longleftrightarrow> F = set fds \<and> distinct fds \<and> length fds = L \<and> length b = N"
| "safe N L Undefined F \<longleftrightarrow> False"
| "safe N L (Do c k) F \<longleftrightarrow> uses c \<subseteq> F \<and> (\<forall>r. allowed F c r \<longrightarrow> safe N L (k r) (after F c r))"

text \<open>The descriptors and the way a run ends, for a list of results; \<open>Cut\<close> is a run with no more results.\<close>

datatype run_end = Ended int | Looped "int list" "byte list" | Broken | Cut

primrec run :: "prog \<Rightarrow> result list \<Rightarrow> (call \<times> result) list \<times> run_end \<times> result list" where
  "run (Exit n) rs = ([], Ended n, rs)"
| "run (Again fds b) rs = ([], Looped fds b, rs)"
| "run Undefined rs = ([], Broken, rs)"
| "run (Do c k) rs = (case rs of [] \<Rightarrow> ([], Cut, [])
     | r # rs' \<Rightarrow> (case run (k r) rs' of (tr, e, rest) \<Rightarrow> ((c, r) # tr, e, rest)))"

text \<open>A program with a loop, for a number of iterations.\<close>

fun run_loop :: "nat \<Rightarrow> (int list \<Rightarrow> byte list \<Rightarrow> prog) \<Rightarrow> prog \<Rightarrow> result list \<Rightarrow> (call \<times> result) list \<times> run_end" where
  "run_loop n body p rs = (case run p rs of
       (tr, Looped fds b, rest) \<Rightarrow> (case n of 0 \<Rightarrow> (tr, Cut)
          | Suc m \<Rightarrow> (case run_loop m body (body fds b) rest of (tr', e) \<Rightarrow> (tr @ tr', e)))
     | (tr, e, rest) \<Rightarrow> (tr, e))"

declare run_loop.simps [simp del]

fun trace_allowed :: "int set \<Rightarrow> (call \<times> result) list \<Rightarrow> bool" where
  "trace_allowed F [] \<longleftrightarrow> True"
| "trace_allowed F ((c, r) # tr) \<longleftrightarrow> allowed F c r \<and> trace_allowed (after F c r) tr"

fun trace_good :: "int set \<Rightarrow> (call \<times> result) list \<Rightarrow> bool" where
  "trace_good F [] \<longleftrightarrow> True"
| "trace_good F ((c, r) # tr) \<longleftrightarrow> uses c \<subseteq> F \<and> trace_good (after F c r) tr"

fun open_after :: "int set \<Rightarrow> (call \<times> result) list \<Rightarrow> int set" where
  "open_after F [] = F"
| "open_after F ((c, r) # tr) = open_after (after F c r) tr"

definition good_run :: "int set \<Rightarrow> (call \<times> result) list \<times> run_end \<Rightarrow> bool" where
  "good_run F t \<longleftrightarrow> trace_good F (fst t) \<and> snd t \<noteq> Broken
     \<and> (\<forall>n. snd t = Ended n \<longrightarrow> open_after F (fst t) = {})"

lemma open_after_append: "open_after F (xs @ ys) = open_after (open_after F xs) ys"
  by (induction xs arbitrary: F) auto

lemma trace_append:
  "trace_allowed F (xs @ ys) \<longleftrightarrow> trace_allowed F xs \<and> trace_allowed (open_after F xs) ys"
  "trace_good F (xs @ ys) \<longleftrightarrow> trace_good F xs \<and> trace_good (open_after F xs) ys"
  by (induction xs arbitrary: F) auto

lemma run_safe:
  "safe N L p F \<Longrightarrow> run p rs = (tr, e, rest) \<Longrightarrow> trace_allowed F tr \<Longrightarrow> good_run F (tr, e)
     \<and> (\<forall>fds b. e = Looped fds b \<longrightarrow> open_after F tr = set fds \<and> distinct fds \<and> length fds = L \<and> length b = N)"
proof (induction p arbitrary: F rs tr)
  case (Do c k)
  show ?case
  proof (cases rs)
    case Nil
    then show ?thesis using Do.prems by (auto simp: good_run_def)
  next
    case (Cons r rs')
    obtain tr' e' rest' where r: "run (k r) rs' = (tr', e', rest')" by (cases "run (k r) rs'")
    then have t: "tr = (c, r) # tr'" "e = e'" "rest = rest'" using Do.prems Cons by simp_all
    have "safe N L (k r) (after F c r)" "trace_allowed (after F c r) tr'" using Do.prems t by simp_all
    from Do.IH [OF rangeI this(1) _ this(2), of rs'] r Do.prems(1)
    show ?thesis by (auto simp: good_run_def t)
  qed
qed (auto simp: good_run_def)

lemma run_end_cases: "run p rs = (tr, e, rest) \<Longrightarrow> e = Cut \<or> e = Broken \<or> (\<exists>n. e = Ended n) \<or> (\<exists>fds b. e = Looped fds b)"
  by (cases e) auto

text \<open>A loop whose body is safe, and a program whose set-up leads to such a loop.\<close>

locale socket_loop =
  fixes N L :: nat and body :: "int list \<Rightarrow> byte list \<Rightarrow> prog"
  assumes body_safe: "length fds = L \<Longrightarrow> distinct fds \<Longrightarrow> length buf = N \<Longrightarrow> safe N L (body fds buf) (set fds)"
begin

lemma loop_good: "safe N L p F \<Longrightarrow> trace_allowed F (fst (run_loop n body p rs)) \<Longrightarrow> good_run F (run_loop n body p rs)"
proof (induction n arbitrary: p F rs)
  case 0
  obtain tr e rest where r: "run p rs = (tr, e, rest)" by (cases "run p rs")
  have t: "run_loop 0 body p rs = (tr, case e of Looped _ _ \<Rightarrow> Cut | _ \<Rightarrow> e)"
    by (subst run_loop.simps) (simp add: r split: run_end.split)
  show ?case
    using run_safe [OF 0(1) r] 0(2) unfolding t by (cases e) (auto simp: good_run_def)
next
  case (Suc n)
  obtain tr e rest where r: "run p rs = (tr, e, rest)" by (cases "run p rs")
  show ?case
  proof (cases "\<exists>fds b. e = Looped fds b")
    case True
    then obtain fds b where e: "e = Looped fds b" by auto
    obtain tr' e' where r': "run_loop n body (body fds b) rest = (tr', e')" by (cases "run_loop n body (body fds b) rest")
    have t: "run_loop (Suc n) body p rs = (tr @ tr', e')"
      by (subst run_loop.simps) (simp add: r e r')
    have a: "trace_allowed F tr" "trace_allowed (open_after F tr) tr'"
      using Suc.prems(2) by (simp_all add: t trace_append)
    from run_safe [OF Suc.prems(1) r a(1)] e
    have g: "good_run F (tr, e)" and o: "open_after F tr = set fds" and f: "distinct fds" "length fds = L" "length b = N"
      by auto
    have "good_run (set fds) (tr', e')"
      using Suc.IH [OF body_safe [OF f(2,1,3)], of rest] a(2) o r' by simp
    then show ?thesis
      using g o by (auto simp: t good_run_def trace_append open_after_append)
  next
    case False
    then have t: "run_loop (Suc n) body p rs = (tr, e)"
      by (subst run_loop.simps) (simp add: r split: run_end.split)
    then show ?thesis using run_safe [OF Suc.prems(1) r] Suc.prems(2) by simp
  qed
qed

end

locale socket_program = socket_loop +
  fixes start :: "byte list \<Rightarrow> prog"
  assumes start_safe: "length buf = N \<Longrightarrow> safe N L (start buf) {}"
begin

lemma runs_good:
  "length buf = N \<Longrightarrow> trace_allowed {} (fst (run_loop n body (start buf) rs)) \<Longrightarrow> good_run {} (run_loop n body (start buf) rs)"
  by (rule loop_good [OF start_safe])

end

section \<open>The programs are disciplined\<close>

lemma safe_Then: "safe N L (Then c p) F \<longleftrightarrow> uses c \<subseteq> F \<and> (\<forall>r. allowed F c r \<longrightarrow> safe N L p (after F c r))"
  by (simp add: Then_def)

lemma safe_closing: "distinct fds \<Longrightarrow> set fds \<subseteq> F \<Longrightarrow> safe N L p (F - set fds) \<Longrightarrow> safe N L (closing fds p) F"
proof (induction fds arbitrary: F)
  case (Cons fd fds)
  have "F - {fd} - set fds = F - set (fd # fds)" by auto
  then have "safe N L (closing fds p) (F - {fd})" using Cons.prems by (intro Cons.IH) (auto simp del: Diff_insert)
  then show ?case using Cons.prems by (simp add: safe_Then)
qed simp

lemma safe_fail: "distinct fds \<Longrightarrow> safe N L (fail msg fds) (set fds)"
  by (simp add: fail_def safe_Then safe_closing)

text \<open>Rules for the idioms, with the descriptors as an explicit set.\<close>

lemma safe_check:
  assumes "uses c \<subseteq> F" "\<And>r. allowed F c r \<Longrightarrow> ret r < 0 \<Longrightarrow> after F c r = set fds \<and> distinct fds"
    "\<And>r. allowed F c r \<Longrightarrow> 0 \<le> ret r \<Longrightarrow> safe N L (k r) (after F c r)"
  shows "safe N L (check c msg fds k) F"
  using assms by (auto simp: check_def not_less) (metis safe_fail)

lemma safe_terminate:
  assumes "length (bytes r) < length buf" "\<And>b. length b = length buf \<Longrightarrow> safe N L (k b) F"
  shows "safe N L (terminate r buf k) F"
  using assms by (simp add: terminate_def store_def)

lemma inet_stream_server_safe: "length buf = 1024 \<Longrightarrow> safe 1024 0 (inet_stream_server buf) {}"
  unfolding inet_stream_server_def Let_def
  by (intro safe_check) (auto simp: safe_Then intro!: safe_check safe_terminate)

lemma inet_stream_client_safe: "length buf = 1024 \<Longrightarrow> safe 1024 0 (inet_stream_client buf) {}"
  unfolding inet_stream_client_def Let_def
  by (intro safe_check) (auto simp: safe_Then fail_def intro!: safe_check safe_terminate)

lemma inet_dgram_server_safe: "length buf = 1024 \<Longrightarrow> safe 1024 0 (inet_dgram_server buf) {}"
  unfolding inet_dgram_server_def Let_def
  by (intro safe_check) (auto simp: safe_Then intro!: safe_check safe_terminate)

lemma inet_dgram_client_safe: "length buf = 1024 \<Longrightarrow> safe 1024 0 (inet_dgram_client buf) {}"
  unfolding inet_dgram_client_def Let_def
  by (intro safe_check) (auto simp: safe_Then fail_def intro!: safe_check safe_terminate)

lemma local_stream_server_safe: "length buf = 1024 \<Longrightarrow> safe 1024 0 (local_stream_server buf) {}"
  unfolding local_stream_server_def Let_def
  by (intro safe_check) (auto simp: safe_Then intro!: safe_check safe_terminate)

lemma local_stream_client_safe: "length buf = 1024 \<Longrightarrow> safe 1024 0 (local_stream_client buf) {}"
  unfolding local_stream_client_def Let_def
  by (intro safe_check) (auto simp: safe_Then intro!: safe_check safe_terminate)

lemma local_dgram_server_safe: "length buf = 1024 \<Longrightarrow> safe 1024 0 (local_dgram_server buf) {}"
  unfolding local_dgram_server_def Let_def
  by (intro safe_check) (auto simp: safe_Then intro!: safe_check safe_terminate)

lemma local_dgram_client_safe: "length buf = 1024 \<Longrightarrow> safe 1024 0 (local_dgram_client buf) {}"
  unfolding local_dgram_client_def Let_def
  by (intro safe_check) (auto simp: safe_Then fail_unlink_def intro!: safe_check safe_terminate)

lemma client_handler_safe: "safe 64 0 (client_handler fd t) {fd}"
  by (simp add: client_handler_def safe_Then)

lemma client_thread_safe: "length buf = 128 \<Longrightarrow> safe 128 0 (client_thread buf) {}"
  unfolding client_thread_def Let_def
  by (auto simp: safe_Then intro!: safe_terminate)

lemma safe_events:
  assumes "tcp \<in> F" "udp \<in> F" "\<And>b. length b = 1024 \<Longrightarrow> safe 1024 L (k b) F" "length buf = 1024"
  shows "safe 1024 L (events tcp udp fds buf k) F"
  using assms(4)
proof (induction fds arbitrary: buf)
  case (Cons fd fds)
  have s: "insert c F - {c} = F" if "c \<notin> F" for c using that by auto
  show ?case
    using Cons assms(1,2)
    by (auto simp: tcp_event_def udp_event_def safe_Then s intro!: safe_terminate)
qed (use assms in simp)

lemma length_one: "length fds = 1 \<Longrightarrow> \<exists>fd. fds = [fd]"
  by (cases fds) auto

interpretation broadcast: socket_program 1024 1 broadcast_server_body broadcast_server
proof
  fix fds :: "int list" and buf :: "byte list" assume "length fds = 1" "length buf = 1024"
  then show "safe 1024 1 (broadcast_server_body fds buf) (set fds)"
    using length_one [of fds] by (auto simp: broadcast_server_body_def safe_Then)
qed (unfold broadcast_server_def Let_def, intro safe_check, auto intro!: safe_check)

interpretation multicast: socket_program 1024 1 multicast_server_body multicast_server
proof
  fix fds :: "int list" and buf :: "byte list" assume "length fds = 1" "length buf = 1024"
  then show "safe 1024 1 (multicast_server_body fds buf) (set fds)"
    using length_one [of fds] by (auto simp: multicast_server_body_def safe_Then)
qed (unfold multicast_server_def, intro safe_check, auto)

interpretation sniffs: socket_program 65536 1 sniffer_body sniffer
proof
  fix fds :: "int list" and buf :: "byte list" assume a: "length fds = 1" "length buf = 65536"
  then show "safe 65536 1 (sniffer_body fds buf) (set fds)"
    using length_one [of fds] by (auto simp: sniffer_body_def safe_Then intro!: safe_check)
qed (unfold sniffer_def, intro safe_check, auto)

interpretation time: socket_program 64 1 time_server_body time_server
proof
  fix fds :: "int list" and buf :: "byte list" assume a: "length fds = 1" "length buf = 64"
  have s: "insert c F - {c} = F" if "c \<notin> F" for c and F :: "int set" using that by auto
  show "safe 64 1 (time_server_body fds buf) (set fds)"
    using length_one [of fds] a by (auto simp: time_server_body_def safe_Then)
qed (unfold time_server_def Let_def, intro safe_check, auto simp: safe_Then intro!: safe_check)

lemma multi_client_udp_safe: "length buf = 1024 \<Longrightarrow> safe 1024 0 (multi_client_udp fd buf) {fd}"
  unfolding multi_client_udp_def by (auto simp: safe_Then intro!: safe_terminate)

lemma multi_client_tcp_safe:
  assumes "length buf = 1024" "\<And>b. length b = 1024 \<Longrightarrow> safe 1024 0 (k b) {}"
  shows "safe 1024 0 (multi_client_tcp fd buf k) {fd}"
  unfolding multi_client_tcp_def using assms by (auto simp: safe_Then intro!: safe_terminate)

lemma length_three: "length fds = 3 \<Longrightarrow> \<exists>a b c. fds = [a, b, c]"
  by (auto simp: length_Suc_conv numeral_3_eq_3)

interpretation multi: socket_loop 1024 3 multi_server_body
proof
  fix fds :: "int list" and buf :: "byte list" assume a: "length fds = 3" "distinct fds" "length buf = 1024"
  from a(1) obtain t u e where f: "fds = [t, u, e]"
    using length_three by blast
  show "safe 1024 3 (multi_server_body fds buf) (set fds)"
  proof -
    have d: "distinct [t, u, e]" using a f by simp
    have "safe 1024 3 (events t u rs buf (Again [t, u, e])) (set [t, u, e])" for rs
      by (rule safe_events) (use d a in simp_all)
    moreover have "safe 1024 3 (closing [t, u, e] (Exit 0)) (set [t, u, e])"
      by (rule safe_closing) (use d in simp_all)
    ultimately show ?thesis by (simp add: multi_server_body_def f safe_Then del: closing.simps)
  qed
qed

lemma safe_check_op:
  assumes "fd \<in> F" "F = set fds" "distinct fds" "\<And>r. safe N L (k r) F"
  shows "safe N L (check (Op s fd) msg fds k) F"
  using assms by (intro safe_check) auto

lemma multi_setup_safe:
  assumes "length buf = 1024" "tcp \<noteq> udp"
  shows "safe 1024 3 (multi_setup tcp udp buf) {tcp, udp}"
proof -
  have e: "safe 1024 3 (check (Op ''epoll_ctl'' e) m1 [tcp, udp, e] (\<lambda>_.
      check (Op ''epoll_ctl'' e) m2 [tcp, udp, e] (\<lambda>_. Again [tcp, udp, e] buf))) {e, tcp, udp}"
    if "e \<noteq> tcp" "e \<noteq> udp" for e m1 m2
  proof -
    have "{e, tcp, udp} = set [tcp, udp, e]" "distinct [tcp, udp, e]" using that assms by auto
    then show ?thesis using assms(1) by (simp only:) (intro safe_check, simp_all)
  qed
  have o: "safe 1024 3 (check (Open s) m0 [tcp, udp] (\<lambda>r. check (Op ''epoll_ctl'' (ret r)) m1 [tcp, udp, ret r] (\<lambda>_.
      check (Op ''epoll_ctl'' (ret r)) m2 [tcp, udp, ret r] (\<lambda>_. Again [tcp, udp, ret r] buf)))) {tcp, udp}"
    for s m0 m1 m2
    by (rule safe_check) (use assms(2) e in auto)
  show ?thesis
    unfolding multi_setup_def Let_def using assms(2) by (intro safe_check_op o) auto
qed

section \<open>Properties\<close>

lemma safe_run_good:
  "safe N L p {} \<Longrightarrow> (case run p rs of (tr, e, _) \<Rightarrow> trace_allowed {} tr \<longrightarrow> good_run {} (tr, e))"
  using run_safe [of N L p "{}" rs] by (cases "run p rs") auto

definition one_shot :: "byte list \<Rightarrow> prog list" where
  "one_shot buf = [inet_stream_server buf, inet_stream_client buf, inet_dgram_server buf, inet_dgram_client buf,
     local_stream_server buf, local_stream_client buf, local_dgram_server buf, local_dgram_client buf]"


definition results :: "(int \<times> byte list) list \<Rightarrow> result list" where
  "results xs = map (\<lambda>(n, b). \<lparr>ret = n, bytes = b, ready = []\<rparr>) xs"


text \<open>
  Where the discipline ends: the receiving clients of \<^verbatim>\<open>p3\<close> offer \<^verbatim>\<open>recvfrom\<close> their whole buffer and store
  the NUL behind it when a datagram fills it, the client of the epoll server goes on with a socket it did not get, and that
  server leaves its TCP socket open when the UDP socket cannot be made.
\<close>

lemma cast_client_overruns:
  assumes "length buf = 1024" "length d = 1024"
  shows "run (cast_client_body [fd] buf) (results [(1024, d)]) = ([(Recv fd 1024, \<lparr>ret = 1024, bytes = d, ready = []\<rparr>)], Broken, [])"
  using assms by (simp add: cast_client_body_def results_def terminate_def store_def)

lemma multi_client_unchecked:
  "case run (multi_client buf) (results [(-1, []), (-1, [])]) of (tr, e, _) \<Rightarrow> trace_allowed {} tr \<and> \<not> trace_good {} tr"
  by (simp add: multi_client_def multi_client_tcp_def results_def Then_def)

lemma multi_server_leaks:
  "case run (multi_server buf) (results [(3, []), (-1, []), (0, [])]) of (tr, e, _) \<Rightarrow>
     e = Ended 1 \<and> open_after {} tr = {3}"
  by (simp add: multi_server_def check_def results_def fail_def Then_def)

end
