(* ===== verification/Setups.thy ===== *)
theory Setups
  imports Drivers Sockets
begin

text \<open>
  What comes before and after the main loops of the larger programs, as trees of calls: the sockets of the
  driver manager (\<^verbatim>\<open>final_hw_2/main.c\<close>) and the whole process of a driver, the sockets of the thread pool and of the worker pool, the \<^verbatim>\<open>main\<close> of the three
  clients that connect in parallel, and the UDP server of the raw socket exercises. Besides the descriptors, the analysis
  follows the file that \<^verbatim>\<open>bind\<close> makes for a local socket.
\<close>

section \<open>The programs\<close>

definition SOCKET_PATH :: string where "SOCKET_PATH = ''/tmp/cli_drivers.sock''"

text \<open>\<^verbatim>\<open>add_to_epoll\<close> only reports a failure.\<close>

definition add_to_epoll :: "int \<Rightarrow> prog \<Rightarrow> prog" where
  "add_to_epoll epoll_fd k =
     Do (Op ''epoll_ctl'' epoll_fd) (\<lambda>r. if ret r < 0 then Then (Perror ''epoll_ctl add failed'') k else k)"

text \<open>The reading of up to \<open>n\<close> commands; \<^verbatim>\<open>fgets\<close> returns zero at the end of the input. (The commands are in \<open>Drivers\<close>.)\<close>

fun command_loop :: "nat \<Rightarrow> prog \<Rightarrow> prog" where
  "command_loop 0 k = k"
| "command_loop (Suc n) k = Do (Lib ''fgets'') (\<lambda>r. if ret r = 0 then k else command_loop n k)"

definition manager_end :: "int \<Rightarrow> int \<Rightarrow> prog" where
  "manager_end epoll_fd server_sock =
     Then (Close epoll_fd)
     (if server_sock \<ge> 0
      then Then (Close server_sock) (Then (Unlink SOCKET_PATH) (Then (Print ''CLI exited'' []) (Exit 0)))
      else Then (Print ''CLI exited'' []) (Exit 0))"

text \<open>\<open>Again\<close> is the loop of the connection process; a failed \<^verbatim>\<open>fork\<close> is not told from the parent.\<close>

definition manager_main :: "nat \<Rightarrow> byte list \<Rightarrow> prog" where
  "manager_main n buf =
     Then (Unlink SOCKET_PATH)
     (check (Open ''socket'') ''socket failed'' [] (\<lambda>s. let server_sock = ret s in
     Then (Op ''fcntl'' server_sock) (Then (Op ''fcntl'' server_sock)
     (check (Op ''bind'' server_sock) ''bind failed'' [server_sock] (\<lambda>_.
     Do (Op ''listen'' server_sock) (\<lambda>l. if ret l < 0 then fail_unlink ''listen failed'' server_sock SOCKET_PATH else
     Do (Open ''epoll_create1'') (\<lambda>e. if ret e < 0 then fail_unlink ''epoll_create1 failed'' server_sock SOCKET_PATH else
     let epoll_fd = ret e in
     add_to_epoll epoll_fd
     (Do (Lib ''fork'') (\<lambda>f. if ret f = 0 then Again [epoll_fd, server_sock] buf
       else Then (Print ''CLI started with EPOLL'' []) (command_loop n (manager_end epoll_fd server_sock)))))))))))"

text \<open>Both pools have the same listening socket.\<close>

definition listening :: "byte list \<Rightarrow> prog" where
  "listening buf =
     check (Open ''socket'') ''socket'' [] (\<lambda>s. let server_sock = ret s in
     Then (Op ''setsockopt'' server_sock)
     (check (Op ''bind'' server_sock) ''bind'' [server_sock] (\<lambda>_.
     check (Op ''listen'' server_sock) ''listen'' [server_sock] (\<lambda>_.
     Then (Print ''listening'' []) (Again [server_sock] buf)))))"

fun start_threads :: "nat \<Rightarrow> prog \<Rightarrow> prog" where
  "start_threads 0 k = k"
| "start_threads (Suc n) k =
     Do (Lib ''pthread_create'') (\<lambda>r. if ret r \<noteq> 0 then fail ''prthread_create'' [] else start_threads n k)"

definition thread_pool_main :: "byte list \<Rightarrow> prog" where
  "thread_pool_main buf = Then (Lib ''queue_init'') (start_threads 10 (listening buf))"

definition worker_pool_main :: "byte list \<Rightarrow> prog" where
  "worker_pool_main buf = listening buf"

text \<open>
  The parallel clients: the threads, then the wait for all of them. A thread that was not created has no identifier
  to wait for.
\<close>

fun create_threads :: "nat \<Rightarrow> bool list \<Rightarrow> (bool list \<Rightarrow> prog) \<Rightarrow> prog" where
  "create_threads 0 made k = k made"
| "create_threads (Suc n) made k =
     Do (Lib ''pthread_create'') (\<lambda>r.
       if ret r \<noteq> 0 then Then (Perror ''pthread_create'') (Then (Lib ''usleep'') (create_threads n (made @ [False]) k))
       else Then (Lib ''usleep'') (create_threads n (made @ [True]) k))"

fun join_threads :: "bool list \<Rightarrow> prog" where
  "join_threads [] = Exit 0"
| "join_threads (made # rest) = (if made then Then (Lib ''pthread_join'') (join_threads rest) else Undefined)"

definition parallel_main :: "nat \<Rightarrow> prog" where
  "parallel_main thread_count = create_threads thread_count [] join_threads"

text \<open>The three clients: \<^verbatim>\<open>main\<close> and the function of its threads.\<close>

definition parallel_client :: "byte list \<Rightarrow> prog \<times> prog" where
  "parallel_client buf = (parallel_main 50, client_thread buf)"

definition thread_pool_client :: "byte list \<Rightarrow> prog \<times> prog" where
  "thread_pool_client buf = (parallel_main 5, client_thread buf)"

definition worker_pool_client :: "byte list \<Rightarrow> prog \<times> prog" where
  "worker_pool_client buf = (parallel_main 10, client_thread buf)"

text \<open>\<^verbatim>\<open>server.c\<close> of \<^verbatim>\<open>p5_RAW_udp_header\<close> (and, the same text, of \<^verbatim>\<open>p6\<close> and \<^verbatim>\<open>p7\<close>): the peer of the raw clients.\<close>

definition raw_peer :: "byte list \<Rightarrow> prog" where
  "raw_peer buf =
     check (Open ''socket'') ''socket'' [] (\<lambda>s. let sock_fd = ret s in
     check (Op ''bind'' sock_fd) ''bind'' [sock_fd] (\<lambda>_.
     check (Recv sock_fd 1023) ''recvfrom'' [sock_fd] (\<lambda>r. terminate r buf (\<lambda>buf.
     Then (Print ''Received from client'' (cstr buf))
     (check (Send sock_fd ''Hi'') ''sendto'' [sock_fd] (\<lambda>_. closing [sock_fd] (Exit 0)))))))"

text \<open>
  The process that plays a driver (\<open>create_driver\<close> forks it): at most \<open>n\<close> tries to connect, then the messages; \<open>Again\<close> is the
  loop it is in. What it does with a message is \<open>driver_receive\<close> of \<open>Drivers\<close>.
\<close>

definition chars :: "byte list \<Rightarrow> string" where
  "chars bs = map (\<lambda>b. char_of (unat b)) bs"

fun connect_loop :: "nat \<Rightarrow> int \<Rightarrow> byte list \<Rightarrow> prog \<Rightarrow> prog" where
  "connect_loop 0 sock buf k = Again [sock] buf"
| "connect_loop (Suc n) sock buf k =
     Do (Op ''connect'' sock) (\<lambda>r. if \<not> ret r < 0 then k else
     Do (Lib ''errno'') (\<lambda>e.
       if ret e = 111 \<or> ret e = 2 \<or> ret e = 11 then Then (Lib ''usleep'') (connect_loop n sock buf k)
       else fail ''driver connect failed'' [sock]))"

fun child_call :: "int \<Rightarrow> child_out \<Rightarrow> call" where
  "child_call sock (Reply s) = Send sock s"
| "child_call sock (Sleep timer) = Lib ''sleep''"
| "child_call sock (Print_task timer) = Print ''Received task'' (text_bytes (show_int timer))"
| "child_call sock Print_completed = Print ''Task completed'' []"

fun child_loop :: "nat \<Rightarrow> int \<Rightarrow> byte list \<Rightarrow> prog" where
  "child_loop 0 sock buf = Again [sock] buf"
| "child_loop (Suc m) sock buf =
     Do (Recv sock 1023) (\<lambda>n. if ret n \<le> 0 then closing [sock] (Exit 0) else terminate n buf (\<lambda>buf.
     case driver_receive (chars buf) of None \<Rightarrow> Undefined
     | Some (out, goes_on) \<Rightarrow>
       foldr (\<lambda>a. Then (child_call sock a)) out (if goes_on then child_loop m sock buf else closing [sock] (Exit 0))))"

definition driver_child :: "nat \<Rightarrow> nat \<Rightarrow> byte list \<Rightarrow> prog" where
  "driver_child n m buf =
     check (Open ''socket'') ''socket failed'' [] (\<lambda>s. let sock = ret s in
     connect_loop n sock buf
       (Then (Lib ''getpid'') (Then (Send sock ''pid'') (Then (Print ''Started and connected to CLI'' []) (child_loop m sock buf)))))"

section \<open>The file of a local socket\<close>

fun file_step :: "string \<Rightarrow> call \<Rightarrow> result \<Rightarrow> bool \<Rightarrow> bool" where
  "file_step path (Op name fd) r there = (there \<or> name = ''bind'' \<and> 0 \<le> ret r)"
| "file_step path (Unlink p) r there = (there \<and> p \<noteq> path)"
| "file_step path c r there = there"

fun file_after :: "string \<Rightarrow> (call \<times> result) list \<Rightarrow> bool \<Rightarrow> bool" where
  "file_after path [] there = there"
| "file_after path ((c, r) # tr) there = file_after path tr (file_step path c r there)"

text \<open>On all paths to an exit the file is gone.\<close>

primrec tidy :: "string \<Rightarrow> prog \<Rightarrow> bool \<Rightarrow> bool" where
  "tidy path (Exit n) there \<longleftrightarrow> \<not> there"
| "tidy path (Again fds b) there \<longleftrightarrow> True"
| "tidy path Undefined there \<longleftrightarrow> True"
| "tidy path (Do c k) there \<longleftrightarrow> (\<forall>r. tidy path (k r) (file_step path c r there))"

lemma run_tidy: "tidy path p there \<Longrightarrow> run p rs = (tr, Ended n, rest) \<Longrightarrow> \<not> file_after path tr there"
proof (induction p arbitrary: there rs tr)
  case (Do c k)
  then obtain r rs' where rs: "rs = r # rs'" by (cases rs) auto
  obtain tr' where t: "run (k r) rs' = (tr', Ended n, rest)" "tr = (c, r) # tr'"
    using Do.prems(2) rs by (auto split: prod.splits)
  show ?case using Do.IH [OF rangeI _ t(1)] Do.prems(1) t(2) by simp
qed auto

lemma tidy_Then [simp]: "tidy path (Then c p) there \<longleftrightarrow> (\<forall>r. tidy path p (file_step path c r there))"
  by (simp add: Then_def)

lemma tidy_closing [simp]: "tidy path (closing fds p) there \<longleftrightarrow> tidy path p there"
  by (induction fds) simp_all

lemma tidy_fail [simp]: "tidy path (fail msg fds) there \<longleftrightarrow> \<not> there"
  by (simp add: fail_def)

lemma tidy_check: "tidy path (check c msg fds k) there \<longleftrightarrow>
    (\<forall>r. if ret r < 0 then \<not> file_step path c r there else tidy path (k r) (file_step path c r there))"
  by (simp add: check_def)

lemma tidy_commands: "tidy path k there \<Longrightarrow> tidy path (command_loop n k) there"
  by (induction n) auto

lemma manager_tidy: "tidy SOCKET_PATH (manager_main n buf) there"
  unfolding manager_main_def Let_def
  by (auto simp: tidy_check fail_unlink_def add_to_epoll_def manager_end_def intro!: tidy_commands)

lemma local_dgram_client_tidy: "tidy ''/tmp/unix_dgram_client_socket'' (local_dgram_client buf) False"
  unfolding local_dgram_client_def Let_def
  by (auto simp: tidy_check fail_unlink_def terminate_def split: option.split)

section \<open>Descriptors\<close>

lemma safe_commands: "safe N L k F \<Longrightarrow> safe N L (command_loop n k) F"
  by (induction n) auto

lemma manager_safe: "length buf = N \<Longrightarrow> safe N 2 (manager_main n buf) {}"
proof -
  assume b: "length buf = N"
  have e: "safe N 2 (manager_end e s) {e, s}" if "0 \<le> s" "e \<noteq> s" for e s
    using that by (auto simp: manager_end_def safe_Then)
  have c: "safe N 2 (command_loop n (manager_end e s)) {e, s}" if "0 \<le> s" "e \<noteq> s" for e s
    by (rule safe_commands [OF e [OF that]])
  have c': "safe N 2 (command_loop n (manager_end e s)) {s, e}" if "0 \<le> s" "e \<noteq> s" for e s
    by (subst insert_commute) (rule c [OF that])
  show ?thesis
    unfolding manager_main_def Let_def
    by (auto simp: safe_Then fail_unlink_def add_to_epoll_def b insert_commute intro!: safe_check c c')
qed

lemma listening_safe: "length buf = N \<Longrightarrow> safe N 1 (listening buf) {}"
  unfolding listening_def Let_def
  by (intro safe_check) (auto simp: safe_Then intro!: safe_check)

lemma thread_pool_safe: "length buf = N \<Longrightarrow> safe N 1 (thread_pool_main buf) {}"
proof -
  assume "length buf = N"
  then have "safe N 1 (start_threads n (listening buf)) {}" for n
    by (induction n) (auto simp: fail_def safe_Then intro!: listening_safe [unfolded One_nat_def])
  then show ?thesis by (simp add: thread_pool_main_def safe_Then)
qed

lemma raw_peer_safe: "length buf = 1024 \<Longrightarrow> safe 1024 0 (raw_peer buf) {}"
  unfolding raw_peer_def Let_def
  by (intro safe_check) (auto simp: safe_Then intro!: safe_check safe_terminate)

lemma run_Do:
  assumes "run (Do c k) rs = (tr, e, rest)"
  obtains "e = Cut" | r rs' tr' where "run (k r) rs' = (tr', e, rest)" "tr = (c, r) # tr'"
  using assms by (cases rs) (auto split: prod.splits)

lemma run_Then:
  assumes "run (Then c p) rs = (tr, e, rest)"
  obtains "e = Cut" | r rs' tr' where "run p rs' = (tr', e, rest)" "tr = (c, r) # tr'"
  using assms unfolding Then_def by (elim run_Do) blast+

text \<open>Safety for runs in which the results satisfy a condition of the caller.\<close>

primrec safe_when :: "(call \<Rightarrow> result \<Rightarrow> bool) \<Rightarrow> nat \<Rightarrow> prog \<Rightarrow> int set \<Rightarrow> bool" where
  "safe_when ok N (Exit n) F \<longleftrightarrow> F = {}"
| "safe_when ok N (Again fds b) F \<longleftrightarrow> F = set fds \<and> length b = N"
| "safe_when ok N Undefined F \<longleftrightarrow> False"
| "safe_when ok N (Do c k) F \<longleftrightarrow>
     uses c \<subseteq> F \<and> (\<forall>r. allowed F c r \<longrightarrow> ok c r \<longrightarrow> safe_when ok N (k r) (after F c r))"

lemma run_safe_when:
  "safe_when ok N p F \<Longrightarrow> run p rs = (tr, e, rest) \<Longrightarrow> trace_allowed F tr \<Longrightarrow> \<forall>(c, r)\<in>set tr. ok c r \<Longrightarrow> good_run F (tr, e)"
proof (induction p arbitrary: F rs tr)
  case (Do c k)
  show ?case
  proof (cases rs)
    case Nil
    then show ?thesis using Do.prems by (auto simp: good_run_def)
  next
    case (Cons r rs')
    obtain tr' where t: "run (k r) rs' = (tr', e, rest)" "tr = (c, r) # tr'"
      using Do.prems(2) Cons by (auto split: prod.splits)
    have s: "safe_when ok N (k r) (after F c r)" "trace_allowed (after F c r) tr'" "\<forall>(c, r)\<in>set tr'. ok c r"
      using Do.prems t(2) by simp_all
    from Do.IH [OF rangeI s(1) t(1) s(2,3)] show ?thesis using Do.prems(1) t(2) by (simp add: good_run_def)
  qed
qed (auto simp: good_run_def)

text \<open>A message whose \<^verbatim>\<open>TASK:\<close> number is in \<^verbatim>\<open>int\<close>, or that is no task.\<close>

fun understood :: "call \<Rightarrow> result \<Rightarrow> bool" where
  "understood (Recv fd n) r \<longleftrightarrow> driver_receive (chars (bytes r @ [0])) \<noteq> None"
| "understood c r \<longleftrightarrow> True"

lemma safe_when_Then: "safe_when ok N (Then c p) F \<longleftrightarrow>
    uses c \<subseteq> F \<and> (\<forall>r. allowed F c r \<longrightarrow> ok c r \<longrightarrow> safe_when ok N p (after F c r))"
  by (simp add: Then_def)

lemma driver_receive_terminated: "driver_receive (chars (xs @ 0 # ys)) = driver_receive (chars (xs @ [0]))"
proof -
  have "cstr (chars (xs @ 0 # ys)) = cstr (chars (xs @ [0]))"
    by (induction xs) (simp_all add: chars_def cstr_Cons zero_char_def char_of_def)
  then show ?thesis by (simp add: driver_receive_def)
qed

lemma child_calls_safe:
  "safe_when ok N p {s} \<Longrightarrow> safe_when ok N (foldr (\<lambda>a. Then (child_call s a)) out p) {s}"
proof (induction out)
  case (Cons a out)
  then show ?case by (cases a) (simp_all add: safe_when_Then)
qed simp

lemma child_loop_safe: "length buf = 1024 \<Longrightarrow> safe_when understood 1024 (child_loop m s buf) {s}"
proof (induction m arbitrary: buf)
  case (Suc m)
  have e: "safe_when understood 1024 (closing [s] (Exit 0)) {s}" by (simp add: safe_when_Then)
  have "safe_when understood 1024 (terminate r buf (\<lambda>buf. case driver_receive (chars buf) of None \<Rightarrow> Undefined
     | Some (out, goes_on) \<Rightarrow>
       foldr (\<lambda>a. Then (child_call s a)) out (if goes_on then child_loop m s buf else closing [s] (Exit 0)))) {s}"
    if r: "length (bytes r) \<le> 1023" "understood (Recv s 1023) r" for r
  proof -
    let ?b = "bytes r @ 0 # drop (Suc (length (bytes r))) buf"
    have b: "store 0 (bytes r @ [0]) buf = Some ?b" "length ?b = 1024" using r(1) Suc.prems by (simp_all add: store_def poke_def)
    obtain out goes_on where d: "driver_receive (chars ?b) = Some (out, goes_on)"
      using r(2) driver_receive_terminated [of "bytes r"] by auto
    have "safe_when understood 1024 (if goes_on then child_loop m s ?b else closing [s] (Exit 0)) {s}"
      using Suc.IH [OF b(2)] e by (cases goes_on) simp_all
    then show ?thesis by (simp only: terminate_def b(1) d option.case prod.case child_calls_safe)
  qed
  then show ?case using e by auto
qed simp

lemma connect_loop_safe:
  "safe_when ok N k {s} \<Longrightarrow> length buf = N \<Longrightarrow> safe_when ok N (connect_loop n s buf k) {s}"
  by (induction n) (simp_all add: safe_when_Then fail_def)

lemma driver_child_safe: "length buf = 1024 \<Longrightarrow> safe_when understood 1024 (driver_child n m buf) {}"
  by (auto simp: driver_child_def Let_def check_def fail_def safe_when_Then intro!: connect_loop_safe child_loop_safe)

section \<open>Threads that were not created\<close>

definition create_failed :: "(call \<times> result) list \<Rightarrow> bool" where
  "create_failed tr \<longleftrightarrow> (\<exists>r. (Lib ''pthread_create'', r) \<in> set tr \<and> ret r \<noteq> 0)"

lemma create_failed_Cons [simp]:
  "create_failed ((c, r) # tr) \<longleftrightarrow> c = Lib ''pthread_create'' \<and> ret r \<noteq> 0 \<or> create_failed tr"
  by (auto simp: create_failed_def)

text \<open>How waiting for the threads ends, unless the run is cut before.\<close>

definition waits_well :: "bool \<Rightarrow> run_end \<Rightarrow> bool" where
  "waits_well bad e \<longleftrightarrow> e = Cut \<or> e = (if bad then Broken else Ended 0)"

lemma join_runs: "run (join_threads made) rs = (tr, e, rest) \<Longrightarrow> \<not> create_failed tr \<and> waits_well (False \<in> set made) e"
proof (induction made arbitrary: rs tr)
  case (Cons m made)
  show ?case
  proof (cases m)
    case True
    then have r: "run (Then (Lib ''pthread_join'') (join_threads made)) rs = (tr, e, rest)" using Cons.prems by simp
    show ?thesis
    proof (cases rs)
      case Nil
      then show ?thesis using r by (auto simp: Then_def create_failed_def waits_well_def)
    next
      case (Cons x rs')
      then obtain tr' where t: "run (join_threads made) rs' = (tr', e, rest)" "tr = (Lib ''pthread_join'', x) # tr'"
        using r by (auto simp: Then_def split: prod.splits)
      then show ?thesis using Cons.IH [OF t(1)] True by auto
    qed
  qed (use Cons.prems in \<open>auto simp: create_failed_def waits_well_def\<close>)
qed (auto simp: create_failed_def waits_well_def)

lemma create_runs: "run (create_threads n made join_threads) rs = (tr, e, rest)
   \<Longrightarrow> waits_well (False \<in> set made \<or> create_failed tr) e"
proof (induction n arbitrary: made rs tr)
  case 0
  then show ?case using join_runs [of made rs tr e rest] by simp
next
  case (Suc n)
  from Suc.prems show ?case
    unfolding create_threads.simps
  proof (rule run_Do)
    fix r rs1 tr1
    assume t: "tr = (Lib ''pthread_create'', r) # tr1"
      and "run (if ret r \<noteq> 0 then Then (Perror ''pthread_create'') (Then (Lib ''usleep'') (create_threads n (made @ [False]) join_threads))
        else Then (Lib ''usleep'') (create_threads n (made @ [True]) join_threads)) rs1 = (tr1, e, rest)"
    then show ?thesis
      by (cases "ret r = 0") (auto elim!: run_Then dest!: Suc.IH simp: waits_well_def [of _ Cut])
  qed (simp add: waits_well_def)
qed

section \<open>Properties\<close>



text \<open>A driver that waits for the manager, gets a task and then an end of file: its calls and its exit.\<close>

lemma driver_child_serves:
  "case run (driver_child 2 2 (replicate 1024 0))
     (results [(3, []), (-1, []), (111, []), (0, []), (0, []), (7, []), (3, []), (0, []), (8, text_bytes ''TASK:4''),
       (0, []), (0, []), (0, []), (0, []), (0, []), (0, []), (0, [])]) of (tr, e, rest) \<Rightarrow>
   e = Ended 0 \<and> map fst (drop 8 tr) = [Recv 3 1023, Print ''Received task'' (text_bytes ''4''), Send 3 ''TASK_OK'',
     Lib ''sleep'', Send 3 (''AVAILABLE'' @ [CHR 0x0A]), Print ''Task completed'' [], Recv 3 1023, Close 3]"
  by code_simp

text \<open>Where files stay: the local stream server of \<^verbatim>\<open>p1\<close> when a call after \<^verbatim>\<open>bind\<close> fails.\<close>

lemma local_stream_server_leaves_file:
  "case run (local_stream_server buf) (results [(3, []), (0, []), (0, []), (-1, []), (0, []), (0, [])]) of (tr, e, rest) \<Rightarrow>
     e = Ended 1 \<and> file_after ''/tmp/unix_socket'' tr False"
  by (simp add: local_stream_server_def results_def check_def Then_def fail_def Let_def)

end
