(* ===== verification/Signals.thy ===== *)
theory Signals
  imports CText
begin

text \<open>
  The exercises of \<^verbatim>\<open>hw15_signals\<close>: a receiver that takes \<^verbatim>\<open>SIGUSR1\<close> with \<^verbatim>\<open>sigwait\<close> (\<^verbatim>\<open>event_loop\<close>), one with a
  handler (\<^verbatim>\<open>sigaction\<close>), one that blocks \<^verbatim>\<open>SIGINT\<close> (\<^verbatim>\<open>sigprocmask\<close>), and the sender that each of them has. A
  process is its position between two system calls with the kernel's signal state; a history is any
  sequence of steps of the receiver and runs of senders.
\<close>

section \<open>Signals\<close>

datatype signal = SIGINT | SIGUSR1

datatype point = Start | Announce | Waiting | Printing | Exited int | Killed signal

text \<open>\<open>handling\<close> is the signal whose handler runs; its signal is blocked meanwhile (\<^verbatim>\<open>sa_flags = 0\<close>, empty \<^verbatim>\<open>sa_mask\<close>).\<close>

record process =
  point :: point
  blocked :: "signal set"
  handled :: "signal set"
  pending :: "signal set"
  handling :: "signal option"
  out :: "string list"

definition new_process :: process where
  "new_process = \<lparr>point = Start, blocked = {}, handled = {}, pending = {}, handling = None, out = []\<rparr>"

definition gone :: "process \<Rightarrow> bool" where
  "gone p = (case point p of Exited _ \<Rightarrow> True | Killed _ \<Rightarrow> True | _ \<Rightarrow> False)"

text \<open>
  A signal arrives: a blocked one is remembered, once; a handled one interrupts the process; the default action
  of both signals ends it.
\<close>

definition arrive :: "signal \<Rightarrow> process \<Rightarrow> process" where
  "arrive s p =
     (if gone p then p
      else if s \<in> blocked p \<or> handling p = Some s then p\<lparr>pending := insert s (pending p)\<rparr>
      else if s \<in> handled p then p\<lparr>handling := Some s\<rparr>
      else p\<lparr>point := Killed s\<rparr>)"

text \<open>The steps of a program: \<open>None\<close> while it waits. The argument \<open>bad\<close> has the positions where the call fails.\<close>

type_synonym program = "process \<Rightarrow> process option"

definition say :: "string \<Rightarrow> process \<Rightarrow> process" where
  "say l p = p\<lparr>out := out p @ [l]\<rparr>"

section \<open>The receivers\<close>

text \<open>\<^verbatim>\<open>event_loop/event.c\<close>\<close>

definition event_loop :: "point set \<Rightarrow> program" where
  "event_loop bad p =
     (case point p of
        Start \<Rightarrow> Some (if Start \<in> bad then p\<lparr>point := Exited 1\<rparr>
                       else p\<lparr>blocked := insert SIGUSR1 (blocked p), point := Waiting\<rparr>)
      | Waiting \<Rightarrow>
          if Waiting \<in> bad then Some (p\<lparr>point := Exited 1\<rparr>)
          else if SIGUSR1 \<in> pending p then Some (p\<lparr>pending := pending p - {SIGUSR1}, point := Printing\<rparr>)
          else None
      | Printing \<Rightarrow> Some (say ''Received signal: 10 (SIGUSR1)'' (p\<lparr>point := Waiting\<rparr>))
      | _ \<Rightarrow> None)"

text \<open>\<^verbatim>\<open>sigaction/reciever.c\<close>: the handler with its return, after which a remembered signal is delivered.\<close>

definition sig_usr1_handler :: "signal \<Rightarrow> process \<Rightarrow> process" where
  "sig_usr1_handler s p =
     (let p = say ''Reseived SIGUSR1 signal!'' p
      in if s \<in> pending p then p\<lparr>pending := pending p - {s}\<rparr> else p\<lparr>handling := None\<rparr>)"

definition sigaction_main :: "nat \<Rightarrow> point set \<Rightarrow> program" where
  "sigaction_main pid bad p =
     (case handling p of
        Some s \<Rightarrow> Some (sig_usr1_handler s p)
      | None \<Rightarrow>
        (case point p of
           Start \<Rightarrow> Some (if Start \<in> bad then p\<lparr>point := Exited 1\<rparr>
                          else p\<lparr>handled := insert SIGUSR1 (handled p), point := Announce\<rparr>)
         | Announce \<Rightarrow> Some (say (''Waiting for SIGUSR1 signal. PID: '' @ show_nat pid) (p\<lparr>point := Waiting\<rparr>))
         | _ \<Rightarrow> None))"

text \<open>\<^verbatim>\<open>sigprocmask/reciever.c\<close>\<close>

definition sigprocmask_main :: "nat \<Rightarrow> point set \<Rightarrow> program" where
  "sigprocmask_main pid bad p =
     (case point p of
        Start \<Rightarrow> Some (if Start \<in> bad then p\<lparr>point := Exited 1\<rparr>
                       else p\<lparr>blocked := insert SIGINT (blocked p), point := Announce\<rparr>)
      | Announce \<Rightarrow> Some (say (''SIGINT is blocked. PID='' @ show_nat pid) (p\<lparr>point := Waiting\<rparr>))
      | _ \<Rightarrow> None)"

section \<open>The senders\<close>

text \<open>\<^verbatim>\<open>atoi\<close>: 0 when there is no number; a number outside \<^verbatim>\<open>int\<close> is undefined.\<close>

definition c_atoi :: "string \<Rightarrow> int option" where
  "c_atoi s = (case scan_d s of None \<Rightarrow> Some 0 | Some (n, rest) \<Rightarrow> if in_int n then Some n else None)"

definition signal_name :: "signal \<Rightarrow> string" where
  "signal_name s = (case s of SIGINT \<Rightarrow> ''SIGINT'' | SIGUSR1 \<Rightarrow> ''SIGUSR1'')"

text \<open>A sender's call of \<^verbatim>\<open>kill\<close>, if it makes one, its output, and its exit code; \<open>answer\<close> is what \<^verbatim>\<open>kill\<close> returns.\<close>

type_synonym sending = "string list \<Rightarrow> (int \<Rightarrow> int) \<Rightarrow> ((int \<times> signal) option \<times> string list \<times> int) option"

definition sender :: "signal \<Rightarrow> sending" where
  "sender s argv answer =
     (if length argv \<noteq> 2 then Some (None, [''Usage: '' @ (if argv = [] then ''(null)'' else hd argv) @ '' <PID>''], 1)
      else case c_atoi (argv ! 1) of
             None \<Rightarrow> None
           | Some pid \<Rightarrow>
               if answer pid = -1 then Some (Some (pid, s), [''kill''], 1)
               else Some (Some (pid, s), [''Sent '' @ signal_name s @ '' to process '' @ show_int pid], 0))"

definition event_sender :: "sending" where
  "event_sender = sender SIGUSR1"

definition sigaction_sender :: "sending" where
  "sigaction_sender = sender SIGUSR1"

definition sigprocmask_sender :: "sending" where
  "sigprocmask_sender = sender SIGINT"

section \<open>Histories\<close>

text \<open>
  The processes that \<^verbatim>\<open>kill(t, ...)\<close> names: one, the sender's group (\<open>t = 0\<close>), all, or another group.
  \<open>me\<close> and \<open>grp\<close> are the receiver's, \<open>sgrp\<close> is the sender's group.
\<close>

definition names_me :: "int \<Rightarrow> int \<Rightarrow> int \<Rightarrow> int \<Rightarrow> bool" where
  "names_me me grp sgrp t \<longleftrightarrow> t = me \<or> t = 0 \<and> sgrp = grp \<or> t = -1 \<or> t < -1 \<and> t = - grp"

text \<open>\<open>Run\<close> is a step of the receiver, \<open>Sent\<close> a sender's run with its group and arguments.\<close>

datatype event = Run | Sent int "string list"

definition delivered_by :: "int \<Rightarrow> int \<Rightarrow> sending
    \<Rightarrow> int \<Rightarrow> string list \<Rightarrow> signal option" where
  "delivered_by me grp snd_prog sgrp argv =
     (case snd_prog argv (\<lambda>t. 0) of
        Some (Some (t, s), _, _) \<Rightarrow> if names_me me grp sgrp t then Some s else None
      | _ \<Rightarrow> None)"

fun happens :: "int \<Rightarrow> int \<Rightarrow> program \<Rightarrow> sending
    \<Rightarrow> event \<Rightarrow> process \<Rightarrow> process" where
  "happens me grp prog snd_prog Run p = (case prog p of None \<Rightarrow> p | Some p' \<Rightarrow> p')"
| "happens me grp prog snd_prog (Sent sgrp argv) p =
     (case delivered_by me grp snd_prog sgrp argv of None \<Rightarrow> p | Some s \<Rightarrow> arrive s p)"

definition history :: "int \<Rightarrow> int \<Rightarrow> program \<Rightarrow> sending
    \<Rightarrow> event list \<Rightarrow> process \<Rightarrow> process" where
  "history me grp prog snd_prog es p = fold (happens me grp prog snd_prog) es p"

section \<open>One slot for a signal\<close>

text \<open>
  What the two receivers of \<^verbatim>\<open>SIGUSR1\<close> have in common: \<open>shown\<close> lines are out, \<open>load\<close> signals are taken and not
  yet shown, and \<open>near\<close> is the number of steps before the one that shows the next.
\<close>

locale signal_slot =
  fixes step :: "'s \<Rightarrow> 's" and hit :: "'s \<Rightarrow> 's" and ok :: "'s \<Rightarrow> bool" and shown load near :: "'s \<Rightarrow> nat"
  assumes step_ok: "ok s \<Longrightarrow> ok (step s)" and hit_ok: "ok s \<Longrightarrow> ok (hit s)"
    and step_load: "ok s \<Longrightarrow> shown (step s) + load (step s) = shown s + load s"
    and step_near: "ok s \<Longrightarrow> 0 < load s \<Longrightarrow> shown (step s) = Suc (shown s)
      \<or> shown (step s) = shown s \<and> Suc (near (step s)) = near s"
    and hit_load: "ok s \<Longrightarrow> shown (hit s) = shown s \<and> 0 < load (hit s) \<and> load (hit s) \<le> Suc (load s) \<and> load s \<le> load (hit s)"
    and hit_near: "ok s \<Longrightarrow> 0 < load s \<Longrightarrow> near (hit s) \<le> near s"
    and step_shown: "ok s \<Longrightarrow> shown s \<le> shown (step s)"
    and near_bound: "ok s \<Longrightarrow> near s \<le> 1"
begin

definition play :: "bool list \<Rightarrow> 's \<Rightarrow> 's" where
  "play es s = fold (\<lambda>e. if e then hit else step) es s"

lemma play_simps [simp]: "play [] s = s" "play (e # es) s = play es (if e then hit s else step s)"
  by (simp_all add: play_def)

lemma play_append: "play (es @ fs) s = play fs (play es s)"
  by (simp add: play_def)

lemma play_ok: "ok s \<Longrightarrow> ok (play es s)"
  by (induction es arbitrary: s) (auto intro: step_ok hit_ok)

lemma play_bound: "ok s \<Longrightarrow> shown (play es s) + load (play es s) \<le> shown s + load s + count_list es True"
proof (induction es arbitrary: s)
  case (Cons e es)
  show ?case
  proof (cases e)
    case True
    then show ?thesis using Cons.IH [OF hit_ok [OF Cons.prems]] hit_load [OF Cons.prems] by simp
  next
    case False
    then show ?thesis using Cons.IH [OF step_ok [OF Cons.prems]] step_load [OF Cons.prems] by simp
  qed
qed simp

lemma play_mono: "ok s \<Longrightarrow> shown s \<le> shown (play es s)"
proof (induction es arbitrary: s)
  case (Cons e es)
  then show ?case
    using Cons.IH [OF hit_ok [OF Cons.prems]] Cons.IH [OF step_ok [OF Cons.prems]] hit_load [OF Cons.prems]
      step_shown [OF Cons.prems] by (cases e) auto
qed simp

lemma play_answers: "ok s \<Longrightarrow> 0 < load s \<Longrightarrow> near s < count_list es False \<Longrightarrow> shown s < shown (play es s)"
proof (induction es arbitrary: s)
  case (Cons e es)
  show ?case
  proof (cases e)
    case True
    then show ?thesis
      using Cons.IH [OF hit_ok [OF Cons.prems(1)]] hit_load [OF Cons.prems(1)] hit_near [OF Cons.prems(1,2)] Cons.prems(3)
      by simp
  next
    case False
    show ?thesis
    proof (cases "shown (step s) = Suc (shown s)")
      case True
      then show ?thesis using False play_mono [OF step_ok [OF Cons.prems(1)], of es] by simp
    next
      case no: False
      then have "shown (step s) = shown s" "Suc (near (step s)) = near s" using step_near [OF Cons.prems(1,2)] by auto
      moreover have "0 < load (step s)" using step_load [OF Cons.prems(1)] calculation(1) Cons.prems(2) by simp
      ultimately show ?thesis
        using Cons.IH [OF step_ok [OF Cons.prems(1)]] Cons.prems(3) False by simp
    qed
  qed
qed simp

lemma last_signal_answered:
  assumes "ok s" "2 \<le> count_list fs False"
  shows "shown (play es s) < shown (play (es @ True # fs) s)"
proof -
  have k: "ok (play es s)" by (rule play_ok [OF assms(1)])
  show ?thesis
    using play_answers [OF hit_ok [OF k], of fs] near_bound [OF hit_ok [OF k]] hit_load [OF k] assms(2)
    by (simp add: play_append)
qed

end

section \<open>The two receivers are such slots\<close>

definition one_step :: "program \<Rightarrow> process \<Rightarrow> process" where
  "one_step prog p = (case prog p of None \<Rightarrow> p | Some p' \<Rightarrow> p')"

definition event_line :: string where "event_line = ''Received signal: 10 (SIGUSR1)''"
definition handler_line :: string where "handler_line = ''Reseived SIGUSR1 signal!''"

definition event_ok :: "process \<Rightarrow> bool" where
  "event_ok p \<longleftrightarrow> blocked p = {SIGUSR1} \<and> pending p \<subseteq> {SIGUSR1} \<and> handling p = None \<and> point p \<in> {Waiting, Printing}"

definition event_load :: "process \<Rightarrow> nat" where
  "event_load p = (if SIGUSR1 \<in> pending p then 1 else 0) + (if point p = Printing then 1 else 0)"

definition handler_ok :: "process \<Rightarrow> bool" where
  "handler_ok p \<longleftrightarrow> blocked p = {} \<and> handled p = {SIGUSR1} \<and> handling p \<in> {None, Some SIGUSR1} \<and> point p = Waiting
     \<and> (pending p = {} \<or> pending p = {SIGUSR1} \<and> handling p = Some SIGUSR1)"

definition handler_load :: "process \<Rightarrow> nat" where
  "handler_load p = (if pending p = {} then 0 else 1) + (if handling p = None then 0 else 1)"

interpretation event: signal_slot "one_step (event_loop {})" "arrive SIGUSR1" event_ok "\<lambda>p. count_list (out p) event_line"
    event_load "\<lambda>p. if point p = Printing then 0 else 1"
  by unfold_locales
    (auto simp: event_ok_def event_load_def one_step_def event_loop_def arrive_def gone_def say_def event_line_def split: point.splits)

interpretation handler: signal_slot "one_step (sigaction_main pid {})" "arrive SIGUSR1" handler_ok
    "\<lambda>p. count_list (out p) handler_line" handler_load "\<lambda>p. 0" for pid
  by unfold_locales
    (auto simp: handler_ok_def handler_load_def one_step_def sigaction_main_def sig_usr1_handler_def arrive_def gone_def
      say_def handler_line_def Let_def split: option.splits)

text \<open>A history as beats: \<open>True\<close> is a signal that reaches the receiver, \<open>False\<close> one of its steps.\<close>

definition hits :: "int \<Rightarrow> int \<Rightarrow> sending \<Rightarrow> event \<Rightarrow> bool" where
  "hits me grp snd_prog e = (case e of Run \<Rightarrow> False | Sent sgrp argv \<Rightarrow> delivered_by me grp snd_prog sgrp argv \<noteq> None)"

definition beats :: "int \<Rightarrow> int \<Rightarrow> sending \<Rightarrow> event list \<Rightarrow> bool list" where
  "beats me grp snd_prog es = map (\<lambda>e. e \<noteq> Run) (filter (\<lambda>e. e = Run \<or> hits me grp snd_prog e) es)"

lemma beats_counts:
  "count_list (beats me grp snd_prog es) True = length (filter (hits me grp snd_prog) es)"
  "count_list (beats me grp snd_prog es) False = count_list es Run"
  by (induction es) (auto simp: beats_def hits_def split: event.splits)

lemma delivers_own: "delivered_by me grp (sender s) sgrp argv = Some t \<Longrightarrow> t = s"
  by (auto simp: delivered_by_def sender_def split: option.splits if_splits)

lemma history_beats:
  "history me grp prog (sender s) es p = fold (\<lambda>e. if e then arrive s else one_step prog) (beats me grp (sender s) es) p"
proof (induction es arbitrary: p)
  case (Cons e es)
  have "happens me grp prog (sender s) e p = fold (\<lambda>e. if e then arrive s else one_step prog) (beats me grp (sender s) [e]) p"
    by (cases e) (auto simp: beats_def hits_def one_step_def dest: delivers_own split: option.splits)
  moreover have "beats me grp (sender s) (e # es) = beats me grp (sender s) [e] @ beats me grp (sender s) es"
    by (simp add: beats_def)
  ultimately show ?case using Cons.IH by (simp add: history_def)
qed (simp add: history_def beats_def)

lemma beats_append: "beats me grp snd_prog (es @ e # fs)
   = beats me grp snd_prog es @ (if e = Run then [False] else if hits me grp snd_prog e then [True] else []) @ beats me grp snd_prog fs"
  by (simp add: beats_def)

section \<open>Properties\<close>

text \<open>
  A receiver that is set up (\<open>p\<close>) is never ended by the sender, shows at most one line for each signal, and
  always shows a line after a signal once it has made two more steps.
\<close>

definition answers :: "int \<Rightarrow> int \<Rightarrow> program \<Rightarrow> sending \<Rightarrow> string \<Rightarrow> process \<Rightarrow> bool" where
  "answers me grp prog snd_prog l p \<longleftrightarrow>
     (\<forall>es. \<not> gone (history me grp prog snd_prog es p)
        \<and> count_list (out (history me grp prog snd_prog es p)) l \<le> count_list (out p) l + length (filter (hits me grp snd_prog) es))
     \<and> (\<forall>es e fs. hits me grp snd_prog e \<longrightarrow> 2 \<le> count_list fs Run \<longrightarrow>
          count_list (out (history me grp prog snd_prog es p)) l < count_list (out (history me grp prog snd_prog (es @ e # fs) p)) l)"

lemma event_answers:
  assumes "event_ok p" "event_load p = 0"
  shows "answers me grp (event_loop {}) event_sender event_line p"
proof -
  have h: "history me grp (event_loop {}) event_sender es p = event.play (beats me grp event_sender es) p" for es
    by (simp add: history_beats event.play_def event_sender_def)
  have "\<not> gone (event.play bs p)" for bs
    using event.play_ok [OF assms(1), of bs] by (auto simp: event_ok_def gone_def)
  moreover have "count_list (out (event.play (beats me grp event_sender es) p)) event_line
      \<le> count_list (out p) event_line + length (filter (hits me grp event_sender) es)" for es
    using event.play_bound [OF assms(1), of "beats me grp event_sender es"] assms(2) by (simp add: beats_counts)
  moreover have "count_list (out (event.play (beats me grp event_sender es) p)) event_line
      < count_list (out (event.play (beats me grp event_sender (es @ e # fs)) p)) event_line"
    if "hits me grp event_sender e" "2 \<le> count_list fs Run" for es e fs
    using event.last_signal_answered [OF assms(1), of "beats me grp event_sender fs" "beats me grp event_sender es"] that
    by (auto simp: beats_append beats_counts hits_def)
  ultimately show ?thesis unfolding answers_def h by blast
qed

lemma handler_answers:
  assumes "handler_ok p" "handler_load p = 0"
  shows "answers me grp (sigaction_main pid {}) sigaction_sender handler_line p"
proof -
  have h: "history me grp (sigaction_main pid {}) sigaction_sender es p = handler.play pid (beats me grp sigaction_sender es) p" for es
    by (simp add: history_beats handler.play_def sigaction_sender_def)
  have "\<not> gone (handler.play pid bs p)" for bs
    using handler.play_ok [OF assms(1), of pid bs] by (auto simp: handler_ok_def gone_def)
  moreover have "count_list (out (handler.play pid (beats me grp sigaction_sender es) p)) handler_line
      \<le> count_list (out p) handler_line + length (filter (hits me grp sigaction_sender) es)" for es
    using handler.play_bound [OF assms(1), of pid "beats me grp sigaction_sender es"] assms(2) by (simp add: beats_counts)
  moreover have "count_list (out (handler.play pid (beats me grp sigaction_sender es) p)) handler_line
      < count_list (out (handler.play pid (beats me grp sigaction_sender (es @ e # fs)) p)) handler_line"
    if "hits me grp sigaction_sender e" "2 \<le> count_list fs Run" for es e fs
    using handler.last_signal_answered [OF assms(1), of "beats me grp sigaction_sender fs" pid "beats me grp sigaction_sender es"] that
    by (auto simp: beats_append beats_counts hits_def)
  ultimately show ?thesis unfolding answers_def h by blast
qed

lemma sender_hits:
  assumes "0 < me" "in_int me"
  shows "delivered_by me grp (sender s) sgrp [a, show_int me] = Some s"
  using assms scan_d_show_int [of "[]" me] by (simp add: delivered_by_def sender_def c_atoi_def names_me_def starts_digit_def)

lemma killed_stays: "gone p \<Longrightarrow> handling p = None \<Longrightarrow> prog \<in> {event_loop bad, sigaction_main pid bad, sigprocmask_main pid bad}
   \<Longrightarrow> history me grp prog snd_prog es p = p"
proof (induction es)
  case (Cons e es)
  have "prog p = None"
    using Cons.prems by (auto simp: event_loop_def sigaction_main_def sigprocmask_main_def gone_def split: point.splits)
  then have "happens me grp prog snd_prog e p = p"
    using Cons.prems(1) by (cases e) (auto simp: arrive_def split: option.splits)
  then show ?case using Cons by (simp add: history_def)
qed (simp add: history_def)

text \<open>
  Claim C16. Both receivers of \<^verbatim>\<open>SIGUSR1\<close>, once set up, with their senders: whatever the order of senders and
  steps, no sender ends the receiver, it shows at most one line for each signal that names it (signals that
  come before the last one is taken count once), and after the last signal and two more steps a new line is
  shown. A sender that is given the receiver's process id as it was printed names it, and a sender in its group does
  also with an argument that is no number.
\<close>

theorem signals_answered:
  assumes me: "0 < me" "in_int me"
  shows "answers me grp (event_loop {}) event_sender event_line (history me grp (event_loop {}) event_sender [Run] new_process)
    \<and> answers me grp (sigaction_main (nat me) {}) sigaction_sender handler_line
        (history me grp (sigaction_main (nat me) {}) sigaction_sender [Run, Run] new_process)
    \<and> hits me grp event_sender (Sent sgrp [a, show_int me]) \<and> hits me grp sigaction_sender (Sent sgrp [a, show_int me])
    \<and> (scan_d x = None \<longrightarrow> hits me grp event_sender (Sent grp [a, x]))"
proof (intro conjI impI)
  show "answers me grp (event_loop {}) event_sender event_line (history me grp (event_loop {}) event_sender [Run] new_process)"
    by (rule event_answers) (simp_all add: history_def event_loop_def new_process_def event_ok_def event_load_def)
  show "answers me grp (sigaction_main (nat me) {}) sigaction_sender handler_line
           (history me grp (sigaction_main (nat me) {}) sigaction_sender [Run, Run] new_process)"
    by (rule handler_answers) (simp_all add: history_def sigaction_main_def new_process_def say_def handler_ok_def handler_load_def)
  show "hits me grp event_sender (Sent sgrp [a, show_int me])" "hits me grp sigaction_sender (Sent sgrp [a, show_int me])"
    using sender_hits [OF me] by (simp_all add: hits_def event_sender_def sigaction_sender_def)
  show "hits me grp event_sender (Sent grp [a, x])" if "scan_d x = None"
    using that by (simp add: hits_def event_sender_def delivered_by_def sender_def c_atoi_def names_me_def)
qed

theorem signals_answered_witness:
  "answers 4711 4711 (event_loop {}) event_sender event_line (history 4711 4711 (event_loop {}) event_sender [Run] new_process)
   \<and> hits 4711 4711 event_sender (Sent 4711 [''sender'', ''abc''])"
proof -
  have m: "0 < (4711::int)" "in_int 4711" by (simp_all add: in_int_def INT_MIN_def INT_MAX_def)
  have "scan_d ''abc'' = None" by (simp add: scan_d_def is_space_def starts_digit_def digit_val_def Let_def)
  then show ?thesis using signals_answered [OF m, of 4711 0 "''sender''" "''abc''"] by simp
qed

text \<open>
  A signal that comes before the receiver's first call ends each of the three receivers without output; after
  \<^verbatim>\<open>sigprocmask\<close> the third one survives any number of \<^verbatim>\<open>SIGINT\<close>s, which leave one pending signal and no output.
\<close>

definition shielded :: "nat \<Rightarrow> process \<Rightarrow> bool" where
  "shielded pid p \<longleftrightarrow> blocked p = {SIGINT} \<and> handling p = None \<and> pending p \<subseteq> {SIGINT}
     \<and> (point p = Announce \<and> out p = [] \<or> point p = Waiting \<and> out p = [''SIGINT is blocked. PID='' @ show_nat pid])"

lemma shielded_history:
  "shielded pid p \<Longrightarrow> shielded pid (history me grp (sigprocmask_main pid {}) sigprocmask_sender es p)
     \<and> (pending (history me grp (sigprocmask_main pid {}) sigprocmask_sender es p) = {SIGINT}
         \<longleftrightarrow> pending p = {SIGINT} \<or> (\<exists>e\<in>set es. hits me grp sigprocmask_sender e))"
proof (induction es arbitrary: p)
  case (Cons e es)
  let ?p = "happens me grp (sigprocmask_main pid {}) sigprocmask_sender e p"
  have "shielded pid ?p \<and> (pending ?p = {SIGINT} \<longleftrightarrow> pending p = {SIGINT} \<or> hits me grp sigprocmask_sender e)"
  proof (cases e)
    case Run
    then show ?thesis using Cons.prems
      by (auto simp: shielded_def sigprocmask_main_def hits_def say_def split: point.splits)
  next
    case (Sent sgrp argv)
    then show ?thesis using Cons.prems delivers_own [of me grp SIGINT sgrp argv]
      by (auto simp: shielded_def hits_def arrive_def gone_def sigprocmask_sender_def split: option.splits)
  qed
  then show ?case using Cons.IH [of ?p] by (auto simp: history_def)
qed (simp add: history_def)

lemma early_kill:
  assumes "prog \<in> {event_loop bad, sigaction_main pid bad, sigprocmask_main pid bad}" "hits me grp (sender s) e"
  shows "history me grp prog (sender s) (e # es) new_process = new_process\<lparr>point := Killed s\<rparr>"
proof -
  have h: "happens me grp prog (sender s) e new_process = new_process\<lparr>point := Killed s\<rparr>"
    using assms(2) by (cases e) (auto simp: hits_def arrive_def gone_def new_process_def dest: delivers_own)
  have "history me grp prog (sender s) (e # es) new_process = history me grp prog (sender s) es (new_process\<lparr>point := Killed s\<rparr>)"
    by (simp add: history_def h)
  also have "\<dots> = new_process\<lparr>point := Killed s\<rparr>"
    by (rule killed_stays [OF _ _ assms(1)]) (simp_all add: gone_def new_process_def)
  finally show ?thesis .
qed

text \<open>
  Claim C17. The moment of the first call decides: a signal that reaches any of the three receivers before it
  ends the receiver without a line, whatever follows; once \<^verbatim>\<open>SIGINT\<close> is blocked, the third receiver is not ended
  by any history of senders and steps, prints its own announcement at most, and has the signal pending
  exactly when one was sent.
\<close>

theorem signals_before_set_up_kill:
  assumes "hits me grp event_sender e" "hits me grp sigaction_sender e" "hits me grp sigprocmask_sender e"
  shows "history me grp (event_loop bad) event_sender (e # es) new_process = new_process\<lparr>point := Killed SIGUSR1\<rparr>
    \<and> history me grp (sigaction_main pid bad) sigaction_sender (e # es) new_process = new_process\<lparr>point := Killed SIGUSR1\<rparr>
    \<and> history me grp (sigprocmask_main pid bad) sigprocmask_sender (e # es) new_process = new_process\<lparr>point := Killed SIGINT\<rparr>
    \<and> (let p = history me grp (sigprocmask_main pid {}) sigprocmask_sender (Run # es) new_process
       in \<not> gone p \<and> length (out p) \<le> 1 \<and> (pending p = {SIGINT} \<longleftrightarrow> (\<exists>e\<in>set es. hits me grp sigprocmask_sender e)))"
proof -
  define p where "p = new_process\<lparr>blocked := {SIGINT}, point := Announce\<rparr>"
  have s: "shielded pid p" "pending p = {}" by (simp_all add: p_def shielded_def new_process_def)
  have h: "history me grp (sigprocmask_main pid {}) sigprocmask_sender (Run # es) new_process
      = history me grp (sigprocmask_main pid {}) sigprocmask_sender es p"
    by (simp add: history_def sigprocmask_main_def new_process_def p_def)
  have g: "\<not> gone q \<and> length (out q) \<le> 1" if "shielded pid q" for q using that by (auto simp: shielded_def gone_def)
  show ?thesis
    using early_kill [of _ bad pid me grp SIGUSR1 e es] early_kill [of _ bad pid me grp SIGINT e es] assms
      shielded_history [OF s(1), of me grp es] g s(2)
    by (simp add: h [unfolded sigprocmask_sender_def] event_sender_def sigaction_sender_def sigprocmask_sender_def Let_def)
qed

theorem signals_before_set_up_kill_witness:
  "history 4711 4711 (event_loop {}) event_sender [Sent 1 [''sender'', show_int 4711], Run] new_process
     = new_process\<lparr>point := Killed SIGUSR1\<rparr>
   \<and> pending (history 4711 4711 (sigprocmask_main 4711 {}) sigprocmask_sender [Run, Sent 1 [''sender'', show_int 4711]] new_process) = {SIGINT}"
proof -
  let ?e = "Sent 1 [''sender'', show_int 4711]"
  have m: "0 < (4711::int)" "in_int 4711" by (simp_all add: in_int_def INT_MIN_def INT_MAX_def)
  have h: "hits 4711 4711 event_sender ?e" "hits 4711 4711 sigaction_sender ?e" "hits 4711 4711 sigprocmask_sender ?e"
    using sender_hits [OF m, of 4711 _ 1 "''sender''"]
    by (simp_all add: hits_def event_sender_def sigaction_sender_def sigprocmask_sender_def)
  show ?thesis
    using signals_before_set_up_kill [OF h, of "{}" "[Run]"] signals_before_set_up_kill [OF h, of "{}" "[?e]" 4711] h(3)
    by (simp add: Let_def)
qed

end
