(* ===== verification/MqRoom.thy ===== *)
theory MqRoom
  imports MqChat
begin

text \<open>
  The whole chat of \<^verbatim>\<open>hw13_mqueue/part2\<close>: the server of \<open>MqChat\<close> and any number of client processes over the
  kernel's message queues. A queue is an object, numbered in the order of creation, that lives on when its
  name is unlinked; it holds ten messages, sending to a full one and receiving from an empty one block.
  An action is one system call of one process with what the code does between it and the next call;
  \<open>act\<close> gives the state after it, or says why it cannot take place now.
\<close>

section \<open>The room\<close>

definition CHAT_QUEUE :: string where "CHAT_QUEUE = ''/chat_queue''"

text \<open>The positions in the client's \<^verbatim>\<open>main\<close> before its calls on queues, and its exit code.\<close>

datatype phase = Enter | Create | Connect | Greet | Chatting | Leave | Left int

record client =
  who :: string
  rows :: int
  phase :: phase
  own :: "nat option"
  dest :: nat
  seen :: mq_windows

text \<open>
  \<open>descs\<close> are the queues behind the server's descriptors of clients, \<open>sends\<close> what is left of the broadcast it
  is in. Two histories: \<open>said\<close> has the lines in the order in which the server's queue took them, \<open>since\<close> the
  number of lines the server had taken when it registered each client.
\<close>

record room =
  linked :: "string \<Rightarrow> nat option"
  queues :: "mq_message list list"
  descs :: "nat list"
  table :: mq_state
  sends :: "(int \<times> mq_message) list"
  clients :: "client list"
  said :: "(string \<times> string) list"
  since :: "nat list"

datatype stop = Blocked | Not_now | Overrun

datatype action = Come string int | Go nat | Type nat string | Show nat | Take | Send

text \<open>The server's start: the old name is unlinked and queue number 0 made.\<close>

definition server_start :: "(string \<Rightarrow> nat option) \<Rightarrow> room" where
  "server_start old =
     (let names = old(CHAT_QUEUE := None)
      in \<lparr>linked = names(CHAT_QUEUE \<mapsto> 0), queues = [[]], descs = [], table = mq_start, sends = [],
          clients = [], said = [], since = []\<rparr>)"

definition room_start :: room where
  "room_start = server_start (\<lambda>q. None)"

definition enqueue :: "nat \<Rightarrow> mq_message \<Rightarrow> room \<Rightarrow> room option" where
  "enqueue n m r =
     (if 10 \<le> length (queues r ! n) then None
      else Some (r\<lparr>queues := (queues r)[n := queues r ! n @ [m]]\<rparr>))"

abbreviation set_client :: "nat \<Rightarrow> client \<Rightarrow> room \<Rightarrow> room" where
  "set_client i c r \<equiv> r\<lparr>clients := (clients r)[i := c]\<rparr>"

text \<open>What a chat window line shows of a message, and the chat lines in a queue.\<close>

definition line :: "mq_message \<Rightarrow> string \<times> string" where
  "line m = (cstr (mq_name m), cstr (mq_text m))"

definition lines :: "mq_message list \<Rightarrow> (string \<times> string) list" where
  "lines ms = map line (filter (\<lambda>m. mq_type m = 1) ms)"

section \<open>The client\<close>

text \<open>The typed name, or the message of the exit before anything is opened.\<close>

definition client_name_of :: "string \<Rightarrow> string + string" where
  "client_name_of input =
     (case c_fgets 32 input of
        None \<Rightarrow> Inl ''Failed to read name''
      | Some (l, rest) \<Rightarrow> if chomp l = [] then Inl ''Empty name not allowed'' else Inr (chomp l))"

definition client_comes :: "string \<Rightarrow> int \<Rightarrow> room \<Rightarrow> stop + room" where
  "client_comes input max_y r =
     (case client_name_of input of
        Inl msg \<Rightarrow> Inr r
      | Inr name \<Rightarrow> Inr (r\<lparr>clients := clients r @ [\<lparr>who = name, rows = max_y, phase = Enter, own = None, dest = 0,
          seen = \<lparr>users = [], chat = []\<rparr>\<rparr>]\<rparr>))"

text \<open>
  The calls of \<^verbatim>\<open>main\<close> outside the input loop: unlink and create the own queue (a name with a second slash
  is refused), open the server's, register; at the end unlink the own name.
\<close>

definition client_leaves :: "nat \<Rightarrow> room \<Rightarrow> room" where
  "client_leaves i r =
     (let c = clients r ! i
      in set_client i (c\<lparr>phase := Left 0\<rparr>) (r\<lparr>linked := (linked r)(queue_name_of (who c) := None)\<rparr>))"

definition client_goes :: "nat \<Rightarrow> room \<Rightarrow> stop + room" where
  "client_goes i r =
     (let c = clients r ! i; q = queue_name_of (who c)
      in case phase c of
           Enter \<Rightarrow> Inr (set_client i (c\<lparr>phase := Create\<rparr>) (r\<lparr>linked := (linked r)(q := None)\<rparr>))
         | Create \<Rightarrow>
             if CHR ''/'' \<in> set (tl q) then Inr (set_client i (c\<lparr>phase := Left 1\<rparr>) r)
             else (case linked r q of
                     Some n \<Rightarrow> Inr (set_client i (c\<lparr>own := Some n, phase := Connect\<rparr>) r)
                   | None \<Rightarrow> Inr (set_client i (c\<lparr>own := Some (length (queues r)), phase := Connect\<rparr>)
                       (r\<lparr>queues := queues r @ [[]], linked := (linked r)(q \<mapsto> length (queues r))\<rparr>)))
         | Connect \<Rightarrow>
             (case linked r CHAT_QUEUE of
                None \<Rightarrow> Inr (set_client i (c\<lparr>phase := Left 1\<rparr>) (r\<lparr>linked := (linked r)(q := None)\<rparr>))
              | Some d \<Rightarrow> Inr (set_client i (c\<lparr>dest := d, phase := Greet\<rparr>) r))
         | Greet \<Rightarrow>
             (case enqueue (dest c) (register_msg (who c)) r of
                None \<Rightarrow> Inl Blocked
              | Some r \<Rightarrow> Inr (set_client i (c\<lparr>phase := Chatting\<rparr>) r))
         | Leave \<Rightarrow> Inr (client_leaves i r)
         | _ \<Rightarrow> Inl Not_now)"

text \<open>A line typed in the input window.\<close>

definition client_types :: "nat \<Rightarrow> string \<Rightarrow> room \<Rightarrow> stop + room" where
  "client_types i input r =
     (let c = clients r ! i
      in if phase c \<noteq> Chatting then Inl Not_now
         else if cstr input = ''q'' then Inr (set_client i (c\<lparr>phase := Leave\<rparr>) r)
         else (case enqueue (dest c) (say_msg (who c) input) r of
                 None \<Rightarrow> Inl Blocked
               | Some r \<Rightarrow> Inr (if dest c = 0 then r\<lparr>said := said r @ [line (say_msg (who c) input)]\<rparr> else r)))"

text \<open>One message of \<^verbatim>\<open>receive_thread\<close>.\<close>

definition client_receives :: "nat \<Rightarrow> room \<Rightarrow> stop + room" where
  "client_receives i r =
     (let c = clients r ! i
      in case (phase c, own c) of
           (Chatting, Some n) \<Rightarrow>
             (case queues r ! n of
                [] \<Rightarrow> Inl Blocked
              | m # ms \<Rightarrow> Inr (set_client i (c\<lparr>seen := client_shows (rows c) m (seen c)\<rparr>) (r\<lparr>queues := (queues r)[n := ms]\<rparr>)))
         | _ \<Rightarrow> Inl Not_now)"

section \<open>The server\<close>

text \<open>
  The server receives when its last broadcast is complete. \<^verbatim>\<open>mq_open\<close> gives the next descriptor when the name
  in the message is linked.
\<close>

definition server_takes :: "room \<Rightarrow> stop + room" where
  "server_takes r =
     (if sends r \<noteq> [] then Inl Not_now
      else case queues r ! 0 of
             [] \<Rightarrow> Inl Blocked
           | m # ms \<Rightarrow>
             (let target = linked r (cstr (mq_queue_name m));
                  qd = (case target of None \<Rightarrow> -1 | Some n \<Rightarrow> int (length (descs r)))
              in case mq_server (table r) m qd of
                   None \<Rightarrow> Inl Overrun
                 | Some (st, out) \<Rightarrow>
                   (let r' = r\<lparr>queues := (queues r)[0 := ms], table := st, sends := out\<rparr>
                    in if mq_client_count st = mq_client_count (table r) then Inr r'
                       else Inr (r'\<lparr>descs := descs r @ [the target],
                                    since := since r @ [length (said r) - length (lines ms)]\<rparr>))))"

definition server_sends :: "room \<Rightarrow> stop + room" where
  "server_sends r =
     (case sends r of
        [] \<Rightarrow> Inl Not_now
      | (qd, m) # rest \<Rightarrow>
          (case enqueue (descs r ! nat qd) m r of None \<Rightarrow> Inl Blocked | Some r \<Rightarrow> Inr (r\<lparr>sends := rest\<rparr>)))"

section \<open>Runs\<close>

fun act :: "action \<Rightarrow> room \<Rightarrow> stop + room" where
  "act (Come input max_y) r = client_comes input max_y r"
| "act (Go i) r = (if i < length (clients r) then client_goes i r else Inl Not_now)"
| "act (Type i input) r = (if i < length (clients r) then client_types i input r else Inl Not_now)"
| "act (Show i) r = (if i < length (clients r) then client_receives i r else Inl Not_now)"
| "act Take r = server_takes r"
| "act Send r = server_sends r"

fun acts :: "action list \<Rightarrow> room \<Rightarrow> stop + room" where
  "acts [] r = Inr r"
| "acts (a # as) r = (case act a r of Inl s \<Rightarrow> Inl s | Inr r \<Rightarrow> acts as r)"

lemma acts_append: "acts (as @ bs) r = (case acts as r of Inl s \<Rightarrow> Inl s | Inr r \<Rightarrow> acts bs r)"
  by (induction as arbitrary: r) (auto split: sum.splits)

section \<open>What the server makes of a message\<close>

lemma server_say:
  obtains m where "mq_server st (say_msg nm t) qd = Some (st, send_all st m)" "mq_type m = 1"
    "line m = line (say_msg nm t)"
proof -
  define m where "m = zero_msg\<lparr>mq_type := 1, mq_name := c_strncpy (mq_name zero_msg) (mq_name (say_msg nm t)) 31,
    mq_text := c_strncpy (mq_text zero_msg) (mq_text (say_msg nm t)) 255\<rparr>"
  have "mq_server st (say_msg nm t) qd = Some (st, send_all st m)"
    by (simp add: mq_server_def broadcast_message_def say_msg_def zero_msg_def m_def Let_def)
  moreover have "line m = line (say_msg nm t)"
    using msg_fields(1,2) [of nm t] by (simp add: line_def m_def zero_msg_def strncpy_zero_last)
  ultimately show ?thesis by (intro that [of m]) (simp_all add: m_def)
qed

lemma broadcast_new_form:
  assumes "broadcast_new_clients st = Some out"
  obtains m where "out = send_all st m" "mq_type m = 2"
proof -
  obtain t where "out = send_all st (zero_msg\<lparr>mq_type := 2, mq_text := t,
      mq_name := c_strncpy (mq_name zero_msg) ''Server'' 31\<rparr>)"
    using assms by (auto simp: broadcast_new_clients_def Let_def split: option.splits)
  then show ?thesis by (rule that) simp
qed

lemma server_register:
  assumes inv: "mq_inv st" and step: "mq_server st (register_msg nm) qd = Some (st', out)"
    and nm: "cstr nm = nm" "length nm \<le> 31"
  obtains (dropped) "st' = st" "out = []"
  | (added) m where "out = send_all st' m" "mq_type m = 2" "qd \<noteq> -1" "mq_client_count st' = Suc (mq_client_count st)"
      "names st' = names st @ [nm]" "map ci_dqueue (registered st') = map ci_dqueue (registered st) @ [qd]"
proof -
  let ?m = "register_msg nm"
  obtain s r where add: "add_mq_client (mq_name ?m) (mq_queue_name ?m) qd st = (s, r)" by fastforce
  note E = add_mq_client_effect [OF inv add]
  have s: "mq_server st ?m qd = (if r = 0 then map_option (\<lambda>out. (s, out)) (broadcast_new_clients s) else Some (s, []))"
    using add by (simp add: mq_server_def register_msg_def zero_msg_def)
  show ?thesis
  proof (cases "r = 0")
    case True
    then have "map_option (\<lambda>out. (s, out)) (broadcast_new_clients s) = Some (st', out)" using s step by simp
    then have "s = st'" and b: "broadcast_new_clients st' = Some out" by auto
    obtain m where "out = send_all st' m" "mq_type m = 2" using broadcast_new_form [OF b] .
    moreover have "mq_client_count st' = Suc (mq_client_count st)"
      using add True \<open>s = st'\<close> by (auto simp: add_mq_client_def Let_def split: if_splits)
    ultimately show ?thesis
      using added [of m] E(4-6) True nm msg_fields(3) [of nm] \<open>s = st'\<close> by simp
  next
    case False
    then have "s = st" using E(2,3) by auto
    then show ?thesis using False s step dropped by simp
  qed
qed

lemma queue_field:
  assumes "cstr nm = nm" "length nm \<le> 31"
  shows "queue_name_of nm = CHR ''/'' # nm @ ''_queue''" "cstr (mq_queue_name (register_msg nm)) = queue_name_of nm"
proof -
  have z: "0 \<notin> set nm" using assms(1) cstr_no_zero [of nm] by simp
  show q: "queue_name_of nm = CHR ''/'' # nm @ ''_queue''" using assms by (simp add: queue_name_of_def)
  have "cstr (CHR ''/'' # nm @ ''_queue'') = CHR ''/'' # nm @ ''_queue''"
    using z by (intro cstr_id) (simp add: zero_char_def)
  then show "cstr (mq_queue_name (register_msg nm)) = queue_name_of nm"
    unfolding q using assms
    by (simp add: register_msg_def zero_msg_def Let_def strncpy_zero_last q)
qed

lemma queue_name_inj:
  assumes "cstr a = a" "length a \<le> 31" "cstr b = b" "length b \<le> 31" "queue_name_of a = queue_name_of b"
  shows "a = b"
  using assms by (simp add: queue_field(1))

lemma queue_name_chat:
  assumes "cstr a = a" "length a \<le> 31" "a \<noteq> ''chat''"
  shows "queue_name_of a \<noteq> CHAT_QUEUE"
proof
  assume "queue_name_of a = CHAT_QUEUE"
  then have "a @ ''_queue'' = ''chat'' @ ''_queue''" using assms by (simp add: queue_field(1) CHAT_QUEUE_def)
  then show False using assms(3) by (simp only: append_same_eq)
qed

section \<open>The invariant\<close>

text \<open>Names that differ from each other and from the one whose queue would be the server's.\<close>

definition named :: "room \<Rightarrow> bool" where
  "named r \<longleftrightarrow> distinct (map who (clients r)) \<and> ''chat'' \<notin> set (map who (clients r))"

definition greeted :: "client \<Rightarrow> bool" where
  "greeted c \<longleftrightarrow> phase c \<in> {Chatting, Leave, Left 0}"

definition client_ok :: "room \<Rightarrow> client \<Rightarrow> bool" where
  "client_ok r c \<longleftrightarrow> cstr (who c) = who c \<and> length (who c) \<le> 31
     \<and> (phase c \<in> {Enter, Create} \<longrightarrow> own c = None)
     \<and> (phase c \<in> {Connect, Greet, Chatting, Leave} \<longrightarrow> own c \<noteq> None)
     \<and> (phase c \<in> {Greet, Chatting, Leave} \<longrightarrow> dest c = 0)
     \<and> (\<forall>n. own c = Some n \<longrightarrow> 0 < n \<and> n < length (queues r))"

definition apart :: "room \<Rightarrow> bool" where
  "apart r \<longleftrightarrow> (\<forall>c\<in>set (clients r). \<forall>d\<in>set (clients r). own c = own d \<longrightarrow> own c \<noteq> None \<longrightarrow> who c = who d)"

definition links_ok :: "room \<Rightarrow> bool" where
  "links_ok r \<longleftrightarrow> linked r CHAT_QUEUE = Some 0 \<and> 0 < length (queues r)
     \<and> (\<forall>q n. linked r q = Some n \<longrightarrow> q \<noteq> CHAT_QUEUE \<longrightarrow>
          (\<exists>c\<in>set (clients r). own c = Some n \<and> q = queue_name_of (who c) \<and> phase c \<in> {Connect, Greet, Chatting, Leave}))"

definition regs :: "mq_message list \<Rightarrow> string list" where
  "regs ms = map (\<lambda>m. cstr (mq_name m)) (filter (\<lambda>m. mq_type m = 0) ms)"

definition table_ok :: "room \<Rightarrow> bool" where
  "table_ok r \<longleftrightarrow> mq_inv (table r) \<and> length (descs r) = mq_client_count (table r)
     \<and> length (since r) = mq_client_count (table r) \<and> (\<forall>s\<in>set (since r). s \<le> length (said r))
     \<and> map ci_dqueue (registered (table r)) = map int [0..<mq_client_count (table r)]
     \<and> (\<forall>k<length (descs r). \<exists>c\<in>set (clients r). own c = Some (descs r ! k) \<and> names (table r) ! k = who c \<and> greeted c)"

definition inbox_ok :: "room \<Rightarrow> bool" where
  "inbox_ok r \<longleftrightarrow> distinct (names (table r) @ regs (queues r ! 0))
     \<and> (\<forall>m\<in>set (queues r ! 0). (\<exists>c\<in>set (clients r). greeted c \<and> m = register_msg (who c)) \<or> (\<exists>nm t. m = say_msg nm t))
     \<and> (\<exists>p. said r = p @ lines (queues r ! 0))"

definition out_type :: "mq_message \<Rightarrow> bool" where
  "out_type m \<longleftrightarrow> mq_type m \<in> {1, 2}"

definition types_ok :: "room \<Rightarrow> bool" where
  "types_ok r \<longleftrightarrow> (\<forall>n m. 0 < n \<longrightarrow> n < length (queues r) \<longrightarrow> m \<in> set (queues r ! n) \<longrightarrow> out_type m)
     \<and> (\<forall>(d, m)\<in>set (sends r). out_type m) \<and> distinct (map fst (sends r))
     \<and> fst ` set (sends r) \<subseteq> int ` {..<length (descs r)} \<and> (\<forall>q\<in>set (queues r). length q \<le> 10)"

text \<open>What is still to be sent to descriptor \<open>k\<close>.\<close>

definition pending :: "nat \<Rightarrow> (int \<times> mq_message) list \<Rightarrow> mq_message list" where
  "pending k out = map snd (filter (\<lambda>(d, m). d = int k) out)"

definition delivered :: "room \<Rightarrow> client \<Rightarrow> bool" where
  "delivered r c \<longleftrightarrow>
     (own c = None \<longrightarrow> chat (seen c) = [])
     \<and> (\<forall>n. own c = Some n \<longrightarrow> n \<notin> set (descs r) \<longrightarrow> queues r ! n = [] \<and> chat (seen c) = [])
     \<and> (\<forall>k<length (descs r). own c = Some (descs r ! k) \<longrightarrow>
          chat (seen c) @ lines (queues r ! (descs r ! k)) @ lines (pending k (sends r)) @ lines (queues r ! 0)
          = drop (since r ! k) (said r))"

definition room_inv :: "room \<Rightarrow> bool" where
  "room_inv r \<longleftrightarrow> (\<forall>c\<in>set (clients r). client_ok r c) \<and> apart r \<and> links_ok r \<and> table_ok r \<and> inbox_ok r \<and> types_ok r
     \<and> (\<forall>c\<in>set (clients r). delivered r c)"

lemma lines_simps [simp]: "lines [] = []" "lines (m # ms) = (if mq_type m = 1 then [line m] else []) @ lines ms"
  "lines (ms @ ns) = lines ms @ lines ns"
  by (simp_all add: lines_def)

lemma regs_simps [simp]: "regs [] = []" "regs (m # ms) = (if mq_type m = 0 then [cstr (mq_name m)] else []) @ regs ms"
  "regs (ms @ ns) = regs ms @ regs ns"
  by (simp_all add: regs_def)

lemma msg_types [simp]: "mq_type (register_msg nm) = 0" "mq_type (say_msg nm t) = 1"
  by (simp_all add: register_msg_def say_msg_def)

lemma named_unique: "named r \<Longrightarrow> c \<in> set (clients r) \<Longrightarrow> d \<in> set (clients r) \<Longrightarrow> who c = who d \<Longrightarrow> c = d"
  by (auto simp: named_def distinct_map inj_on_def)

lemma set_client_set:
  assumes "distinct (map who cs)" "i < length cs" "who y = who (cs ! i)"
  shows "set (cs[i := y]) = insert y {c \<in> set cs. who c \<noteq> who (cs ! i)}"
proof -
  have u: "who (cs ! j) = who (cs ! i) \<longleftrightarrow> j = i" if "j < length cs" for j
    using assms(1,2) that by (auto simp: distinct_map nth_eq_iff_index_eq inj_on_eq_iff)
  show ?thesis
    using assms(2) u by (auto simp: set_conv_nth nth_list_update) (metis+)
qed

lemma names_of_update: "i < length cs \<Longrightarrow> who y = who (cs ! i) \<Longrightarrow> map who (cs[i := y]) = map who cs"
  by (metis list_update_id map_update)

lemma start_inv: "room_inv room_start"
  by (auto simp: room_inv_def room_start_def server_start_def apart_def links_ok_def table_ok_def inbox_ok_def types_ok_def
      mq_start_facts registered_def Let_def)

section \<open>Every action keeps it\<close>

lemmas parts = apart_def links_ok_def table_ok_def inbox_ok_def types_ok_def

text \<open>
  A client moves on. It may have got a new queue, and its name may be unlinked or linked to its own queue.
\<close>

definition fresh :: "nat \<Rightarrow> room \<Rightarrow> bool" where
  "fresh n r \<longleftrightarrow> 0 < n \<and> n < length (queues r) \<and> queues r ! n = [] \<and> n \<notin> set (descs r)
     \<and> (\<forall>c\<in>set (clients r). own c \<noteq> Some n)"

lemma client_name: "client_ok r c \<Longrightarrow> cstr (who c) = who c \<and> length (who c) \<le> 31"
  by (simp add: client_ok_def)

lemma client_move:
  assumes inv: "room_inv r" and nm: "named r" and i: "i < length (clients r)"
    and y: "who y = who (clients r ! i)" "seen y = seen (clients r ! i)"
      "greeted (clients r ! i) \<Longrightarrow> greeted y" "client_ok r y"
    and o: "own y = own (clients r ! i) \<or> own (clients r ! i) = None \<and> (\<exists>n. own y = Some n \<and> fresh n r)"
    and l: "l CHAT_QUEUE = Some 0"
      "\<And>q n. l q = Some n \<Longrightarrow> q \<noteq> CHAT_QUEUE \<Longrightarrow> q = queue_name_of (who y)
         \<Longrightarrow> phase y \<in> {Connect, Greet, Chatting, Leave} \<and> (own y = Some n \<or> linked r q = Some n \<and> own y = own (clients r ! i))"
      "\<And>q n. l q = Some n \<Longrightarrow> q \<noteq> queue_name_of (who y) \<Longrightarrow> linked r q = Some n"
  shows "room_inv (set_client i y (r\<lparr>linked := l\<rparr>))"
proof -
  let ?c = "clients r ! i"
  have ci: "?c \<in> set (clients r)" using i by simp
  have s: "set ((clients r)[i := y]) = insert y {c \<in> set (clients r). who c \<noteq> who ?c}"
    using nm i y(1) by (intro set_client_set) (auto simp: named_def)
  have u: "d = ?c" if "d \<in> set (clients r)" "who d = who ?c" for d using named_unique [OF nm _ ci] that by blast
  have o': "own y = own ?c" if "own ?c \<noteq> None" using o that by blast
  have "apart (set_client i y (r\<lparr>linked := l\<rparr>))"
  proof -
    have A: "who c = who d" if "c \<in> set (clients r)" "d \<in> set (clients r)" "own c = own d" "own c \<noteq> None" for c d
      using inv that unfolding room_inv_def apart_def by blast
    have Y: "who d = who y" if "d \<in> set (clients r)" "own d = own y" "own d \<noteq> None" for d
    proof (cases "own y = own ?c")
      case True
      then show ?thesis using A [OF that(1) ci] that y(1) by simp
    next
      case False
      then show ?thesis using o that by (auto simp: fresh_def)
    qed
    have "who c = who d" if "c \<in> set ((clients r)[i := y])" "d \<in> set ((clients r)[i := y])" "own c = own d" "own c \<noteq> None" for c d
      using in_set_updateD [OF that(1)] in_set_updateD [OF that(2)] that(3,4) A Y by metis
    moreover have "clients (set_client i y (r\<lparr>linked := l\<rparr>)) = (clients r)[i := y]" by simp
    ultimately show ?thesis unfolding apart_def by metis
  qed
  moreover have "links_ok (set_client i y (r\<lparr>linked := l\<rparr>))"
  proof -
    have "\<exists>c\<in>set ((clients r)[i := y]). own c = Some n \<and> q = queue_name_of (who c) \<and> phase c \<in> {Connect, Greet, Chatting, Leave}"
      if q: "l q = Some n" "q \<noteq> CHAT_QUEUE" for q n
    proof -
      have ex: "\<exists>d\<in>set (clients r). own d = Some n \<and> q = queue_name_of (who d) \<and> phase d \<in> {Connect, Greet, Chatting, Leave}"
        if "linked r q = Some n" using inv q that unfolding room_inv_def links_ok_def by blast
      have inj: "who d = who ?c" if "d \<in> set (clients r)" "queue_name_of (who d) = queue_name_of (who ?c)" for d
        using inv that ci client_name by (metis room_inv_def queue_name_inj)
      show ?thesis
      proof (cases "q = queue_name_of (who y)")
        case True
        then have "phase y \<in> {Connect, Greet, Chatting, Leave} \<and> own y = Some n"
          using l(2) [OF q True] ex inj u y(1) by metis
        then show ?thesis using True unfolding s by blast
      next
        case False
        then show ?thesis using ex [OF l(3) [OF q(1) False]] y(1) unfolding s by auto
      qed
    qed
    then show ?thesis using inv l(1) by (simp add: room_inv_def links_ok_def)
  qed
  moreover have "table_ok (set_client i y (r\<lparr>linked := l\<rparr>))"
  proof -
    have "\<exists>c\<in>set ((clients r)[i := y]). own c = Some (descs r ! k) \<and> names (table r) ! k = who c \<and> greeted c"
      if k: "k < length (descs r)" for k
    proof -
      obtain d where d: "d \<in> set (clients r)" "own d = Some (descs r ! k)" "names (table r) ! k = who d" "greeted d"
        using inv k unfolding room_inv_def table_ok_def by blast
      then show ?thesis
        using u [OF d(1)] y o' by (cases "who d = who ?c") (auto simp: s)
    qed
    then show ?thesis using inv by (simp add: room_inv_def table_ok_def)
  qed
  moreover have "inbox_ok (set_client i y (r\<lparr>linked := l\<rparr>))"
  proof -
    have "(\<exists>c\<in>set ((clients r)[i := y]). greeted c \<and> m = register_msg (who c)) \<or> (\<exists>nm t. m = say_msg nm t)"
      if m: "m \<in> set (queues r ! 0)" for m
    proof -
      consider d where "d \<in> set (clients r)" "greeted d" "m = register_msg (who d)" | "\<exists>nm t. m = say_msg nm t"
        using inv m unfolding room_inv_def inbox_ok_def by blast
      then show ?thesis
      proof cases
        case 1
        then show ?thesis using u [OF 1(1)] y by (cases "who d = who ?c") (auto simp: s)
      qed simp
    qed
    then show ?thesis using inv by (simp add: room_inv_def inbox_ok_def)
  qed
  moreover have "types_ok (set_client i y (r\<lparr>linked := l\<rparr>))" using inv by (simp add: room_inv_def types_ok_def)
  moreover have "client_ok (set_client i y (r\<lparr>linked := l\<rparr>)) d" "delivered (set_client i y (r\<lparr>linked := l\<rparr>)) d"
    if "d \<in> set ((clients r)[i := y])" for d
  proof -
    have D: "d = y \<or> d \<in> set (clients r)" using that unfolding s by blast
    have e: "client_ok (set_client i y (r\<lparr>linked := l\<rparr>)) d = client_ok r d"
      "delivered (set_client i y (r\<lparr>linked := l\<rparr>)) d = delivered r d"
      by (simp_all add: client_ok_def delivered_def)
    have "delivered r ?c" using inv ci by (simp add: room_inv_def)
    then have "delivered r y" using y(2) o by (auto simp: delivered_def fresh_def)
    then show "client_ok (set_client i y (r\<lparr>linked := l\<rparr>)) d" "delivered (set_client i y (r\<lparr>linked := l\<rparr>)) d"
      using D inv y(4) unfolding e room_inv_def by blast+
  qed
  ultimately show ?thesis by (simp add: room_inv_def)
qed

lemma named_move: "i < length (clients r) \<Longrightarrow> who y = who (clients r ! i) \<Longrightarrow> clients r' = (clients r)[i := y] \<Longrightarrow> named r' = named r"
  by (simp add: named_def names_of_update)

lemma bounded_update:
  "\<forall>q\<in>set qs. length q \<le> b \<Longrightarrow> length y \<le> b \<Longrightarrow> \<forall>q\<in>set (qs[n := y]). length q \<le> b"
  by (auto dest: in_set_updateD)

lemma queue_bound: "types_ok r \<Longrightarrow> n < length (queues r) \<Longrightarrow> length (queues r ! n) \<le> 10"
  by (simp add: types_ok_def)

lemma apart_same: "apart r \<Longrightarrow> clients r' = clients r \<Longrightarrow> apart r'"
  unfolding apart_def by metis

lemma room_invD:
  assumes "room_inv r"
  shows "c \<in> set (clients r) \<Longrightarrow> client_ok r c" "c \<in> set (clients r) \<Longrightarrow> delivered r c" "apart r" "links_ok r"
    "table_ok r" "inbox_ok r" "types_ok r" "linked r CHAT_QUEUE = Some 0" "0 < length (queues r)"
  using assms by (auto simp: room_inv_def links_ok_def)

lemma own_less: "room_inv r \<Longrightarrow> c \<in> set (clients r) \<Longrightarrow> own c = Some n \<Longrightarrow> 0 < n \<and> n < length (queues r)"
  using room_invD(1) by (auto simp: client_ok_def)

lemma descs_less:
  assumes "room_inv r" "n \<in> set (descs r)"
  shows "0 < n \<and> n < length (queues r)"
proof -
  obtain k where "k < length (descs r)" "n = descs r ! k" using assms(2) by (metis in_set_conv_nth)
  then obtain c where "c \<in> set (clients r)" "own c = Some n" using room_invD(5) [OF assms(1)] by (auto simp: table_ok_def)
  then show ?thesis using own_less [OF assms(1)] by blast
qed

lemma new_queue:
  assumes inv: "room_inv r"
  shows "room_inv (r\<lparr>queues := queues r @ [[]]\<rparr>)" and "fresh (length (queues r)) (r\<lparr>queues := queues r @ [[]]\<rparr>)"
proof -
  let ?r = "r\<lparr>queues := queues r @ [[]]\<rparr>"
  have n: "0 < length (queues r)" by (rule room_invD(9) [OF inv])
  have z: "queues ?r ! 0 = queues r ! 0" using n by (simp add: nth_append)
  have "client_ok ?r c" "delivered ?r c" if c: "c \<in> set (clients r)" for c
  proof -
    show "client_ok ?r c" using room_invD(1) [OF inv c] by (auto simp: client_ok_def)
    have "queues ?r ! k = queues r ! k" if "own c = Some k" for k
      using own_less [OF inv c that] by (simp add: nth_append)
    then show "delivered ?r c" using room_invD(2) [OF inv c] z by (simp add: delivered_def)
  qed
  moreover have "apart ?r" by (rule apart_same [OF room_invD(3) [OF inv]]) simp
  moreover have "links_ok ?r" using room_invD(4) [OF inv] by (simp add: links_ok_def)
  moreover have "table_ok ?r" using room_invD(5) [OF inv] by (simp add: table_ok_def)
  moreover have "inbox_ok ?r" using room_invD(6) [OF inv] z by (simp add: inbox_ok_def)
  moreover have "types_ok ?r" using room_invD(7) [OF inv] by (auto simp: types_ok_def nth_append)
  ultimately show "room_inv ?r" unfolding room_inv_def by simp
  have "length (queues r) \<notin> set (descs r)" using descs_less [OF inv] by blast
  moreover have "own c \<noteq> Some (length (queues r))" if "c \<in> set (clients r)" for c using own_less [OF inv that] by blast
  ultimately show "fresh (length (queues r)) ?r" using n by (simp add: fresh_def)
qed

lemma fgets_no_newline_name: "client_name_of input = Inr name \<Longrightarrow> cstr name = name \<and> length name \<le> 31"
proof -
  assume "client_name_of input = Inr name"
  then obtain l rest where l: "c_fgets 32 input = Some (l, rest)" "name = chomp l"
    by (auto simp: client_name_of_def split: option.splits if_splits)
  have "length (chomp l) \<le> length (cstr l)" unfolding chomp_def by (rule length_takeWhile_le)
  then have "length name \<le> 31" using c_fgets_shorter(3) [OF l(1)] l(2) strlen_le [of l] by simp
  moreover have "0 \<notin> set (chomp l)" unfolding chomp_def using cstr_no_zero [of l] by (meson set_takeWhileD)
  ultimately show ?thesis using l(2) by (simp add: cstr_id)
qed

lemma comes_inv:
  assumes "room_inv r" "client_comes input max_y r = Inr r'"
  shows "room_inv r'"
proof (cases "client_name_of input")
  case (Inr name)
  define y where "y = \<lparr>who = name, rows = max_y, phase = Enter, own = None, dest = 0, seen = \<lparr>users = [], chat = []\<rparr>\<rparr>"
  have r': "r' = r\<lparr>clients := clients r @ [y]\<rparr>" using assms(2) Inr by (simp add: client_comes_def y_def)
  note R = room_invD [OF assms(1)]
  have "client_ok r' y" "delivered r' y" using fgets_no_newline_name [OF Inr]
    by (simp_all add: y_def client_ok_def delivered_def)
  moreover have "client_ok r' c = client_ok r c" "delivered r' c = delivered r c" for c
    by (simp_all add: r' client_ok_def delivered_def)
  moreover have "apart r'"
  proof -
    have "set (clients r') = insert y (set (clients r))" "own y = None" by (simp_all add: r' y_def)
    then show ?thesis using R(3) unfolding apart_def by (metis insertE)
  qed
  moreover have "links_ok r'" using R(4) unfolding links_ok_def r' by fastforce
  moreover have "table_ok r'" using R(5) unfolding table_ok_def r' by fastforce
  moreover have "inbox_ok r'" using R(6) unfolding inbox_ok_def r' by fastforce
  moreover have "types_ok r'" using R(7) unfolding types_ok_def r' by simp
  ultimately show ?thesis using R(1,2) unfolding room_inv_def by (auto simp: r')
qed (use assms in \<open>simp add: client_comes_def\<close>)

text \<open>A message in the server's queue.\<close>

lemma inbox_gets:
  assumes inv: "room_inv r" and room: "length (queues r ! 0) < 10"
    and m: "(\<exists>c\<in>set (clients r). greeted c \<and> who c \<notin> set (names (table r) @ regs (queues r ! 0)) \<and> m = register_msg (who c))
      \<or> (\<exists>nm t. m = say_msg nm t)"
  shows "room_inv (r\<lparr>queues := (queues r)[0 := queues r ! 0 @ [m]], said := said r @ lines [m]\<rparr>)" (is "room_inv ?r")
proof -
  note R = room_invD [OF inv]
  have z: "queues ?r ! 0 = queues r ! 0 @ [m]" "length (queues ?r) = length (queues r)" using R(9) by simp_all
  have o: "queues ?r ! n = queues r ! n" if "0 < n" for n using that by simp
  have "client_ok ?r c" "delivered ?r c" if c: "c \<in> set (clients r)" for c
  proof -
    show "client_ok ?r c" using R(1) [OF c] by (simp add: client_ok_def)
    have k: "drop (since r ! k) (said r @ lines [m]) = drop (since r ! k) (said r) @ lines [m]" if "k < length (descs r)" for k
      using R(5) that by (simp add: table_ok_def)
    show "delivered ?r c"
      using R(2) [OF c] k o own_less [OF inv c] descs_less [OF inv] unfolding delivered_def z by (simp add: append_assoc [symmetric] del: append_assoc)
  qed
  moreover have "apart ?r" by (rule apart_same [OF R(3)]) simp
  moreover have "links_ok ?r" using R(4) by (simp add: links_ok_def)
  moreover have "table_ok ?r" using R(5) by (auto simp: table_ok_def)
  moreover have "inbox_ok ?r"
  proof -
    have "distinct (names (table r) @ regs (queues r ! 0 @ [m]))"
      using m R(6) R(1) msg_fields(3) by (auto simp: inbox_ok_def client_ok_def)
    moreover have "\<exists>p. said r @ lines [m] = p @ lines (queues r ! 0 @ [m])"
      using R(6) by (auto simp: inbox_ok_def)
    ultimately show ?thesis using m R(6) unfolding inbox_ok_def z by auto
  qed
  moreover have "types_ok ?r"
    using R(7) room bounded_update [of "queues r" 10 "queues r ! 0 @ [m]" 0] by (simp add: types_ok_def)
  ultimately show ?thesis unfolding room_inv_def by simp
qed

lemma registered_greeted:
  assumes "room_inv r" "nm \<in> set (names (table r) @ regs (queues r ! 0))"
  shows "\<exists>c\<in>set (clients r). greeted c \<and> who c = nm"
proof -
  note R = room_invD [OF assms(1)]
  consider k where "k < length (descs r)" "nm = names (table r) ! k"
    | m where "m \<in> set (queues r ! 0)" "mq_type m = 0" "nm = cstr (mq_name m)"
    using assms(2) R(5) by (auto simp: in_set_conv_nth table_ok_def names_def registered_def mq_inv_def regs_def)
  then show ?thesis
  proof cases
    case 1
    then show ?thesis using R(5) unfolding table_ok_def by metis
  next
    case 2
    then obtain c where "c \<in> set (clients r)" "greeted c" "m = register_msg (who c)"
      using R(6) unfolding inbox_ok_def by force
    then show ?thesis using 2 R(1) msg_fields(3) by (metis client_name take_all)
  qed
qed

lemma set_client_queues: "set_client i y (r\<lparr>queues := q\<rparr>) = (set_client i y r)\<lparr>queues := q\<rparr>"
  by simp

lemma move_in_place:
  assumes "room_inv r" "named r" "i < length (clients r)"
    and "who y = who (clients r ! i)" "seen y = seen (clients r ! i)" "greeted (clients r ! i) \<Longrightarrow> greeted y" "client_ok r y"
    and "own y = own (clients r ! i)" "phase y \<in> {Connect, Greet, Chatting, Leave}"
  shows "room_inv (set_client i y r)"
proof -
  have "set_client i y (r\<lparr>linked := linked r\<rparr>) = set_client i y r" by simp
  then show ?thesis using client_move [OF assms(1-7), of "linked r"] assms(8,9) room_invD(8) [OF assms(1)] by simp
qed

lemma enqueue_same: "enqueue n m r = Some r' \<Longrightarrow> r' = r\<lparr>queues := (queues r)[n := queues r ! n @ [m]]\<rparr> \<and> length (queues r ! n) < 10"
  by (simp add: enqueue_def split: if_splits)

lemma not_the_server:
  assumes "room_inv r" "named r" "c \<in> set (clients r)"
  shows "queue_name_of (who c) \<noteq> CHAT_QUEUE"
proof -
  have "who c \<in> set (map who (clients r))" using assms(3) by simp
  then have "who c \<noteq> ''chat''" using assms(2) unfolding named_def by metis
  then show ?thesis using client_name [OF room_invD(1) [OF assms(1,3)]] queue_name_chat by blast
qed

lemma unlinked_at_create:
  assumes inv: "room_inv r" and nm: "named r" and c: "c \<in> set (clients r)" "phase c = Create"
  shows "linked r (queue_name_of (who c)) = None"
proof (rule ccontr)
  note R = room_invD [OF inv]
  assume "linked r (queue_name_of (who c)) \<noteq> None"
  then obtain n where "linked r (queue_name_of (who c)) = Some n" by blast
  then obtain d where d: "d \<in> set (clients r)" "queue_name_of (who c) = queue_name_of (who d)"
    "phase d \<in> {Connect, Greet, Chatting, Leave}"
    using R(4) not_the_server [OF inv nm c(1)] unfolding links_ok_def by metis
  then have "d = c" using named_unique [OF nm d(1) c(1)] queue_name_inj client_name [OF R(1)] c(1) by metis
  then show False using d c(2) by simp
qed

lemma goes_inv:
  assumes inv: "room_inv r" and nm: "named r" and i: "i < length (clients r)" and go: "client_goes i r = Inr r'"
  shows "room_inv r'"
proof -
  note R = room_invD [OF inv]
  define c where "c = clients r ! i"
  define q where "q = queue_name_of (who c)"
  have ci: "c \<in> set (clients r)" using i by (simp add: c_def)
  note C = R(1) [OF ci]
  have qc: "q \<noteq> CHAT_QUEUE" unfolding q_def by (rule not_the_server [OF inv nm ci])
  note G = go [unfolded client_goes_def client_leaves_def Let_def, folded c_def, folded q_def]
  note M = client_move [OF inv nm i, folded c_def]
  note P = move_in_place [OF inv nm i, folded c_def]
  have gone: "room_inv (set_client i (c\<lparr>phase := p\<rparr>) (r\<lparr>linked := (linked r)(q := None)\<rparr>))"
    if "p \<in> {Create, Left 1, Left 0}" "greeted c \<Longrightarrow> p = Left 0" "p = Create \<Longrightarrow> own c = None" for p
    by (rule M) (use that C R(8) qc in \<open>auto simp: client_ok_def greeted_def q_def split: if_splits\<close>)
  show ?thesis
  proof (cases "phase c")
    case Enter
    then show ?thesis using G gone [of Create] C by (simp add: greeted_def client_ok_def)
  next
    case Create
    have n: "linked r q = None" unfolding q_def by (rule unlinked_at_create [OF inv nm ci Create])
    show ?thesis
    proof (cases "CHR ''/'' \<in> set (tl q)")
      case True
      have "r\<lparr>linked := (linked r)(q := None)\<rparr> = r" using n by (simp add: fun_upd_idem)
      then show ?thesis using G True Create gone [of "Left 1"] by (simp add: greeted_def)
    next
      case False
      let ?r = "r\<lparr>queues := queues r @ [[]]\<rparr>" and ?y = "c\<lparr>own := Some (length (queues r)), phase := Connect\<rparr>"
      have "room_inv (set_client i ?y (?r\<lparr>linked := (linked r)(q \<mapsto> length (queues r))\<rparr>))"
      proof (rule client_move [OF new_queue(1) [OF inv]])
        show "named ?r" using nm by (simp add: named_def)
        show "client_ok ?r ?y" using C R(9) by (auto simp: client_ok_def)
        show "own ?y = own (clients ?r ! i) \<or> own (clients ?r ! i) = None \<and> (\<exists>n. own ?y = Some n \<and> fresh n ?r)"
          using new_queue(2) [OF inv] C Create by (simp add: client_ok_def flip: c_def)
      qed (use i R(8) qc Create in \<open>auto simp: greeted_def q_def simp flip: c_def split: if_splits\<close>)
      then show ?thesis using G False Create n by simp
    qed
  next
    case Connect
    show ?thesis
      using G Connect R(8) P [of "c\<lparr>dest := 0, phase := Greet\<rparr>"] C by (simp add: greeted_def client_ok_def)
  next
    case Greet
    let ?y = "c\<lparr>phase := Chatting\<rparr>" and ?m = "register_msg (who c)"
    have d: "dest c = 0" using C Greet by (simp add: client_ok_def)
    then obtain r1 where r1: "enqueue 0 ?m r = Some r1" "r' = set_client i ?y r1"
      using G Greet by (auto split: option.splits)
    have y: "room_inv (set_client i ?y r)"
      by (rule P) (use Greet C in \<open>auto simp: greeted_def client_ok_def\<close>)
    have "who c \<notin> set (names (table r) @ regs (queues r ! 0))"
      using registered_greeted [OF inv] named_unique [OF nm _ ci] Greet by (force simp: greeted_def)
    moreover have "?y \<in> set (clients (set_client i ?y r))" using i by (simp add: set_update_memI)
    ultimately have "room_inv ((set_client i ?y r)\<lparr>queues := (queues r)[0 := queues r ! 0 @ [?m]], said := said r @ lines [?m]\<rparr>)"
      using inbox_gets [OF y _, of ?m] enqueue_same [OF r1(1)] by (force simp: greeted_def)
    moreover have "r' = set_client i ?y (r\<lparr>queues := (queues r)[0 := queues r ! 0 @ [?m]]\<rparr>)"
      using enqueue_same [OF r1(1)] r1(2) by simp
    ultimately show ?thesis unfolding set_client_queues by simp
  next
    case Leave
    then show ?thesis using G gone [of "Left 0"] by simp
  qed (use G in simp_all)
qed

lemma types_inv:
  assumes inv: "room_inv r" and nm: "named r" and i: "i < length (clients r)" and t: "client_types i input r = Inr r'"
  shows "room_inv r'"
proof -
  define c where "c = clients r ! i"
  have ci: "c \<in> set (clients r)" using i by (simp add: c_def)
  note C = room_invD(1) [OF inv ci]
  have ch: "phase c = Chatting" and d: "dest c = 0"
    using t C by (auto simp: client_types_def client_ok_def Let_def c_def split: if_splits)
  show ?thesis
  proof (cases "cstr input = ''q''")
    case True
    have "room_inv (set_client i (c\<lparr>phase := Leave\<rparr>) r)"
      by (rule move_in_place [OF inv nm i]) (use C ch in \<open>auto simp: client_ok_def greeted_def simp flip: c_def\<close>)
    then show ?thesis using t ch True by (simp add: client_types_def Let_def flip: c_def)
  next
    case False
    let ?m = "say_msg (who c) input"
    obtain r1 where r1: "enqueue 0 ?m r = Some r1" "r' = r1\<lparr>said := said r1 @ [line ?m]\<rparr>"
      using t ch d False by (auto simp: client_types_def Let_def simp flip: c_def split: option.splits)
    then have "r' = r\<lparr>queues := (queues r)[0 := queues r ! 0 @ [?m]], said := said r @ lines [?m]\<rparr>"
      using enqueue_same [OF r1(1)] by simp
    then show ?thesis using inbox_gets [OF inv, of ?m] enqueue_same [OF r1(1)] by blast
  qed
qed

text \<open>Queues other than the server's change, and with them what the clients have seen.\<close>

lemma mail_moves:
  assumes inv: "room_inv r" and q: "length q = length (queues r)" "q ! 0 = queues r ! 0"
    and cs: "map who cs = map who (clients r)"
      "\<And>c. c \<in> set cs \<Longrightarrow> \<exists>d\<in>set (clients r). who c = who d \<and> own c = own d \<and> dest c = dest d \<and> phase c = phase d"
      "\<And>d. d \<in> set (clients r) \<Longrightarrow> \<exists>c\<in>set cs. who c = who d \<and> own c = own d \<and> dest c = dest d \<and> phase c = phase d"
    and t: "types_ok (r\<lparr>queues := q, clients := cs, sends := out\<rparr>)"
    and dl: "\<And>c. c \<in> set cs \<Longrightarrow> delivered (r\<lparr>queues := q, clients := cs, sends := out\<rparr>) c"
  shows "room_inv (r\<lparr>queues := q, clients := cs, sends := out\<rparr>)" (is "room_inv ?r")
proof -
  note R = room_invD [OF inv]
  have "client_ok ?r c" if "c \<in> set cs" for c
  proof -
    obtain d where d: "d \<in> set (clients r)" "who c = who d" "own c = own d" "dest c = dest d" "phase c = phase d"
      using cs(2) [OF \<open>c \<in> set cs\<close>] by blast
    then show ?thesis using R(1) [OF d(1)] q(1) by (simp add: client_ok_def)
  qed
  moreover have "apart ?r"
  proof -
    have "who c = who d" if "c \<in> set cs" "d \<in> set cs" "own c = own d" "own c \<noteq> None" for c d
      using R(3) cs(2) [OF that(1)] cs(2) [OF that(2)] that(3,4) unfolding apart_def by metis
    moreover have "clients ?r = cs" by simp
    ultimately show ?thesis unfolding apart_def by metis
  qed
  moreover have "links_ok ?r"
  proof -
    have "\<exists>c\<in>set cs. own c = Some n \<and> s = queue_name_of (who c) \<and> phase c \<in> {Connect, Greet, Chatting, Leave}"
      if l: "linked r s = Some n" "s \<noteq> CHAT_QUEUE" for s n
    proof -
      obtain d where d: "d \<in> set (clients r)" "own d = Some n" "s = queue_name_of (who d)" "phase d \<in> {Connect, Greet, Chatting, Leave}"
        using R(4) l unfolding links_ok_def by blast
      then show ?thesis using cs(3) [OF d(1)] by metis
    qed
    then show ?thesis using R(4) q(1) by (simp add: links_ok_def)
  qed
  moreover have "table_ok ?r"
  proof -
    have "\<exists>c\<in>set cs. own c = Some (descs r ! k) \<and> names (table r) ! k = who c \<and> greeted c" if k: "k < length (descs r)" for k
    proof -
      obtain d where d: "d \<in> set (clients r)" "own d = Some (descs r ! k)" "names (table r) ! k = who d" "greeted d"
        using R(5) k unfolding table_ok_def by blast
      then show ?thesis using cs(3) [OF d(1)] by (metis greeted_def)
    qed
    then show ?thesis using R(5) by (simp add: table_ok_def)
  qed
  moreover have "inbox_ok ?r"
  proof -
    have "(\<exists>c\<in>set cs. greeted c \<and> m = register_msg (who c)) \<or> (\<exists>nm t. m = say_msg nm t)" if m: "m \<in> set (queues r ! 0)" for m
    proof -
      consider d where "d \<in> set (clients r)" "greeted d" "m = register_msg (who d)" | "\<exists>nm t. m = say_msg nm t"
        using R(6) m unfolding inbox_ok_def by blast
      then show ?thesis
      proof cases
        case 1
        then show ?thesis using cs(3) [OF 1(1)] by (metis greeted_def)
      qed simp
    qed
    then show ?thesis using R(6) q by (simp add: inbox_ok_def)
  qed
  ultimately show ?thesis using t dl unfolding room_inv_def by simp
qed

lemma shows_line: "out_type m \<Longrightarrow> chat (client_shows max_y m w) = chat w @ lines [m]"
  by (auto simp: client_shows_def out_type_def line_def Let_def)

lemma deliveredD:
  "delivered r c \<Longrightarrow> k < length (descs r) \<Longrightarrow> own c = Some (descs r ! k) \<Longrightarrow>
     chat (seen c) @ lines (queues r ! (descs r ! k)) @ lines (pending k (sends r)) @ lines (queues r ! 0)
       = drop (since r ! k) (said r)"
  by (simp add: delivered_def)

lemma receives_inv:
  assumes inv: "room_inv r" and nm: "named r" and i: "i < length (clients r)" and t: "client_receives i r = Inr r'"
  shows "room_inv r'"
proof -
  note R = room_invD [OF inv]
  define c where "c = clients r ! i"
  have ci: "c \<in> set (clients r)" using i by (simp add: c_def)
  obtain n m ms where o: "own c = Some n" and q: "queues r ! n = m # ms"
    and r': "r' = set_client i (c\<lparr>seen := client_shows (rows c) m (seen c)\<rparr>) (r\<lparr>queues := (queues r)[n := ms]\<rparr>)"
    using t by (auto simp: client_receives_def Let_def simp flip: c_def split: phase.splits option.splits list.splits)
  define y where "y = c\<lparr>seen := client_shows (rows c) m (seen c)\<rparr>"
  have n: "0 < n" "n < length (queues r)" using own_less [OF inv ci o] by auto
  have m: "out_type m" using R(7) n q by (auto simp: types_ok_def)
  have s: "set ((clients r)[i := y]) = insert y {d \<in> set (clients r). who d \<noteq> who c}"
    unfolding c_def using nm i by (intro set_client_set) (auto simp: named_def y_def c_def)
  have e: "r' = r\<lparr>queues := (queues r)[n := ms], clients := (clients r)[i := y], sends := sends r\<rparr>"
    by (simp add: r' y_def)
  have other: "own d \<noteq> Some n" if "d \<in> set (clients r)" "who d \<noteq> who c" for d
  proof
    assume "own d = Some n"
    then have "own c = own d" "own c \<noteq> None" using o by simp_all
    then have "who c = who d" using R(3) ci that(1) unfolding apart_def by blast
    then show False using that(2) by simp
  qed
  have d: "delivered r' y"
  proof -
    have "n \<in> set (descs r)" using R(2) [OF ci] o q by (auto simp: delivered_def)
    moreover have "chat (seen y) @ lines ms @ lines (pending k (sends r)) @ lines (queues r ! 0) = drop (since r ! k) (said r)"
      if "k < length (descs r)" "n = descs r ! k" for k
      using deliveredD [OF R(2) [OF ci] that(1)] that(2) o q shows_line [OF m] by (simp add: y_def split: if_splits)
    ultimately show ?thesis using o n by (auto simp: delivered_def e y_def)
  qed
  have d': "delivered r' d" if "d \<in> set (clients r)" "who d \<noteq> who c" for d
    using R(2) [OF that(1)] other [OF that] n unfolding delivered_def e by auto
  have nochange: "\<exists>c'\<in>insert y {d \<in> set (clients r). who d \<noteq> who c}. who c' = who d \<and> own c' = own d \<and> dest c' = dest d \<and> phase c' = phase d"
    if "d \<in> set (clients r)" for d
  proof (cases "who d = who c")
    case True
    then have "d = c" using named_unique [OF nm that ci] by blast
    then show ?thesis by (simp add: y_def)
  qed (use that in blast)
  show ?thesis
    unfolding e
  proof (rule mail_moves [OF inv])
    show "types_ok (r\<lparr>queues := (queues r)[n := ms], clients := (clients r)[i := y], sends := sends r\<rparr>)"
      using R(7) q n bounded_update [of "queues r" 10 ms n] queue_bound [OF R(7) n(2)]
      by (auto simp: types_ok_def nth_list_update)
    show "map who ((clients r)[i := y]) = map who (clients r)" using i by (intro names_of_update) (auto simp: y_def c_def)
    show "\<exists>d\<in>set (clients r). who c' = who d \<and> own c' = own d \<and> dest c' = dest d \<and> phase c' = phase d"
      if "c' \<in> set ((clients r)[i := y])" for c' using that ci unfolding s by (auto simp: y_def)
    show "delivered (r\<lparr>queues := (queues r)[n := ms], clients := (clients r)[i := y], sends := sends r\<rparr>) c'"
      if "c' \<in> set ((clients r)[i := y])" for c' using that d d' unfolding s e by blast
  qed (use n nochange s in auto)
qed

lemma delivered_same:
  assumes "delivered r c" "descs r' = descs r" "since r' = since r" "said r' = said r"
    and "queues r' ! 0 = queues r ! 0"
    and "\<And>n. n \<notin> set (descs r) \<Longrightarrow> queues r' ! n = queues r ! n"
    and "\<And>k. k < length (descs r) \<Longrightarrow>
      lines (queues r' ! (descs r ! k)) @ lines (pending k (sends r')) = lines (queues r ! (descs r ! k)) @ lines (pending k (sends r))"
  shows "delivered r' c"
proof -
  have "chat (seen c) @ lines (queues r' ! (descs r' ! k)) @ lines (pending k (sends r')) @ lines (queues r' ! 0)
      = drop (since r' ! k) (said r')" if "k < length (descs r)" "own c = Some (descs r ! k)" for k
    using deliveredD [OF assms(1) that] assms(2-5) arg_cong [OF assms(7) [OF that(1)], of "\<lambda>x. chat (seen c) @ x @ lines (queues r ! 0)"]
    by simp
  then show ?thesis using assms(1-6) by (auto simp: delivered_def)
qed

lemma descs_distinct:
  assumes inv: "room_inv r" and nm: "named r"
  shows "distinct (descs r)"
  unfolding distinct_conv_nth
proof (intro allI impI notI)
  note R = room_invD [OF inv]
  fix j k assume jk: "j < length (descs r)" "k < length (descs r)" "j \<noteq> k" "descs r ! j = descs r ! k"
  obtain c where c: "c \<in> set (clients r)" "own c = Some (descs r ! j)" "names (table r) ! j = who c"
    using R(5) jk(1) unfolding table_ok_def by blast
  obtain d where d: "d \<in> set (clients r)" "own d = Some (descs r ! k)" "names (table r) ! k = who d"
    using R(5) jk(2) unfolding table_ok_def by blast
  have "own c = own d" "own c \<noteq> None" using c d jk(4) by simp_all
  then have "who c = who d" using R(3) c(1) d(1) unfolding apart_def by blast
  moreover have "distinct (names (table r))" "length (names (table r)) = length (descs r)"
    using R(5,6) by (auto simp: inbox_ok_def table_ok_def names_def registered_def mq_inv_def)
  ultimately show False using c(3) d(3) jk by (metis nth_eq_iff_index_eq)
qed

lemma pending_Cons [simp]: "pending k ((d, m) # out) = (if d = int k then [m] else []) @ pending k out"
  by (simp add: pending_def)

lemma sends_inv:
  assumes inv: "room_inv r" and nm: "named r" and t: "server_sends r = Inr r'"
  shows "room_inv r'"
proof -
  note R = room_invD [OF inv]
  obtain d m rest where s: "sends r = (d, m) # rest" using t by (auto simp: server_sends_def split: list.splits)
  have T: "out_type m" "distinct (map fst rest)" "\<forall>(d, m)\<in>set rest. out_type m" "fst ` set rest \<subseteq> int ` {..<length (descs r)}"
    "d \<in> int ` {..<length (descs r)}"
    using R(7) s by (auto simp: types_ok_def)
  then obtain k where k: "d = int k" "k < length (descs r)" by blast
  define n where "n = descs r ! k"
  have n: "0 < n" "n < length (queues r)" using descs_less [OF inv, of n] k by (auto simp: n_def)
  have r': "r' = r\<lparr>queues := (queues r)[n := queues r ! n @ [m]], clients := clients r, sends := rest\<rparr>"
    and room: "length (queues r ! n) < 10"
    using t s k by (auto simp: server_sends_def enqueue_def n_def split: if_splits)
  show ?thesis
    unfolding r'
  proof (rule mail_moves [OF inv])
    show "types_ok (r\<lparr>queues := (queues r)[n := queues r ! n @ [m]], clients := clients r, sends := rest\<rparr>)"
      using R(7) T n room bounded_update [of "queues r" 10 "queues r ! n @ [m]" n]
      by (auto simp: types_ok_def nth_list_update)
    fix c assume c: "c \<in> set (clients r)"
    have j: "descs r ! j = n \<longleftrightarrow> j = k" if "j < length (descs r)" for j
      using that descs_distinct [OF inv nm] k(2) by (simp add: n_def nth_eq_iff_index_eq)
    have "n \<in> set (descs r)" using k(2) by (simp add: n_def)
    then show "delivered (r\<lparr>queues := (queues r)[n := queues r ! n @ [m]], clients := clients r, sends := rest\<rparr>) c"
      by (intro delivered_same [OF R(2) [OF c]]) (use n s k j in \<open>auto simp: nth_list_update\<close>)
  qed (use n in auto)
qed

lemma send_all_to:
  assumes "table_ok r"
  shows "map fst (send_all (table r) m) = map int [0..<length (descs r)]"
    "pending k (send_all (table r) m) = (if k < length (descs r) then [m] else [])"
proof -
  show a: "map fst (send_all (table r) m) = map int [0..<length (descs r)]"
    using assms by (simp add: send_all_def table_ok_def comp_def)
  have "send_all (table r) m = map (\<lambda>d. (d, m)) (map fst (send_all (table r) m))" by (simp add: send_all_def comp_def)
  then have "pending k (send_all (table r) m) = map (\<lambda>j. m) (filter (\<lambda>j. j = k) [0..<length (descs r)])"
    unfolding a by (simp add: pending_def filter_map comp_def)
  also have "filter (\<lambda>j. j = k) [0..<l] = (if k < l then [k] else [])" for l by (induction l) auto
  finally show "pending k (send_all (table r) m) = (if k < length (descs r) then [m] else [])" by simp
qed

text \<open>The server takes the first message of its queue. \<open>popped\<close> is the room without it.\<close>

abbreviation popped :: "mq_message list \<Rightarrow> (int \<times> mq_message) list \<Rightarrow> room \<Rightarrow> room" where
  "popped ms out r \<equiv> r\<lparr>queues := (queues r)[0 := ms], sends := out\<rparr>"

lemma popped_inv:
  assumes inv: "room_inv r" and q: "queues r ! 0 = m # ms" and idle: "sends r = []"
    and t: "types_ok (popped ms out r)"
    and p: "\<And>k. k < length (descs r) \<Longrightarrow> lines (pending k out) = lines [m]"
  shows "room_inv (popped ms out r)" (is "room_inv ?r")
proof -
  note R = room_invD [OF inv]
  have z: "queues ?r ! 0 = ms" using R(9) by simp
  have "client_ok ?r c" "delivered ?r c" if c: "c \<in> set (clients r)" for c
  proof -
    show "client_ok ?r c" using R(1) [OF c] by (simp add: client_ok_def)
    have nz: "n \<noteq> 0" if "own c = Some n" for n using own_less [OF inv c that] by simp
    have "chat (seen c) @ lines (queues ?r ! (descs ?r ! k)) @ lines (pending k out) @ lines (queues ?r ! 0) = drop (since r ! k) (said r)"
      if "k < length (descs r)" "own c = Some (descs r ! k)" for k
      using deliveredD [OF R(2) [OF c] that] nz [OF that(2)] p [OF that(1)] q idle unfolding z by (simp add: pending_def)
    then show "delivered ?r c" using R(2) [OF c] nz by (auto simp: delivered_def)
  qed
  moreover have "apart ?r" by (rule apart_same [OF R(3)]) simp
  moreover have "links_ok ?r" using R(4) by (simp add: links_ok_def)
  moreover have "table_ok ?r" using R(5) by (simp add: table_ok_def)
  moreover have "inbox_ok ?r"
  proof -
    have "\<exists>p. said r = p @ lines ms" using R(6) q by (auto simp: inbox_ok_def)
    then show ?thesis using R(6) unfolding inbox_ok_def z q by (auto split: if_splits)
  qed
  ultimately show ?thesis using t unfolding room_inv_def by simp
qed

lemma types_popped: "room_inv r \<Longrightarrow> queues r ! 0 = m # ms \<Longrightarrow> (\<forall>(d, m)\<in>set out. out_type m) \<Longrightarrow> distinct (map fst out)
   \<Longrightarrow> fst ` set out \<subseteq> int ` {..<length (descs r)} \<Longrightarrow> types_ok (popped ms out r)"
  using room_invD(7,9) [of r] bounded_update [of "queues r" 10 ms 0] queue_bound [of r 0] by (simp add: types_ok_def)

lemma send_all_types:
  assumes "table_ok r" "out_type m"
  shows "(\<forall>(d, m)\<in>set (send_all (table r) m). out_type m)" "distinct (map fst (send_all (table r) m))"
    "fst ` set (send_all (table r) m) \<subseteq> int ` {..<length (descs r)}"
proof -
  show "(\<forall>(d, m)\<in>set (send_all (table r) m). out_type m)" using assms(2) by (auto simp: send_all_def)
  show "distinct (map fst (send_all (table r) m))" unfolding send_all_to(1) [OF assms(1)] by (simp add: distinct_map)
  have "fst ` set (send_all (table r) m) = set (map fst (send_all (table r) m))" by simp
  then show "fst ` set (send_all (table r) m) \<subseteq> int ` {..<length (descs r)}" unfolding send_all_to(1) [OF assms(1)] by auto
qed

text \<open>A registration that is accepted: the table, the descriptor and the number of lines before it.\<close>

lemma added_inv:
  assumes inv: "room_inv r" and nm: "named r" and idle: "sends r = []" and c: "c \<in> set (clients r)" "greeted c" "own c = Some n"
    and new: "who c \<notin> set (names (table r) @ regs (queues r ! 0))" "n \<notin> set (descs r)"
    and st: "mq_inv st" "mq_client_count st = Suc (mq_client_count (table r))" "names st = names (table r) @ [who c]"
      "map ci_dqueue (registered st) = map ci_dqueue (registered (table r)) @ [int (length (descs r))]"
    and out: "out = send_all st m" "mq_type m = 2"
  shows "room_inv (r\<lparr>sends := out, table := st, descs := descs r @ [n],
           since := since r @ [length (said r) - length (lines (queues r ! 0))]\<rparr>)" (is "room_inv ?r")
proof -
  note R = room_invD [OF inv]
  have T: "table_ok ?r"
  proof -
    have l: "length (names (table r)) = length (descs r)" using R(5)
      by (auto simp: table_ok_def names_def registered_def mq_inv_def)
    have "\<exists>d\<in>set (clients r). own d = Some ((descs r @ [n]) ! k) \<and> (names (table r) @ [who c]) ! k = who d \<and> greeted d"
      if "k < Suc (length (descs r))" for k
      using R(5) that c l by (cases "k = length (descs r)") (auto simp: table_ok_def nth_append)
    then show ?thesis using R(5) st by (auto simp: table_ok_def)
  qed
  have p: "lines (pending k out) = []" for k
    using send_all_to(2) [OF T, of k m] out by simp
  have "delivered ?r d" if d: "d \<in> set (clients r)" for d
  proof -
    have eq: "chat (seen d) @ lines (queues r ! (descs ?r ! k)) @ lines (pending k out) @ lines (queues r ! 0) = drop (since ?r ! k) (said r)"
      if k: "k < Suc (length (descs r))" "own d = Some (descs ?r ! k)" for k
    proof (cases "k = length (descs r)")
      case True
      then have "own d = Some n" using k(2) by simp
      then have e: "queues r ! n = []" "chat (seen d) = []" using R(2) [OF d] new(2) by (auto simp: delivered_def)
      obtain h where "said r = h @ lines (queues r ! 0)" using R(6) by (auto simp: inbox_ok_def)
      then have "drop (length (said r) - length (lines (queues r ! 0))) (said r) = lines (queues r ! 0)" by simp
      moreover have "since ?r ! k = length (said r) - length (lines (queues r ! 0))"
        using True R(5) by (auto simp: table_ok_def nth_append)
      ultimately show ?thesis using e True p by simp
    next
      case False
      then have k': "k < length (descs r)" using k(1) by simp
      then have "since ?r ! k = since r ! k" "descs ?r ! k = descs r ! k" using R(5) by (auto simp: table_ok_def nth_append)
      then show ?thesis using deliveredD [OF R(2) [OF d] k'] k(2) p idle by (simp add: pending_def)
    qed
    show ?thesis using R(2) [OF d] eq by (auto simp: delivered_def)
  qed
  moreover have "client_ok ?r d" if "d \<in> set (clients r)" for d using R(1) [OF that] by (simp add: client_ok_def)
  moreover have "apart ?r" by (rule apart_same [OF R(3)]) simp
  moreover have "links_ok ?r" using R(4) by (simp add: links_ok_def)
  moreover have "inbox_ok ?r" using R(6) new(1) st(3) by (auto simp: inbox_ok_def)
  moreover have "types_ok ?r"
    using R(7) send_all_types [OF T, of m] out by (simp add: types_ok_def out_type_def)
  ultimately show ?thesis using T unfolding room_inv_def by simp
qed

lemma takes_inv:
  assumes inv: "room_inv r" and nm: "named r" and t: "server_takes r = Inr r'"
  shows "room_inv r'"
proof -
  note R = room_invD [OF inv]
  obtain m ms where idle: "sends r = []" and q: "queues r ! 0 = m # ms"
    using t by (auto simp: server_takes_def split: if_splits list.splits)
  define target where "target = linked r (cstr (mq_queue_name m))"
  define qd where "qd = (case target of None \<Rightarrow> -1 | Some n \<Rightarrow> int (length (descs r)))"
  obtain st out where step: "mq_server (table r) m qd = Some (st, out)"
    and r': "r' = (if mq_client_count st = mq_client_count (table r) then (popped ms out r)\<lparr>table := st\<rparr>
      else (popped ms out r)\<lparr>table := st, descs := descs r @ [the target], since := since r @ [length (said r) - length (lines ms)]\<rparr>)"
    using t idle q by (auto simp: server_takes_def Let_def simp flip: target_def qd_def split: option.splits if_splits)
  have same: "(popped ms [] r)\<lparr>table := table r\<rparr> = popped ms [] r" by simp
  have I: "mq_inv (table r)" using R(5) by (simp add: table_ok_def)
  consider (reg) c where "c \<in> set (clients r)" "greeted c" "m = register_msg (who c)" | (say) a b where "m = say_msg a b"
    using R(6) q unfolding inbox_ok_def by (metis list.set_intros(1))
  then show ?thesis
  proof cases
    case (say a b)
    obtain m' where "mq_server (table r) m qd = Some (table r, send_all (table r) m')" "mq_type m' = 1" "line m' = line m"
      using server_say [of "table r" a b qd] unfolding say by metis
    then have m': "st = table r" "out = send_all (table r) m'" "mq_type m' = 1" "line m' = line m" using step by auto
    have "room_inv (popped ms out r)"
      using send_all_types [OF R(5), of m'] send_all_to(2) [OF R(5), of _ m'] m' say
      by (intro popped_inv [OF inv q idle] types_popped [OF inv q]) (auto simp: out_type_def)
    then show ?thesis using r' m'(1) by simp
  next
    case (reg c)
    note cn = client_name [OF R(1) [OF reg(1)]]
    have pop: "room_inv (popped ms [] r)"
      by (intro popped_inv [OF inv q idle] types_popped [OF inv q]) (simp_all add: reg(3) pending_def)
    have new: "who c \<notin> set (names (table r) @ regs ms)"
      using R(6) q reg(3) cn msg_fields(3) [of "who c"] by (auto simp: inbox_ok_def)
    from I step [unfolded reg(3)] conjunct1 [OF cn] conjunct2 [OF cn] show ?thesis
    proof (cases rule: server_register)
      case dropped
      then show ?thesis using r' pop by simp
    next
      case (added m')
      then obtain n where tg: "target = Some n" and qd: "qd = int (length (descs r))"
        by (auto simp: qd_def split: option.splits)
      have "linked r (queue_name_of (who c)) = Some n" using tg cn by (simp add: target_def reg(3) queue_field(2))
      moreover have "queue_name_of (who c) \<noteq> CHAT_QUEUE" by (rule not_the_server [OF inv nm reg(1)])
      ultimately obtain d where d: "d \<in> set (clients r)" "own d = Some n" "queue_name_of (who d) = queue_name_of (who c)"
        using R(4) unfolding links_ok_def by metis
      have "who d = who c" using queue_name_inj d(3) cn client_name [OF R(1) [OF d(1)]] by blast
      then have "d = c" by (rule named_unique [OF nm d(1) reg(1)])
      then have o: "own c = Some n" using d(2) by simp
      have "n \<notin> set (descs r)"
      proof
        assume "n \<in> set (descs r)"
        then obtain k where k: "k < length (descs r)" "descs r ! k = n" by (metis in_set_conv_nth)
        then obtain e where e: "e \<in> set (clients r)" "own e = Some n" "names (table r) ! k = who e"
          using R(5) unfolding table_ok_def by blast
        have "own e = own c" "own e \<noteq> None" using e(2) o by simp_all
        then have "who e = who c" using R(3) e(1) reg(1) unfolding apart_def by blast
        moreover have "length (names (table r)) = length (descs r)"
          using R(5) by (auto simp: table_ok_def names_def registered_def mq_inv_def)
        ultimately show False using new e(3) k(1) nth_mem [of k "names (table r)"] by simp
      qed
      then have "room_inv ((popped ms [] r)\<lparr>sends := out, table := st, descs := descs r @ [n],
          since := since r @ [length (said r) - length (lines (queues (popped ms [] r) ! 0))]\<rparr>)"
        using added_inv [OF pop, of c n st out m'] nm reg(1,2) o new added qd R(9) mq_server_inv [OF I step] by (simp add: named_def)
      moreover have "queues (popped ms [] r) ! 0 = ms" using R(9) by simp
      ultimately show ?thesis using r' added(4) tg by simp
    qed
  qed
qed

lemma enqueue_clients: "enqueue n m r = Some r' \<Longrightarrow> clients r' = clients r"
  by (auto dest: enqueue_same)

lemma who_update: "who y = who (cs ! i) \<Longrightarrow> map who (cs[i := y]) = map who cs"
  by (cases "i < length cs") (simp_all add: names_of_update list_update_beyond)

lemma goes_who: "client_goes i r = Inr r' \<Longrightarrow> map who (clients r') = map who (clients r)"
  unfolding client_goes_def client_leaves_def Let_def
  by (cases "phase (clients r ! i)") (auto simp: who_update enqueue_clients split: if_splits option.splits)

lemma types_who: "client_types i input r = Inr r' \<Longrightarrow> map who (clients r') = map who (clients r)"
  unfolding client_types_def Let_def by (auto simp: who_update enqueue_clients split: if_splits option.splits)

lemma receives_who: "client_receives i r = Inr r' \<Longrightarrow> map who (clients r') = map who (clients r)"
  unfolding client_receives_def Let_def
  by (cases "phase (clients r ! i)") (auto simp: who_update split: option.splits list.splits)

lemma server_who: "server_takes r = Inr r' \<Longrightarrow> clients r' = clients r" "server_sends r = Inr r' \<Longrightarrow> clients r' = clients r"
  by (auto simp: server_takes_def server_sends_def Let_def enqueue_clients split: if_splits option.splits list.splits prod.splits)

lemma clients_kept: "act a r = Inr r' \<Longrightarrow> named r' \<Longrightarrow> named r"
proof -
  assume a: "act a r = Inr r'" and n: "named r'"
  obtain new where e: "map who (clients r') = map who (clients r) @ new"
  proof (cases a)
    case (Come input max_y)
    then show ?thesis using a that by (auto simp: client_comes_def split: sum.splits)
  qed (use a that [of "[]"] in \<open>auto dest: goes_who types_who receives_who server_who split: if_splits\<close>)
  show "named r" using n unfolding named_def e by (simp only: distinct_append set_append) blast
qed

lemma act_inv: "room_inv r \<Longrightarrow> act a r = Inr r' \<Longrightarrow> named r' \<Longrightarrow> room_inv r'"
proof -
  assume "room_inv r" "act a r = Inr r'" "named r'"
  moreover from this have "named r" using clients_kept by blast
  ultimately show ?thesis
    by (cases a) (auto split: if_splits intro: comes_inv goes_inv types_inv receives_inv takes_inv sends_inv)
qed

section \<open>Reachable rooms\<close>

definition room_step :: "room \<Rightarrow> room \<Rightarrow> bool" where
  "room_step r r' \<longleftrightarrow> (\<exists>a. act a r = Inr r')"

interpretation chat_room: transition_system "\<lambda>r. r = room_start" room_step "\<lambda>r. named r \<longrightarrow> room_inv r"
proof
  show "named r \<longrightarrow> room_inv r" if "r = room_start" for r using that start_inv by simp
  show "named t \<longrightarrow> room_inv t" if "named s \<longrightarrow> room_inv s" "room_step s t" for s t
    using that clients_kept act_inv unfolding room_step_def by blast
qed

lemma acts_steps: "acts as r = Inr r' \<Longrightarrow> room_step\<^sup>*\<^sup>* r r'"
proof (induction as arbitrary: r)
  case (Cons a as)
  then obtain s where "act a r = Inr s" "room_step\<^sup>*\<^sup>* s r'" by (auto split: sum.splits)
  then show ?case by (blast intro: converse_rtranclp_into_rtranclp room_step_def [THEN iffD2])
qed simp

lemma run_inv: "acts as room_start = Inr r \<Longrightarrow> named r \<Longrightarrow> room_inv r"
  using chat_room.reach_inv acts_steps unfolding chat_room.reach_def by blast

lemma acts_inv: "acts as r = Inr r' \<Longrightarrow> room_inv r \<Longrightarrow> named r' \<Longrightarrow> room_inv r' \<and> named r"
proof (induction as arbitrary: r)
  case (Cons a as)
  then obtain s where s: "act a r = Inr s" "acts as s = Inr r'" by (auto split: sum.splits)
  have "named s" using s(2) Cons.prems(3) by (induction as arbitrary: s) (auto split: sum.splits intro: clients_kept)
  then show ?case using Cons.IH [OF s(2)] Cons.prems act_inv [OF Cons.prems(2) s(1)] clients_kept [OF s(1)] by blast
qed simp

section \<open>A broadcast that cannot go on\<close>

text \<open>Nobody receives from a queue, and a broadcast that has such a queue, full, still before it.\<close>

definition unread :: "nat \<Rightarrow> room \<Rightarrow> bool" where
  "unread n r \<longleftrightarrow> (\<forall>c\<in>set (clients r). own c = Some n \<longrightarrow> phase c \<noteq> Chatting)"

definition jammed_at :: "nat \<Rightarrow> room \<Rightarrow> bool" where
  "jammed_at k r \<longleftrightarrow> int k \<in> fst ` set (sends r) \<and> 10 \<le> length (queues r ! (descs r ! k)) \<and> unread (descs r ! k) r"

definition jammed :: "room \<Rightarrow> bool" where
  "jammed r \<longleftrightarrow> (\<exists>k<length (descs r). jammed_at k r)"

text \<open>What an action of a client leaves alone.\<close>

lemma goes_effect:
  assumes inv: "room_inv r" and nm: "named r" and i: "i < length (clients r)" and g: "client_goes i r = Inr r'"
  obtains y where "sends r' = sends r" "descs r' = descs r" "clients r' = (clients r)[i := y]"
    "phase y = Chatting \<Longrightarrow> phase (clients r ! i) = Greet"
    "own y = own (clients r ! i) \<or> own y = Some (length (queues r))"
    "\<And>n. 0 < n \<Longrightarrow> n < length (queues r) \<Longrightarrow> queues r' ! n = queues r ! n"
proof -
  have ci: "clients r ! i \<in> set (clients r)" using i by simp
  note u = unlinked_at_create [OF inv nm ci]
  note C = room_invD(1) [OF inv ci]
  note G = g [unfolded client_goes_def client_leaves_def Let_def]
  show ?thesis
  proof (cases "phase (clients r ! i)")
    case Enter
    then show ?thesis using G that [of "(clients r ! i)\<lparr>phase := Create\<rparr>"] by auto
  next
    case Create
    show ?thesis
    proof (cases "CHR ''/'' \<in> set (tl (queue_name_of (who (clients r ! i))))")
      case True
      then show ?thesis using G Create that [of "(clients r ! i)\<lparr>phase := Left 1\<rparr>"] by auto
    next
      case False
      then show ?thesis
        using G Create u that [of "(clients r ! i)\<lparr>own := Some (length (queues r)), phase := Connect\<rparr>"] by (auto simp: nth_append)
    qed
  next
    case Connect
    then show ?thesis
      using G room_invD(8) [OF inv] that [of "(clients r ! i)\<lparr>dest := 0, phase := Greet\<rparr>"] by auto
  next
    case Greet
    then have d: "dest (clients r ! i) = 0" using C by (simp add: client_ok_def)
    obtain r1 where r1: "enqueue 0 (register_msg (who (clients r ! i))) r = Some r1"
      "r' = set_client i ((clients r ! i)\<lparr>phase := Chatting\<rparr>) r1"
      using G Greet d by (auto split: option.splits)
    then show ?thesis
      using enqueue_same [OF r1(1)] Greet that [of "(clients r ! i)\<lparr>phase := Chatting\<rparr>"] by auto
  next
    case Leave
    then show ?thesis using G that [of "(clients r ! i)\<lparr>phase := Left 0\<rparr>"] by auto
  qed (use G in simp_all)
qed

lemma owner:
  assumes inv: "room_inv r" and nm: "named r" and k: "k < length (descs r)" and c: "c \<in> set (clients r)" "own c = Some (descs r ! k)"
  shows "greeted c" "names (table r) ! k = who c"
proof -
  obtain e where e: "e \<in> set (clients r)" "own e = Some (descs r ! k)" "names (table r) ! k = who e" "greeted e"
    using room_invD(5) [OF inv] k unfolding table_ok_def by blast
  have "own e = own c" "own e \<noteq> None" using c(2) e(2) by simp_all
  then have "who e = who c" using room_invD(3) [OF inv] c(1) e(1) unfolding apart_def by blast
  then have "e = c" by (rule named_unique [OF nm e(1) c(1)])
  then show "greeted c" "names (table r) ! k = who c" using e by simp_all
qed

lemma jam_same:
  assumes "jammed_at k r" "sends r' = sends r" "descs r' = descs r" "queues r' ! (descs r ! k) = queues r ! (descs r ! k)"
    and "\<And>c. c \<in> set (clients r') \<Longrightarrow> own c = Some (descs r ! k) \<Longrightarrow> phase c = Chatting
      \<Longrightarrow> \<exists>d\<in>set (clients r). own d = Some (descs r ! k) \<and> phase d = Chatting"
  shows "jammed_at k r'"
  using assms unfolding jammed_at_def unread_def by metis

lemma jam_act:
  assumes inv: "room_inv r" and nm: "named r" and k: "k < length (descs r)" and j: "jammed_at k r" and a: "act a r = Inr r'"
  shows "jammed_at k r' \<and> descs r' = descs r"
proof -
  note R = room_invD [OF inv]
  let ?n = "descs r ! k"
  have n: "0 < ?n" "?n < length (queues r)" using descs_less [OF inv, of ?n] k by auto
  show ?thesis
  proof (cases a)
    case (Come input max_y)
    then show ?thesis
      using a by (auto simp: client_comes_def split: sum.splits intro!: j jam_same [OF j])
  next
    case (Go i)
    then have i: "i < length (clients r)" and g: "client_goes i r = Inr r'" using a by (auto split: if_splits)
    let ?c = "clients r ! i"
    have ci: "?c \<in> set (clients r)" using i by simp
    obtain y where y: "sends r' = sends r" "descs r' = descs r" "clients r' = (clients r)[i := y]"
      "phase y = Chatting \<Longrightarrow> phase ?c = Greet" "own y = own ?c \<or> own y = Some (length (queues r))"
      "queues r' ! ?n = queues r ! ?n"
      using goes_effect [OF inv nm i g] n by metis
    have "phase y \<noteq> Chatting" if "own y = Some ?n"
      using y(4,5) owner(1) [OF inv nm k ci] that n by (auto simp: greeted_def)
    then have "\<exists>d\<in>set (clients r). own d = Some ?n \<and> phase d = Chatting"
      if "c \<in> set (clients r')" "own c = Some ?n" "phase c = Chatting" for c
      using that in_set_updateD [of c "clients r" i y] unfolding y(3) by blast
    then show ?thesis using jam_same [OF j y(1,2,6)] y(2) by blast
  next
    case (Type i input)
    then have i: "i < length (clients r)" and g: "client_types i input r = Inr r'" using a by (auto split: if_splits)
    let ?c = "clients r ! i"
    have ch: "phase ?c = Chatting" using g by (auto simp: client_types_def Let_def split: if_splits)
    then have d: "dest ?c = 0" using R(1) [of ?c] i by (simp add: client_ok_def)
    show ?thesis
    proof (cases "cstr input = ''q''")
      case True
      then have r': "r' = set_client i (?c\<lparr>phase := Leave\<rparr>) r" using g ch by (simp add: client_types_def Let_def)
      have "jammed_at k r'" by (rule jam_same [OF j]) (auto simp: r' dest!: in_set_updateD)
      then show ?thesis by (simp add: r')
    next
      case False
      then obtain r1 where r1: "enqueue 0 (say_msg (who ?c) input) r = Some r1" "r' = r1\<lparr>said := said r1 @ [line (say_msg (who ?c) input)]\<rparr>"
        using g ch d by (auto simp: client_types_def Let_def split: option.splits)
      have "jammed_at k r'" by (rule jam_same [OF j]) (use enqueue_same [OF r1(1)] r1(2) n in auto)
      then show ?thesis using enqueue_same [OF r1(1)] r1(2) by simp
    qed
  next
    case (Show i)
    then have i: "i < length (clients r)" and g: "client_receives i r = Inr r'" using a by (auto split: if_splits)
    let ?c = "clients r ! i"
    obtain n' m ms where o: "phase ?c = Chatting" "own ?c = Some n'" "queues r ! n' = m # ms"
      and r': "r' = set_client i (?c\<lparr>seen := client_shows (rows ?c) m (seen ?c)\<rparr>) (r\<lparr>queues := (queues r)[n' := ms]\<rparr>)"
      using g by (auto simp: client_receives_def Let_def split: phase.splits option.splits list.splits)
    have "n' \<noteq> ?n" using j o i by (auto simp: jammed_at_def unread_def)
    moreover have "\<exists>d\<in>set (clients r). own d = Some ?n \<and> phase d = Chatting"
      if "c \<in> set (clients r')" "own c = Some ?n" "phase c = Chatting" for c
      using that i o in_set_updateD [of c "clients r" i] unfolding r' by fastforce
    ultimately have "jammed_at k r'" by (intro jam_same [OF j]) (auto simp: r')
    then show ?thesis by (simp add: r')
  next
    case Take
    have "sends r \<noteq> []" using j by (auto simp: jammed_at_def)
    then show ?thesis using a Take by (simp add: server_takes_def)
  next
    case Send
    then obtain d m rest where s: "sends r = (d, m) # rest" and g: "server_sends r = Inr r'"
      using a j by (cases "sends r") (auto simp: jammed_at_def)
    then obtain l where l: "d = int l" "l < length (descs r)" using R(7) by (auto simp: types_ok_def)
    have r': "r' = r\<lparr>queues := (queues r)[descs r ! l := queues r ! (descs r ! l) @ [m]], sends := rest\<rparr>"
      and room: "length (queues r ! (descs r ! l)) < 10"
      using g s l by (auto simp: server_sends_def enqueue_def split: if_splits)
    have "l \<noteq> k" using room j by (auto simp: jammed_at_def)
    then have "descs r ! l \<noteq> ?n" using descs_distinct [OF inv nm] k l(2) by (simp add: nth_eq_iff_index_eq)
    then have "jammed_at k r'" using j s l \<open>l \<noteq> k\<close> by (auto simp: jammed_at_def unread_def r')
    then show ?thesis by (simp add: r')
  qed
qed

lemma jam_for_ever:
  assumes "acts as r = Inr r'" "room_inv r" "named r'" "jammed r"
  shows "jammed r'"
  using assms
proof (induction as arbitrary: r)
  case (Cons a as)
  then obtain s where s: "act a r = Inr s" "acts as s = Inr r'" by (auto split: sum.splits)
  have nm: "named r" using acts_inv [OF Cons.prems(1-3)] by blast
  have "named s" using s(2) Cons.prems(3) by (induction as arbitrary: s) (auto split: sum.splits intro: clients_kept)
  then have "room_inv s" by (rule act_inv [OF Cons.prems(2) s(1)])
  moreover have "jammed s" using jam_act [OF Cons.prems(2) nm _ _ s(1)] Cons.prems(4) unfolding jammed_def by metis
  ultimately show ?case using Cons.IH [OF s(2)] Cons.prems(3) by blast
qed simp

section \<open>A broadcast that goes on\<close>

definition core :: "client \<Rightarrow> string \<times> nat option \<times> nat \<times> phase" where
  "core c = (who c, own c, dest c, phase c)"

lemma core_same:
  assumes "map core (clients r') = map core (clients r)"
  shows "unread n r' = unread n r" "named r' = named r"
proof -
  have s: "core ` set (clients r') = core ` set (clients r)" using assms by (metis list.set_map)
  have u: "unread n r = (\<forall>x\<in>core ` set (clients r). case x of (w, o', d, p) \<Rightarrow> o' = Some n \<longrightarrow> p \<noteq> Chatting)" for r
    by (simp add: unread_def core_def)
  show "unread n r' = unread n r" unfolding u s ..
  have "map who cs = map fst (map core cs)" for cs by (simp add: core_def comp_def)
  then show "named r' = named r" using assms by (metis named_def)
qed

lemma core_update: "core y = core (cs ! i) \<Longrightarrow> map core (cs[i := y]) = map core cs"
  by (cases "i < length cs") (metis list_update_id map_update, simp add: list_update_beyond)

text \<open>One message of the broadcast, after the reader has made room where that is needed.\<close>

definition typed :: "action list \<Rightarrow> nat" where
  "typed as = length (filter (\<lambda>a. case a of Type i input \<Rightarrow> True | _ \<Rightarrow> False) as)"

lemma typed_simps [simp]: "typed [] = 0"
  "typed (a # as) = (case a of Type i input \<Rightarrow> Suc (typed as) | _ \<Rightarrow> typed as)" "typed (as @ bs) = typed as + typed bs"
  by (auto simp: typed_def split: action.splits)

definition sent_one :: "nat \<Rightarrow> room \<Rightarrow> room \<Rightarrow> bool" where
  "sent_one l r r' \<longleftrightarrow> descs r' = descs r \<and> map core (clients r') = map core (clients r)
     \<and> (\<forall>n. n \<noteq> descs r ! l \<longrightarrow> queues r' ! n = queues r ! n)
     \<and> (unread (descs r ! l) r \<longrightarrow> length (queues r' ! (descs r ! l)) = Suc (length (queues r ! (descs r ! l))))"

lemma send_one:
  assumes inv: "room_inv r" and nm: "named r" and s: "sends r = (int l, m) # rest" and nj: "\<not> jammed r"
  obtains as r' where "acts as r = Inr r'" "typed as = 0" "sends r' = rest" "sent_one l r r'"
proof -
  note R = room_invD [OF inv]
  have l: "l < length (descs r)" using R(7) s by (auto simp: types_ok_def)
  let ?n = "descs r ! l"
  have n: "0 < ?n" "?n < length (queues r)" using descs_less [OF inv, of ?n] l by auto
  show ?thesis
  proof (cases "length (queues r ! ?n) < 10")
    case True
    let ?r = "r\<lparr>queues := (queues r)[?n := queues r ! ?n @ [m]], sends := rest\<rparr>"
    have "acts [Send] r = Inr ?r" using s True by (simp add: server_sends_def enqueue_def)
    moreover have "sent_one l r ?r" using n by (simp add: sent_one_def)
    ultimately show ?thesis by (intro that [of "[Send]" ?r]) simp_all
  next
    case False
    moreover have "\<not> jammed_at l r" using nj l unfolding jammed_def by blast
    ultimately have "\<not> unread ?n r" using s by (simp add: jammed_at_def)
    then obtain i where i: "i < length (clients r)" "own (clients r ! i) = Some ?n" "phase (clients r ! i) = Chatting"
      by (auto simp: unread_def in_set_conv_nth)
    obtain x xs where q: "queues r ! ?n = x # xs" using False by (cases "queues r ! ?n") auto
    have len: "length xs < 10" using queue_bound [OF R(7) n(2)] q by simp
    let ?c = "clients r ! i"
    let ?y = "?c\<lparr>seen := client_shows (rows ?c) x (seen ?c)\<rparr>"
    let ?r = "r\<lparr>queues := (queues r)[?n := xs @ [m]], clients := (clients r)[i := ?y], sends := rest\<rparr>"
    have "acts [Show i, Send] r = Inr ?r"
      using i q s len n by (simp add: client_receives_def Let_def server_sends_def enqueue_def)
    moreover have "sent_one l r ?r"
      using n \<open>\<not> unread ?n r\<close> core_update [of ?y "clients r" i] by (simp add: sent_one_def core_def)
    ultimately show ?thesis by (intro that [of "[Show i, Send]" ?r]) simp_all
  qed
qed

lemma drain:
  assumes "room_inv r" "named r" "\<not> jammed r"
  shows "\<exists>as r'. acts as r = Inr r' \<and> typed as = 0 \<and> sends r' = [] \<and> descs r' = descs r \<and> queues r' ! 0 = queues r ! 0
    \<and> map core (clients r') = map core (clients r)
    \<and> (\<forall>k<length (descs r). int k \<in> fst ` set (sends r) \<longrightarrow> unread (descs r ! k) r
          \<longrightarrow> length (queues r' ! (descs r ! k)) = Suc (length (queues r ! (descs r ! k))))
    \<and> (\<forall>k<length (descs r). int k \<notin> fst ` set (sends r) \<longrightarrow> queues r' ! (descs r ! k) = queues r ! (descs r ! k))"
  using assms
proof (induction "sends r" arbitrary: r)
  case Nil
  then show ?case by (intro exI [of _ "[]"] exI [of _ r]) simp
next
  case (Cons dm rest)
  note R = room_invD [OF Cons.prems(1)]
  obtain l m where s: "sends r = (int l, m) # rest" "l < length (descs r)"
    using R(7) Cons.hyps(2) by (cases dm) (auto simp: types_ok_def simp flip: Cons.hyps(2))
  obtain as r1 where r1: "acts as r = Inr r1" "typed as = 0" "sends r1 = rest" "sent_one l r r1"
    by (rule send_one [OF Cons.prems(1,2) s(1) Cons.prems(3)])
  note D = r1(4) [unfolded sent_one_def]
  have core: "map core (clients r1) = map core (clients r)" and d: "descs r1 = descs r" using D by blast+
  have nm: "named r1" using core_same(2) [OF core] Cons.prems(2) by simp
  have inv: "room_inv r1" using acts_inv [OF r1(1) Cons.prems(1) nm] by blast
  have l: "int l \<notin> fst ` set rest" using R(7) s(1) by (auto simp: types_ok_def)
  have o: "queues r1 ! (descs r ! k) = queues r ! (descs r ! k)" if "k < length (descs r)" "k \<noteq> l" for k
    using D that descs_distinct [OF Cons.prems(1,2)] s(2) by (simp add: nth_eq_iff_index_eq)
  have z: "queues r1 ! 0 = queues r ! 0"
  proof -
    have "descs r ! l \<noteq> 0" using descs_less [OF Cons.prems(1), of "descs r ! l"] s(2) by simp
    then show ?thesis using D by metis
  qed
  have nj: "\<not> jammed r1"
  proof
    assume "jammed r1"
    then obtain k where k: "k < length (descs r)" "int k \<in> fst ` set rest" "10 \<le> length (queues r1 ! (descs r ! k))" "unread (descs r ! k) r1"
      using d r1(3) by (auto simp: jammed_def jammed_at_def)
    then have "k \<noteq> l" using l by blast
    then have "jammed_at k r" using k o [OF k(1)] core_same(1) [OF core] s(1) by (auto simp: jammed_at_def)
    then show False using Cons.prems(3) k(1) by (auto simp: jammed_def)
  qed
  obtain bs r2 where r2: "acts bs r1 = Inr r2" "typed bs = 0" "sends r2 = []" "descs r2 = descs r1" "queues r2 ! 0 = queues r1 ! 0"
    "map core (clients r2) = map core (clients r1)"
    "\<And>k. k < length (descs r) \<Longrightarrow> int k \<in> fst ` set rest \<Longrightarrow> unread (descs r ! k) r
          \<Longrightarrow> length (queues r2 ! (descs r ! k)) = Suc (length (queues r1 ! (descs r ! k)))"
    "\<And>k. k < length (descs r) \<Longrightarrow> int k \<notin> fst ` set rest \<Longrightarrow> queues r2 ! (descs r ! k) = queues r1 ! (descs r ! k)"
    using Cons.hyps(1) [OF r1(3) [symmetric] inv nm nj] r1(3) d core_same(1) [OF core] by auto
  have "length (queues r2 ! (descs r ! k)) = Suc (length (queues r ! (descs r ! k)))"
    if "k < length (descs r)" "int k \<in> fst ` set (sends r)" "unread (descs r ! k) r" for k
  proof (cases "k = l")
    case True
    then show ?thesis using r2(8) [OF that(1)] l D that(3) by simp
  next
    case False
    then show ?thesis using r2(7) [OF that(1)] that s(1) o [OF that(1) False] by simp
  qed
  moreover have "queues r2 ! (descs r ! k) = queues r ! (descs r ! k)"
    if "k < length (descs r)" "int k \<notin> fst ` set (sends r)" for k
    using r2(8) [OF that(1)] that(2) s(1) o [OF that(1)] by auto
  ultimately show ?case
    using r1(1,2) r2(1-6) z d core
    by (intro exI [of _ "as @ bs"] exI [of _ r2]) (auto simp: acts_append)
qed

text \<open>One more line: the server has taken it and its broadcast is to begin.\<close>

lemma say_and_take:
  assumes inv: "room_inv r" and idle: "sends r = []" "queues r ! 0 = []"
    and j: "j < length (clients r)" "phase (clients r ! j) = Chatting"
  obtains r' where "acts [Type j ''x'', Take] r = Inr r'" "clients r' = clients r" "descs r' = descs r"
    "queues r' ! 0 = []" "\<And>n. 0 < n \<Longrightarrow> queues r' ! n = queues r ! n" "map fst (sends r') = map int [0..<length (descs r)]"
proof -
  note R = room_invD [OF inv]
  let ?c = "clients r ! j"
  let ?m = "say_msg (who ?c) ''x''"
  have d: "dest ?c = 0" using R(1) [of ?c] j by (simp add: client_ok_def)
  define r1 where "r1 = r\<lparr>queues := (queues r)[0 := [?m]], said := said r @ [line ?m]\<rparr>"
  have t: "act (Type j ''x'') r = Inr r1"
    using j d idle by (simp add: client_types_def Let_def enqueue_def r1_def cstr_Cons zero_char_def)
  define qd where "qd = (case linked r (cstr (mq_queue_name ?m)) of None \<Rightarrow> -1 | Some n \<Rightarrow> int (length (descs r)))"
  obtain m' where m': "mq_server (table r) ?m qd = Some (table r, send_all (table r) m')" "mq_type m' = 1"
    using server_say [of "table r" "who ?c" "''x''" qd] by metis
  let ?r = "r1\<lparr>queues := (queues r1)[0 := []], table := table r, sends := send_all (table r) m'\<rparr>"
  have f: "sends r1 = []" "queues r1 ! 0 = [?m]" "linked r1 = linked r" "table r1 = table r" "descs r1 = descs r"
    using idle R(9) by (simp_all add: r1_def)
  have "act Take r1 = Inr ?r"
    unfolding act.simps server_takes_def Let_def f by (simp add: qd_def [symmetric] m'(1))
  then have "acts [Type j ''x'', Take] r = Inr ?r" using t by simp
  then show ?thesis using send_all_to(1) [OF R(5), of m'] R(9) by (intro that [of ?r]) (simp_all add: r1_def)
qed

lemma leads_to_jam:
  assumes "room_inv r" "named r" "sends r = []" "queues r ! 0 = []" "k < length (descs r)" "unread (descs r ! k) r"
    and "j < length (clients r)" "phase (clients r ! j) = Chatting" "length (queues r ! (descs r ! k)) + b = 11"
  shows "\<exists>as r'. acts as r = Inr r' \<and> named r' \<and> jammed r' \<and> typed as \<le> b"
  using assms
proof (induction b arbitrary: r)
  case 0
  then show ?case
    using queue_bound [OF room_invD(7) [OF 0(1)], of "descs r ! k"] descs_less [OF 0(1), of "descs r ! k"] by simp
next
  case (Suc b)
  note P = Suc.prems
  let ?n = "descs r ! k"
  have n: "0 < ?n" using descs_less [OF P(1), of ?n] P(5) by simp
  obtain r1 where r1: "acts [Type j ''x'', Take] r = Inr r1" "clients r1 = clients r" "descs r1 = descs r"
    "queues r1 ! 0 = []" "queues r1 ! ?n = queues r ! ?n" "map fst (sends r1) = map int [0..<length (descs r)]"
    using say_and_take [OF P(1,3,4,7,8)] n by metis
  have nm: "named r1" using P(2) r1(2) by (simp add: named_def)
  have inv: "room_inv r1" using acts_inv [OF r1(1) P(1) nm] by blast
  have u: "unread ?n r1" using P(6) r1(2) by (simp add: unread_def)
  have k: "int k \<in> fst ` set (sends r1)"
  proof -
    have "int k \<in> set (map fst (sends r1))" unfolding r1(6) using P(5) by simp
    then show ?thesis by simp
  qed
  show ?case
  proof (cases "jammed r1")
    case True
    then show ?thesis using r1(1) nm by (intro exI [of _ "[Type j ''x'', Take]"] exI [of _ r1]) simp
  next
    case False
    obtain as r2 where r2: "acts as r1 = Inr r2" "typed as = 0" "sends r2 = []" "descs r2 = descs r1" "queues r2 ! 0 = queues r1 ! 0"
      "map core (clients r2) = map core (clients r1)" "length (queues r2 ! ?n) = Suc (length (queues r1 ! ?n))"
      using drain [OF inv nm False] k P(5) u r1(3) by metis
    have nm2: "named r2" using core_same(2) [OF r2(6)] nm by simp
    have inv2: "room_inv r2" using acts_inv [OF r2(1) inv nm2] by blast
    have len: "length (clients r2) = length (clients r)" using r2(6) r1(2) by (metis length_map)
    have "core (clients r2 ! j) = core (clients r ! j)" using r2(6) r1(2) P(7) len by (metis nth_map)
    then have ph: "phase (clients r2 ! j) = Chatting" using P(8) by (simp add: core_def)
    obtain bs r3 where r3: "acts bs r2 = Inr r3" "named r3" "jammed r3" "typed bs \<le> b"
      using Suc.IH [OF inv2 nm2 r2(3)] r2(4,5,7) r1(3,4,5) P(5,7,9) core_same(1) [OF r2(6)] u len ph by auto
    have "acts ([Type j ''x'', Take] @ as @ bs) r = Inr r3"
      unfolding acts_append using r1(1) r2(1) r3(1) by simp
    then show ?thesis using r3 r2(2) by (intro exI [of _ "[Type j ''x'', Take] @ as @ bs"] exI [of _ r3]) simp
  qed
qed

section \<open>A client joins\<close>

definition newcomer :: "string \<Rightarrow> int \<Rightarrow> nat \<Rightarrow> client" where
  "newcomer nm max_y n = \<lparr>who = nm, rows = max_y, phase = Chatting, own = Some n, dest = 0, seen = \<lparr>users = [], chat = []\<rparr>\<rparr>"

definition plain_name :: "string \<Rightarrow> bool" where
  "plain_name nm \<longleftrightarrow> nm \<noteq> [] \<and> length nm < 31 \<and> CHR 0x0A \<notin> set nm \<and> 0 \<notin> set nm \<and> CHR ''/'' \<notin> set nm"

lemma plain_name_cstr: "plain_name nm \<Longrightarrow> cstr nm = nm \<and> length nm \<le> 31"
  by (simp add: plain_name_def cstr_id)

lemma plain_name_typed: "plain_name nm \<Longrightarrow> client_name_of (nm @ [CHR 0x0A]) = Inr nm"
proof -
  assume p: "plain_name nm"
  then have "c_fgets 32 (unlines [nm]) = Some (nm @ [CHR 0x0A], unlines [])"
    by (intro c_fgets_unlines) (auto simp: plain_name_def)
  then show ?thesis using p chomp_line [of nm] by (simp add: client_name_of_def unlines_def plain_name_def)
qed

lemma joins:
  assumes nm: "plain_name nm" and l: "linked r CHAT_QUEUE = Some 0" "queue_name_of nm \<noteq> CHAT_QUEUE"
    and q: "queues r = [] # qs" and i: "i = length (clients r)" and n: "n = length (queues r)"
  shows "acts [Come (nm @ [CHR 0x0A]) y, Go i, Go i, Go i, Go i] r =
    Inr (r\<lparr>linked := (linked r)(queue_name_of nm \<mapsto> n), queues := [register_msg nm] # qs @ [[]],
         clients := clients r @ [newcomer nm y n]\<rparr>)"
proof -
  have s: "CHR ''/'' \<notin> set (tl (queue_name_of nm))"
    using nm plain_name_cstr [OF nm] by (simp add: queue_field(1) plain_name_def)
  note D = client_goes_def Let_def i nth_append l s
  define c where "c = \<lparr>who = nm, rows = y, phase = Enter, own = None, dest = 0, seen = \<lparr>users = [], chat = []\<rparr>\<rparr>"
  let ?q = "queue_name_of nm"
  let ?l = "(linked r)(?q := None)"
  have 1: "act (Come (nm @ [CHR 0x0A]) y) r = Inr (r\<lparr>clients := clients r @ [c]\<rparr>)"
    by (simp add: client_comes_def plain_name_typed [OF nm] c_def)
  have 2: "act (Go i) (r\<lparr>clients := clients r @ [c]\<rparr>) = Inr (r\<lparr>linked := ?l, clients := clients r @ [c\<lparr>phase := Create\<rparr>]\<rparr>)"
    by (simp add: D c_def)
  have 3: "act (Go i) (r\<lparr>linked := ?l, clients := clients r @ [c\<lparr>phase := Create\<rparr>]\<rparr>)
      = Inr (r\<lparr>linked := (linked r)(?q \<mapsto> n), queues := queues r @ [[]], clients := clients r @ [c\<lparr>own := Some n, phase := Connect\<rparr>]\<rparr>)"
    by (simp add: D c_def n)
  have 4: "act (Go i) (r\<lparr>linked := (linked r)(?q \<mapsto> n), queues := queues r @ [[]], clients := clients r @ [c\<lparr>own := Some n, phase := Connect\<rparr>]\<rparr>)
      = Inr (r\<lparr>linked := (linked r)(?q \<mapsto> n), queues := queues r @ [[]], clients := clients r @ [c\<lparr>own := Some n, dest := 0, phase := Greet\<rparr>]\<rparr>)"
    using l(2) [symmetric] by (simp add: D c_def)
  have 5: "act (Go i) (r\<lparr>linked := (linked r)(?q \<mapsto> n), queues := queues r @ [[]], clients := clients r @ [c\<lparr>own := Some n, dest := 0, phase := Greet\<rparr>]\<rparr>)
      = Inr (r\<lparr>linked := (linked r)(?q \<mapsto> n), queues := [register_msg nm] # qs @ [[]], clients := clients r @ [newcomer nm y n]\<rparr>)"
    using q by (simp add: D c_def newcomer_def enqueue_def)
  show ?thesis unfolding acts.simps 1 sum.case 2 3 4 5 by simp
qed

lemma takes_registration:
  assumes inv: "room_inv r" and idle: "sends r = []" "queues r = [register_msg nm] # qs" and nm: "plain_name nm"
    and l: "linked r (queue_name_of nm) = Some n" and room: "length (descs r) < MQ_CLIENTS"
    and fits: "length (listing (names (table r))) < 255"
  obtains st m where "act Take r = Inr (r\<lparr>queues := [] # qs, table := st, sends := send_all st m, descs := descs r @ [n],
      since := since r @ [length (said r)]\<rparr>)" "names st = names (table r) @ [nm]" "mq_type m = 2"
proof -
  note R = room_invD [OF inv]
  note cn = plain_name_cstr [OF nm]
  have I: "mq_inv (table r)" "mq_client_count (table r) < MQ_CLIENTS" using R(5) room by (simp_all add: table_ok_def)
  define qd where "qd = int (length (descs r))"
  have "mq_server (table r) (register_msg nm) qd \<noteq> None"
  proof
    assume "mq_server (table r) (register_msg nm) qd = None"
    then obtain a x b where d: "names (table r) @ [nm] = a @ x # b" "255 \<le> length (listing a)"
      using mq_name_list_overflow [OF I(1) _ I(2), of "register_msg nm" qd] cn msg_fields(3) [of nm] by (auto simp: qd_def)
    have "length (listing (take (length a) (names (table r)))) \<le> length (listing (names (table r)))"
      by (metis append_take_drop_id concat_append length_append le_add1 listing_def map_append)
    moreover have "take (length a) (names (table r)) = a"
    proof -
      have "length a \<le> length (names (table r))" using arg_cong [OF d(1), of length] by simp
      then show ?thesis using arg_cong [OF d(1), of "take (length a)"] by simp
    qed
    ultimately show False using d(2) fits by simp
  qed
  then obtain st out where s: "mq_server (table r) (register_msg nm) qd = Some (st, out)" by auto
  from I(1) s conjunct1 [OF cn] conjunct2 [OF cn] show ?thesis
  proof (cases rule: server_register)
    case dropped
    have "mq_client_count st = Suc (mq_client_count (table r))"
      using s I(2) by (auto simp: mq_server_def add_mq_client_def register_msg_def zero_msg_def Let_def qd_def)
    then show ?thesis using dropped by simp
  next
    case (added m)
    have "act Take r = Inr (r\<lparr>queues := [] # qs, table := st, sends := send_all st m, descs := descs r @ [n],
        since := since r @ [length (said r)]\<rparr>)"
      unfolding act.simps server_takes_def Let_def idle using s l added(1,4) queue_field(2) cn
      by (simp add: qd_def)
    then show ?thesis using that added by blast
  qed
qed

lemma send_all_list: "table_ok r \<Longrightarrow> send_all (table r) m = map (\<lambda>k. (int k, m)) [0..<length (descs r)]"
proof -
  assume t: "table_ok r"
  have "send_all (table r) m = map (\<lambda>d. (d, m)) (map fst (send_all (table r) m))" by (simp add: send_all_def comp_def)
  then show ?thesis unfolding send_all_to(1) [OF t] by (simp add: comp_def)
qed

lemma acts_join: "acts as r = Inr s \<Longrightarrow> acts bs s = Inr t \<Longrightarrow> acts (as @ bs) r = Inr t"
  by (simp add: acts_append)

text \<open>A run: Ann and Bob join, both are registered and told, then Ann types \<^verbatim>\<open>q\<close>.\<close>

definition joining :: "string \<Rightarrow> nat \<Rightarrow> action list" where
  "joining nm i = [Come (nm @ [CHR 0x0A]) 20, Go i, Go i, Go i, Go i]"

definition ann_leaves :: "action list" where
  "ann_leaves = joining ''ann'' 0 @ [Take, Send] @ joining ''bob'' 1 @ [Take, Send, Send, Type 0 ''q'']"

lemma name_facts: "plain_name ''ann''" "plain_name ''bob''" "queue_name_of ''ann'' \<noteq> CHAT_QUEUE" "queue_name_of ''bob'' \<noteq> CHAT_QUEUE"
  "queue_name_of ''ann'' \<noteq> queue_name_of ''bob''" "cstr ''q'' = ''q''"
  by (simp_all add: plain_name_def queue_name_of_def cstr_Cons zero_char_def CHAT_QUEUE_def)

lemma ann_leaves_run:
  obtains r m1 m2 where "acts ann_leaves room_start = Inr r" "named r" "sends r = []" "queues r = [[], [m1, m2], [m2]]"
    "descs r = [1, 2]" "clients r = [(newcomer ''ann'' 20 1)\<lparr>phase := Leave\<rparr>, newcomer ''bob'' 20 2]" "since r = [0, 0]"
    "said r = []" "names (table r) = [''ann'', ''bob'']"
proof -
  have s0: "linked room_start = [CHAT_QUEUE \<mapsto> 0]" "queues room_start = [[]]" "clients room_start = []" "sends room_start = []"
    "descs room_start = []" "since room_start = []" "said room_start = []" "names (table room_start) = []"
    by (simp_all add: room_start_def server_start_def mq_start_facts)
  obtain r1 where r1: "acts (joining ''ann'' 0) room_start = Inr r1" "linked r1 = [CHAT_QUEUE \<mapsto> 0, queue_name_of ''ann'' \<mapsto> 1]"
    "queues r1 = [[register_msg ''ann''], []]" "clients r1 = [newcomer ''ann'' 20 1]" "sends r1 = []" "descs r1 = []" "since r1 = []"
    "said r1 = []" "names (table r1) = []"
    using joins [OF name_facts(1) _ name_facts(3), of room_start "[]" 0 1 20] by (simp add: s0 joining_def)
  have "named r1" by (simp add: named_def r1(4) newcomer_def)
  then have i1: "room_inv r1" using run_inv [OF r1(1)] by blast
  obtain st1 m1 where "act Take r1 = Inr (r1\<lparr>queues := [] # [[]], table := st1, sends := send_all st1 m1,
      descs := descs r1 @ [1], since := since r1 @ [length (said r1)]\<rparr>)" "names st1 = names (table r1) @ [''ann'']"
    by (rule takes_registration [OF i1 r1(5,3) name_facts(1), of 1]) (use name_facts(3) in \<open>simp_all add: r1\<close>)
  then have t1: "act Take r1 = Inr (r1\<lparr>queues := [[], []], table := st1, sends := send_all st1 m1, descs := [1], since := [0]\<rparr>)"
    "names st1 = [''ann'']"
    by (simp_all only: r1 append_Nil list.size)
  define r2 where "r2 = r1\<lparr>queues := [[], []], table := st1, sends := send_all st1 m1, descs := [1], since := [0]\<rparr>"
  have "named r2" by (simp add: named_def r2_def r1(4) newcomer_def)
  then have i2: "room_inv r2" using act_inv [OF i1, of Take r2] t1(1) by (simp add: r2_def)
  have "sends r2 = [(0, m1)]" using send_all_list [OF room_invD(5) [OF i2], of m1] by (simp add: r2_def)
  then have t2: "act Send r2 = Inr (r2\<lparr>queues := [[], [m1]], sends := []\<rparr>)"
    by (simp add: server_sends_def enqueue_def r2_def)
  define r3 where "r3 = r2\<lparr>queues := [[], [m1]], sends := []\<rparr>"
  have f3: "linked r3 = linked r1" "queues r3 = [] # [[m1]]" "clients r3 = clients r1" "sends r3 = []" "descs r3 = [1]" "since r3 = [0]"
    "said r3 = []" "names (table r3) = [''ann'']"
    by (simp_all add: r3_def r2_def r1(8) t1(2))
  obtain r4 where r4: "acts (joining ''bob'' 1) r3 = Inr r4" "linked r4 = (linked r1)(queue_name_of ''bob'' \<mapsto> 2)"
    "queues r4 = [register_msg ''bob''] # [[m1], []]" "clients r4 = [newcomer ''ann'' 20 1, newcomer ''bob'' 20 2]" "sends r4 = []"
    "descs r4 = [1]" "since r4 = [0]" "said r4 = []" "names (table r4) = [''ann'']"
    using joins [OF name_facts(2) _ name_facts(4) f3(2), of 1 2 20] r1(2,4) name_facts(3) by (simp add: f3 joining_def)
  have run4: "acts (joining ''ann'' 0 @ [Take, Send] @ joining ''bob'' 1) room_start = Inr r4"
    unfolding acts_append using r1(1) t1(1) t2 r4(1) by (simp add: r2_def r3_def)
  have "named r4" by (simp add: named_def r4(4) newcomer_def)
  then have i4: "room_inv r4" using run_inv [OF run4] by blast
  obtain st2 m2 where "act Take r4 = Inr (r4\<lparr>queues := [] # [[m1], []], table := st2, sends := send_all st2 m2,
      descs := descs r4 @ [2], since := since r4 @ [length (said r4)]\<rparr>)" "names st2 = names (table r4) @ [''bob'']"
    by (rule takes_registration [OF i4 r4(5,3) name_facts(2), of 2]) (simp_all add: r4)
  then have t4: "act Take r4 = Inr (r4\<lparr>queues := [[], [m1], []], table := st2, sends := send_all st2 m2, descs := [1, 2], since := [0, 0]\<rparr>)"
    "names st2 = [''ann'', ''bob'']"
    by (simp_all only: r4 append.simps list.size)
  define r5 where "r5 = r4\<lparr>queues := [[], [m1], []], table := st2, sends := send_all st2 m2, descs := [1, 2], since := [0, 0]\<rparr>"
  have "named r5" by (simp add: named_def r5_def r4(4) newcomer_def)
  then have i5: "room_inv r5" using act_inv [OF i4, of Take r5] t4(1) by (simp add: r5_def)
  have "sends r5 = [(0, m2), (1, m2)]"
    using send_all_list [OF room_invD(5) [OF i5], of m2] by (simp add: r5_def upt_rec)
  then have t5: "acts [Send, Send, Type 0 ''q''] r5 = Inr (r5\<lparr>queues := [[], [m1, m2], [m2]], sends := [],
      clients := [(newcomer ''ann'' 20 1)\<lparr>phase := Leave\<rparr>, newcomer ''bob'' 20 2]\<rparr>)"
    by (simp add: server_sends_def enqueue_def client_types_def Let_def newcomer_def r5_def r4(4) name_facts(6))
  define r6 where "r6 = r5\<lparr>queues := [[], [m1, m2], [m2]], sends := [],
      clients := [(newcomer ''ann'' 20 1)\<lparr>phase := Leave\<rparr>, newcomer ''bob'' 20 2]\<rparr>"
  have "ann_leaves = (joining ''ann'' 0 @ [Take, Send] @ joining ''bob'' 1) @ [Take] @ [Send, Send, Type 0 ''q'']"
    by (simp add: ann_leaves_def)
  then have "acts ann_leaves room_start = Inr r6"
    using acts_join [OF run4 acts_join [of "[Take]" r4 r5, OF _ t5]] t4(1) by (simp add: r5_def r6_def)
  then show ?thesis
    by (rule that) (simp_all add: r6_def r5_def r4 t4(2) named_def newcomer_def)
qed

section \<open>Names that clash\<close>

text \<open>
  A client named \<^verbatim>\<open>chat\<close> takes the name of the server's queue: its registration goes to itself, and whoever comes
  next opens its queue for the server's.
\<close>

lemma chat_takes_over:
  "case acts [Come ''chat'' 20, Go 0, Go 0, Go 0, Go 0, Come ''ann'' 20, Go 1, Go 1, Go 1] room_start of Inl s \<Rightarrow> False
   | Inr r \<Rightarrow> queues r ! 0 = [] \<and> linked r CHAT_QUEUE = Some 1 \<and> dest (clients r ! 0) = 1 \<and> dest (clients r ! 1) = 1"
proof -
  have n: "client_name_of ''chat'' = Inr ''chat''" "client_name_of ''ann'' = Inr ''ann''"
    "queue_name_of ''chat'' = ''/chat_queue''" "queue_name_of ''ann'' = ''/ann_queue''" "CHAT_QUEUE = ''/chat_queue''"
    by (simp_all add: queue_name_of_def cstr_Cons zero_char_def CHAT_QUEUE_def client_name_of_def c_fgets_def chomp_def eval_nat_numeral)
  show ?thesis
    by (simp add: client_comes_def client_goes_def Let_def room_start_def server_start_def enqueue_def n)
qed

text \<open>
  Two clients of one name: the second unlinks the queue of the first before the server has opened it, the
  first one's registration opens the second one's queue, and the first never gets a message.
\<close>

lemma same_name_takes_queue:
  "case acts [Come ''ann'' 20, Come ''ann'' 20, Go 0, Go 0, Go 1, Go 1, Go 0, Go 0] room_start of Inl s \<Rightarrow> False
   | Inr r \<Rightarrow> queues r ! 0 = [register_msg ''ann''] \<and> phase (clients r ! 0) = Chatting \<and> own (clients r ! 0) = Some 1
       \<and> own (clients r ! 1) = Some 2 \<and> linked r (cstr (mq_queue_name (register_msg ''ann''))) = Some 2"
proof -
  have n: "client_name_of ''ann'' = Inr ''ann''" "queue_name_of ''ann'' = ''/ann_queue''" "CHAT_QUEUE = ''/chat_queue''"
    by (simp_all add: queue_name_of_def cstr_Cons zero_char_def CHAT_QUEUE_def client_name_of_def c_fgets_def chomp_def eval_nat_numeral)
  have q: "cstr (mq_queue_name (register_msg ''ann'')) = ''/ann_queue''"
    using queue_field(2) [of "''ann''"] n by (simp add: cstr_Cons zero_char_def)
  show ?thesis
    by (simp add: client_comes_def client_goes_def Let_def room_start_def server_start_def enqueue_def n q)
qed

section \<open>Properties\<close>

text \<open>
  Claim C13. One order for everybody: in every reachable room whose clients have different names, none of them
  \<^verbatim>\<open>chat\<close>, the queue behind each of the server's descriptors is that of the client registered under that
  name, and the lines its chat window shows, followed by those waiting in its queue, in the current
  broadcast and in the server's queue, are all lines said since its registration, in the order they were said:
  none is lost, doubled or overtaken, also while clients join and leave.
\<close>

theorem mq_chat_one_order:
  assumes run: "acts as room_start = Inr r" and nm: "named r" and k: "k < length (descs r)"
  shows "\<exists>c\<in>set (clients r). own c = Some (descs r ! k) \<and> names (table r) ! k = who c \<and> since r ! k \<le> length (said r)
    \<and> chat (seen c) @ lines (queues r ! (descs r ! k)) @ lines (pending k (sends r)) @ lines (queues r ! 0)
        = drop (since r ! k) (said r)"
proof -
  have inv: "room_inv r" by (rule run_inv [OF run nm])
  obtain c where c: "c \<in> set (clients r)" "own c = Some (descs r ! k)" "names (table r) ! k = who c"
    using room_invD(5) [OF inv] k unfolding table_ok_def by blast
  moreover have "since r ! k \<le> length (said r)" using room_invD(5) [OF inv] k by (auto simp: table_ok_def)
  ultimately show ?thesis using deliveredD [OF room_invD(2) [OF inv c(1)] k c(2)] by blast
qed

theorem mq_chat_one_order_witness:
  "\<exists>r. acts ann_leaves room_start = Inr r \<and> (\<exists>c\<in>set (clients r). who c = ''bob'' \<and> chat (seen c) @ lines (queues r ! 2) = said r)"
proof -
  obtain r m1 m2 where r: "acts ann_leaves room_start = Inr r" "named r" "sends r = []" "queues r = [[], [m1, m2], [m2]]"
    "descs r = [1, 2]" "clients r = [(newcomer ''ann'' 20 1)\<lparr>phase := Leave\<rparr>, newcomer ''bob'' 20 2]" "since r = [0, 0]"
    "said r = []" "names (table r) = [''ann'', ''bob'']"
    by (rule ann_leaves_run)
  have "Suc 0 < length (descs r)" using r(5) by simp
  from mq_chat_one_order [OF r(1,2) this] show ?thesis
    using r(1) by (auto simp: r(3-9) pending_def newcomer_def)
qed

text \<open>
  Claim C14. When a broadcast can go on: from a reachable room (names as before) the broadcast the server is in
  can be completed if and only if none of the queues it has not yet served is full and without a reader;
  queues never hold more than ten messages.
\<close>

theorem mq_broadcast_completes_iff:
  assumes run: "acts as room_start = Inr r" and nm: "named r"
  shows "((\<exists>bs r'. acts bs r = Inr r' \<and> named r' \<and> sends r' = []) \<longleftrightarrow> \<not> jammed r)
    \<and> (\<forall>q\<in>set (queues r). length q \<le> 10)"
proof -
  have inv: "room_inv r" by (rule run_inv [OF run nm])
  have "\<not> (\<exists>bs r'. acts bs r = Inr r' \<and> named r' \<and> sends r' = [])" if "jammed r"
  proof
    assume "\<exists>bs r'. acts bs r = Inr r' \<and> named r' \<and> sends r' = []"
    then obtain bs r' where b: "acts bs r = Inr r'" "named r'" "sends r' = []" by blast
    then show False using jam_for_ever [OF b(1) inv b(2) that] by (simp add: jammed_def jammed_at_def)
  qed
  moreover have "\<exists>bs r'. acts bs r = Inr r' \<and> named r' \<and> sends r' = []" if nj: "\<not> jammed r"
  proof -
    obtain bs r' where "acts bs r = Inr r'" "sends r' = []" "map core (clients r') = map core (clients r)"
      using drain [OF inv nm nj] by blast
    then show ?thesis using core_same(2) nm by blast
  qed
  moreover have "\<forall>q\<in>set (queues r). length q \<le> 10" using room_invD(7) [OF inv] by (simp add: types_ok_def)
  ultimately show ?thesis by blast
qed

theorem mq_broadcast_completes_iff_witness:
  "\<exists>r. acts ann_leaves room_start = Inr r \<and> \<not> jammed r \<and> (\<forall>q\<in>set (queues r). length q \<le> 10)"
proof -
  obtain r m1 m2 where r: "acts ann_leaves room_start = Inr r" "named r" "sends r = []"
    by (rule ann_leaves_run)
  have "\<exists>bs r'. acts bs r = Inr r' \<and> named r' \<and> sends r' = []"
    using r by (intro exI [of _ "[]"] exI [of _ r]) simp
  then have "\<not> jammed r" using mq_broadcast_completes_iff [OF r(1,2)] by blast
  moreover have "\<forall>q\<in>set (queues r). length q \<le> 10" using mq_broadcast_completes_iff [OF r(1,2)] by blast
  ultimately show ?thesis using r(1) by (intro exI [of _ r] conjI)
qed



end
