(* ===== verification/ShmSessions.thy ===== *)
theory ShmSessions
  imports ShmChat CText
begin

text \<open>
  The two \<^verbatim>\<open>main\<close> functions of the chat over shared memory around the operations of \<open>ShmChat\<close>: how the server makes or
  takes over the segment, what it prints every five seconds, and a client from its prompt to its exit. \<open>segment\<close> is
  the contents of \<^verbatim>\<open>/chat_shm\<close>, if it exists; \<open>bad\<close> has the calls that fail.
\<close>

datatype shm_call = Shm_open | Ftruncate | Mmap

section \<open>The server\<close>

text \<open>A new segment is zero; an old one keeps its contents and its clients, and is initialised again.\<close>

definition shm_server_start :: "shm_call set \<Rightarrow> chat_room option \<Rightarrow> string + chat_room" where
  "shm_server_start bad segment =
     (if Shm_open \<in> bad then Inl ''shm_open''
      else if Ftruncate \<in> bad then Inl ''ftruncate''
      else if Mmap \<in> bad then Inl ''mmap''
      else Inr (room_init (case segment of None \<Rightarrow> blank_room | Some r \<Rightarrow> r)))"

text \<open>One round of its loop: the count and the names, when there are clients.\<close>

definition server_round :: "chat_room \<Rightarrow> (int \<times> string list) option" where
  "server_round r = (if room_client_count r > 0 then Some (room_client_count r, server_print_clients r) else None)"

section \<open>A client\<close>

definition shm_client_name :: "string \<Rightarrow> string + string" where
  "shm_client_name input =
     (case c_fgets MAX_NAME_LEN input of
        None \<Rightarrow> Inl ''Failed to read name''
      | Some (l, rest) \<Rightarrow> if chomp l = [] then Inl ''Empty name not allowed'' else Inr (chomp l))"

text \<open>Opening does not create the segment.\<close>

definition shm_client_open :: "shm_call set \<Rightarrow> string \<Rightarrow> chat_room option \<Rightarrow> string + string \<times> chat_room" where
  "shm_client_open bad input segment =
     (case shm_client_name input of
        Inl msg \<Rightarrow> Inl msg
      | Inr name \<Rightarrow>
        (case segment of
           None \<Rightarrow> Inl ''shm_open''
         | Some r \<Rightarrow> if Shm_open \<in> bad then Inl ''shm_open'' else if Mmap \<in> bad then Inl ''mmap'' else Inr (name, r)))"

text \<open>The input loop of a client that has the room for itself, up to \<^verbatim>\<open>q\<close>.\<close>

fun input_loop :: "string \<Rightarrow> string list \<Rightarrow> chat_room \<Rightarrow> chat_room" where
  "input_loop name [] r = r"
| "input_loop name (input # rest) r = (if cstr input = ''q'' then r else input_loop name rest (client_say name input r))"

definition shm_client_main :: "shm_call set \<Rightarrow> string \<Rightarrow> string list \<Rightarrow> chat_room option \<Rightarrow> string + chat_room" where
  "shm_client_main bad input typed segment =
     (case shm_client_open bad input segment of
        Inl msg \<Rightarrow> Inl msg
      | Inr (name, r) \<Rightarrow>
        (case client_join name r of (r, client_idx) \<Rightarrow>
           if client_idx = -1 then Inl ''Chat room is full. Cannot join.''
           else Inr (client_leave (nat client_idx) (input_loop name typed r))))"

section \<open>What a client leaves behind\<close>

definition spoken :: "string list \<Rightarrow> string list" where
  "spoken typed = takeWhile (\<lambda>input. cstr input \<noteq> ''q'') typed"

lemma input_loop_says: "input_loop name typed r = fold (\<lambda>(name, text). add_message name text) (map (Pair name) (spoken typed)) r"
  by (induction typed arbitrary: r) (simp_all add: spoken_def client_say_is_add_message)

lemma input_loop_slots:
  "room_clients (input_loop name typed r) = room_clients r" "room_client_count (input_loop name typed r) = room_client_count r"
  by (induction typed arbitrary: r) (simp_all add: client_say_is_add_message add_message_slots)

lemma client_session:
  assumes inv: "room_inv r" and open': "shm_client_open bad input (Some r) = Inr (name, r)" and free: "actives r \<noteq> {..<MAX_CLIENTS}"
  shows "\<exists>r'. shm_client_main bad input typed (Some r) = Inr r' \<and> actives r' = actives r
    \<and> room_client_count r' = room_client_count r
    \<and> history r' = last_n MAX_MESSAGES (history r @ map (\<lambda>t. entry (name, t)) (spoken typed))"
proof -
  have sl: "slots_inv r" "ring_inv r" using inv by (simp_all add: room_inv_def)
  obtain i where f: "free_slot r = Some i" using free_slot_None [OF sl(1)] free by auto
  note i = free_slot_Some [OF sl(1) f]
  have l: "i < length (room_clients r)" using i(1) sl(1) by (simp add: slots_inv_def)
  define r1 where "r1 = input_loop name typed (occupy i name r)"
  have m: "shm_client_main bad input typed (Some r) = Inr (vacate i r1)"
    by (simp add: shm_client_main_def open' client_join_def f client_leave_def r1_def)
  have c: "room_clients r1 = room_clients (occupy i name r)" "room_client_count r1 = room_client_count (occupy i name r)"
    by (simp_all add: r1_def input_loop_slots)
  have h: "history r = last_n MAX_MESSAGES (history r)"
    using sl(2) by (simp add: last_n_def history_def ring_inv_def)
  have "history r1 = last_n MAX_MESSAGES (history r @ map entry (map (Pair name) (spoken typed)))"
    unfolding r1_def input_loop_says using sl(2) h
    by (intro conjunct2 [OF ring.fold_add]) simp_all
  moreover have "actives (vacate i r1) = actives r"
  proof -
    have "actives r1 = insert i (actives r)" using actives_occupy [OF l, of name] c(1) by (simp add: actives_def)
    moreover have "i < length (room_clients r1)" using l c(1) by (simp add: occupy_def)
    moreover have "i \<notin> actives r" using i(2) by (simp add: actives_def)
    ultimately show ?thesis by (simp add: actives_vacate)
  qed
  moreover have "room_client_count (vacate i r1) = room_client_count r"
    using c(2) by (simp add: vacate_def occupy_def)
  ultimately show ?thesis by (simp add: m comp_def)
qed

section \<open>A second server\<close>

text \<open>
  A server that is started while clients are inside initialises the segment under them: it sees none of them, the next
  client is given slot 0 whoever sits there, and the first old client that leaves makes the count negative, so that
  the server's display stays empty until the count is made up for.
\<close>

lemma restart_forgets_clients:
  assumes "mapped_memory r0" "chat_step\<^sup>*\<^sup>* (chat_start r0) s" "(name, idx) \<in> set (inside s)"
  shows "\<exists>r. shm_server_start {} (Some (room s)) = Inr r \<and> server_round r = None \<and> actives r = {}
    \<and> snd (client_join new r) = 0 \<and> room_client_count (client_leave idx r) = -1 \<and> server_round (client_leave idx r) = None"
proof -
  have sl: "slots_inv (room s)" using chat_reach_inv [OF assms(1,2)] by (simp add: chat_inv_def room_inv_def)
  define r where "r = room_init (room s)"
  have a: "\<not> client_active c" if "c \<in> set (room_clients r)" for c using that by (auto simp: r_def room_init_def)
  have n: "room_clients r \<noteq> []" using sl by (auto simp: r_def room_init_def slots_inv_def)
  have "free_slot r = Some 0" using a n by (cases "room_clients r") (simp_all add: free_slot_def)
  moreover have "actives r = {}" using a by (auto simp: actives_def)
  moreover have "room_client_count r = 0" by (simp add: r_def room_init_def)
  ultimately show ?thesis
    by (intro exI [of _ r]) (simp add: shm_server_start_def server_round_def client_join_def client_leave_def vacate_def flip: r_def)
qed

end
