(* ===== verification/Spec2Isabelle.thy ===== *)
theory Spec2Isabelle
  imports EchoServer EchoSession Drivers DriverNet ThreadPool WorkerPool ShmChat MqChat Shop FileManager PhoneBook PhoneList
    PhoneSessions Exchange ForkTree Shell CharDev Basics Calc NetOptions RawClients Sockets Setups Signals MqRoom
    ShmSessions
begin

text \<open>
  A verification of the course programs under \<^verbatim>\<open>src/\<close>. The repository is a collection of small C programs,
  one directory per exercise and two final projects; the programs do not link with each other, what they
  share is the C library, the shape of their loops and, for a client and its server, the bytes that
  travel between them. The development follows that structure: a runtime layer, then one theory per
  program or per family of programs.

  \<^bold>\<open>The runtime layer.\<close> \<open>CPrelude\<close> has the range of \<^verbatim>\<open>int\<close>, buffers with bounds-checked stores, NUL-terminated
  strings with \<^verbatim>\<open>strncpy\<close> and \<^verbatim>\<open>strncat\<close>, the search loop, and the locale \<open>transition_system\<close> in which the
  rule ``an invariant that holds at the start and is kept by each step holds in each reachable state'' is
  proved once. \<open>CText\<close> has \<^verbatim>\<open>isspace\<close>, \<^verbatim>\<open>%s\<close> and \<^verbatim>\<open>%d\<close> of \<^verbatim>\<open>scanf\<close>, \<^verbatim>\<open>%d\<close> of \<^verbatim>\<open>printf\<close>, \<^verbatim>\<open>fgets\<close> and \<^verbatim>\<open>strtok\<close>. In all
  theories \<open>None\<close> is behaviour that C leaves undefined (a store or a read outside an object, an
  overflow of \<^verbatim>\<open>int\<close>), a loop that does not return (where it is a \<^theory_text>\<open>partial_function\<close>) or, in the queues,
  an operation that blocks; each theory says which. What a system call returns is an argument: theorems
  hold for every answer unless their statement names the answer it is about.

  \<^bold>\<open>final_hw_1: echo over raw sockets.\<close> \<open>Packet\<close> has byte order, the checksum loop and the header writers of
  \<^verbatim>\<open>echo_client.c\<close> and \<^verbatim>\<open>echo_server.c\<close>; the checksum is the reference sum modulo 65535 with the two
  representations of zero told apart, and a header with the stored checksum verifies. \<open>EchoServer\<close> has
  \<^verbatim>\<open>find_client\<close>, \<^verbatim>\<open>add_client\<close> and the whole body of the server's loop over an explicit 1500-byte buffer
  (\<open>server_step\<close>), and of the client the frame for one line and the filter of received frames
  (\<open>client_frame\<close>, \<open>client_receive\<close>). \<open>EchoSession\<close> has both \<^verbatim>\<open>main\<close> functions and lets the client run in the
  network that consists of the server: a whole session up to \<^verbatim>\<open>CLOSE\<close>. Lemma groups: the table as a map of counters (locale
  \<open>counter_table\<close>), the reply that is written over the request, the invariant of the loop, and a client's
  frame seen by the server. \<open>NetOptions\<close> has \<^verbatim>\<open>parse_mac\<close> and the option loops of both programs.

  \<^bold>\<open>final_hw_2: driver manager.\<close> \<open>Drivers\<close> has the table, the command line with its \<^verbatim>\<open>sscanf\<close> parsing, the
  child that plays a driver and the forked process that accepts connections. The two
  processes hold separate copies of the table, so \<open>sys_step\<close> is a relation on pairs of tables; the
  lemmas show the invariant, the exclusive deadline of a task, the refinement by a map from pids, and
  what the split costs: the command line never learns a descriptor, so no task is ever delivered.
  \<open>DriverNet\<close> composes all processes, one per driver included, over the listening socket, edge-triggered \<^verbatim>\<open>epoll\<close>
  and the connections: no driver ever gets a message, each accepted driver loses its connection at once and ends,
  and of drivers that connect together all but one stay in the queue of the socket, or try to connect for ever once
  its file is removed.

  \<^bold>\<open>hw16: sockets.\<close> \<open>ThreadPool\<close> is the server with a circular queue and worker threads: the queue against the
  interface \<open>bounded_fifo\<close>, then each statement of \<^verbatim>\<open>queue_push\<close> and \<^verbatim>\<open>queue_pop\<close> as a step of a thread, with
  mutual exclusion, once-only service and progress. \<open>WorkerPool\<close> is the server with worker processes and
  descriptor passing. \<open>Sockets\<close> has the programs of \<^verbatim>\<open>p1\<close>, \<^verbatim>\<open>p3\<close>, \<^verbatim>\<open>p4\<close>, the epoll server and the thread-per-client
  server with their clients as trees of system calls, with one analysis (\<open>safe\<close>, \<open>good_run\<close>) of descriptors and receive
  buffers and locales for the loops. \<open>RawClients\<close> has the raw-socket clients of \<^verbatim>\<open>p5\<close> to \<^verbatim>\<open>p7\<close>; the locale
  \<open>raw_receiver\<close> carries the receive loop they share. \<open>Setups\<close> has, as trees of the same kind, the process of a driver, the sockets that
  the driver manager and both pools open before their loops and close after them, and the clients that connect in
  parallel; a second analysis, \<open>tidy\<close>, follows the file that \<^verbatim>\<open>bind\<close> makes for a local socket.

  \<^bold>\<open>Chats, threads, processes.\<close> \<open>ShmChat\<close> (\<^verbatim>\<open>hw14_shmemory/part2\<close>): slots and the ring of fifty messages, a
  refinement of ``the last fifty''; \<open>ShmSessions\<close> both of its \<^verbatim>\<open>main\<close> functions;
  \<open>MqChat\<close> (\<^verbatim>\<open>hw13_mqueue/part2\<close>): registration and broadcasts of the server and the threads of a client, and \<open>MqRoom\<close>
  the server and any number of clients together over the kernel's queues, each system call a step (\<open>act\<close>):
  one order of lines for all, when a broadcast can be completed, and how a client that left stops the chat; \<open>Shop\<close>
  (\<^verbatim>\<open>hw11_thread\<close>): buyers and loader with the conservation of goods; \<open>Exchange\<close> (\<^verbatim>\<open>hw12_pipe/part1\<close>, \<^verbatim>\<open>part2\<close>,
  \<^verbatim>\<open>hw13_mqueue/part1\<close>, \<^verbatim>\<open>hw14_shmemory/part1\<close> with POSIX and with System V memory): a greeting and its reply
  between two processes, every schedule explored; \<open>Signals\<close> (\<^verbatim>\<open>hw15_signals\<close>): three receivers and their senders under
  every history of signals; \<open>ForkTree\<close> (\<^verbatim>\<open>hw10_proc/p1\<close>, \<^verbatim>\<open>p2\<close>): trees of processes that wait for their children; \<open>Shell\<close> (\<^verbatim>\<open>hw10_proc/p3_bash\<close>,
  \<^verbatim>\<open>hw12_pipe/part3\<close>): lines, descriptors of a pipeline, and the end of the loop.

  \<^bold>\<open>Files, lists, arithmetic, kernel.\<close> \<open>FileManager\<close> (\<^verbatim>\<open>hw9_vfs/file_manager\<close>); \<open>PhoneBook\<close> (\<^verbatim>\<open>hw4\<close>, \<^verbatim>\<open>hw5\<close>) and
  \<open>PhoneList\<close> (\<^verbatim>\<open>hw6\<close>), an array and a doubly linked list that implement one interface, \<open>phone_directory\<close>, and
  \<open>PhoneSessions\<close> the two programs around them, which print the same for the same typed text;
  \<open>Calc\<close> (\<^verbatim>\<open>hw7_static_lib\<close>, \<^verbatim>\<open>hw8_dinamic_lib\<close>); \<open>Basics\<close> (\<^verbatim>\<open>hw1\<close>, \<^verbatim>\<open>hw2\<close>, \<^verbatim>\<open>hw3\<close>, \<^verbatim>\<open>hw5_p2\<close>, \<^verbatim>\<open>hw9_vfs/output\<close>); \<open>CharDev\<close>
  (\<^verbatim>\<open>hw20_modules_linux/p2\<close>), the operations of the device and their interleaving around the lock.

  \<^bold>\<open>Interfaces.\<close> Each locale is interpreted on the definitions of the program: \<open>bounded_fifo\<close> on the circular
  queue, \<open>bounded_history\<close> on the chat ring, \<open>counter_table\<close> on the echo table, \<open>phone_directory\<close> and
  \<open>phone_program\<close> on array and list, \<open>exchange\<close> on the pairs of greeting processes,
  \<open>line_handler\<close> on both shells, \<open>calculator\<close> on both calculators, \<open>option_switch\<close> on three command lines,
  \<open>raw_receiver\<close> on three clients, \<open>socket_loop\<close> and \<open>socket_program\<close> on the servers that
  loop, \<open>signal_slot\<close> on the two receivers of \<^verbatim>\<open>SIGUSR1\<close>, \<open>transition_system\<close> on the concurrent programs.

  \<^bold>\<open>Loops and fuel.\<close> No function of the model takes fuel for a loop that the code bounds: \<^verbatim>\<open>for\<close> loops recurse over
  the list or the counter, loops over text shorten it (\<^theory_text>\<open>termination\<close> by its length). Menu loops, the shell
  and walks along a linked list are \<^theory_text>\<open>partial_function (option)\<close>; \<open>Shell\<close> and \<open>PhoneSessions\<close> prove that
  the loops return, \<open>PhoneList\<close> that the walks do. Servers that never end are step functions or relations. Trees of
  calls recurse on the number of iterations; the theorems hold for every number.

  \<open>explore\<close> in \<open>Exchange\<close> takes a bound on the length of a schedule; \<open>explore_sound\<close> turns a successful
  exploration into a statement on all runs, so the bound has no part in the theorems.

  \<^bold>\<open>Not modelled.\<close> \<^verbatim>\<open>hw18_fs_arm_busybox\<close> is the vendored BusyBox. Left out as code without logic of its own:
  \<^verbatim>\<open>hw18_fs_arm_slim\<close>, \<^verbatim>\<open>hw20_modules_linux/p1\<close>, \<^verbatim>\<open>hw3/hw3_2.c\<close> (a sum of two \<^verbatim>\<open>float\<close> constants) and
  \<^verbatim>\<open>hw3/hw3_3.c\<close>. Of the modelled programs, the windows and colours of the three \<^verbatim>\<open>curses\<close> programs are not
  modelled, and menus and prompts appear as events without their text.
\<close>

end
